(* ===== verification/Prelude.thy ===== *)
theory Prelude imports Main "HOL-Library.Word" begin

text \<open>
  Shared base of the development: the machine types the C code uses, little-endian layout of
  integers in byte buffers, bounds-checked buffer writes (the model of \<open>memcpy\<close> and of
  \<open>buffer[pos++] = c\<close>), and the interface \<open>fixed_codec\<close> of every fixed-width field that is
  written to or read from a firmware table.
\<close>

unbundle bit_operations_syntax

section \<open>Machine types\<close>

type_synonym u8 = "8 word"
type_synonym u16 = "16 word"
type_synonym u32 = "32 word"
type_synonym u64 = "64 word"
type_synonym bytes = "u8 list"

named_theorems layout_simps \<open>lengths and contents of encoded fields\<close>

text \<open>The bytes of a C string literal, without its terminator.\<close>

definition str :: "string \<Rightarrow> bytes" where
  "str s = map (\<lambda>c. of_char c) s"

lemma length_str [simp, layout_simps]: "length (str s) = length s"
  by (simp add: str_def)

section \<open>Reading words as numbers\<close>

text \<open>Values of \<open>size_t\<close> arithmetic, and the low bits a mask keeps.\<close>

lemma unat_of_nat_u64 [simp]: "n < 18446744073709551616 \<Longrightarrow> unat (of_nat n :: u64) = n"
  by (simp add: unat_of_nat take_bit_nat_eq_self)

lemma unat_add_of_nat: "unat p + n < 18446744073709551616 \<Longrightarrow> unat ((p::u64) + of_nat n) = unat p + n"
  by (simp add: unat_word_ariths)

lemma unat_add_1: "unat p + 1 < 18446744073709551616 \<Longrightarrow> unat ((p::u64) + 1) = unat p + 1"
  using unat_add_of_nat [of p 1] by simp

lemma unat_and_mask: "unat ((w::'a::len word) AND mask k) = unat w mod 2 ^ k"
  by (simp only: take_bit_eq_mask [symmetric] unsigned_take_bit_eq)
    (simp add: take_bit_eq_mod)

lemma unat_ucast_u8: "unat (ucast (w::'a::len word) :: u8) = unat w mod 256"
  by (simp add: unsigned_ucast_eq take_bit_eq_mod)

lemma radix_16_256:
  fixes m :: nat
  shows "m mod 16 + 16 * (m div 16 mod 256 + 256 * (m div 4096 mod 256)) = m mod 1048576"
    and "m mod 16 + 16 * (m div 16 mod 256 + 256 * (m div 4096 mod 256 + 256 * (m div 1048576 mod 256)))
      = m mod 268435456"
proof -
  have div: "m div 16 div 256 = m div 4096" "m div 4096 div 256 = m div 1048576"
    by (simp_all add: div_mult2_eq [symmetric])
  have a: "m mod 1048576 = 16 * (m div 16 mod 65536) + m mod 16"
    and a': "m mod 268435456 = 16 * (m div 16 mod 16777216) + m mod 16"
    using mod_mult2_eq [of m 16 65536] mod_mult2_eq [of m 16 16777216] by simp_all
  have b: "m div 16 mod 65536 = 256 * (m div 4096 mod 256) + m div 16 mod 256"
    and b': "m div 16 mod 16777216 = 256 * (m div 4096 mod 65536) + m div 16 mod 256"
    using mod_mult2_eq [of "m div 16" 256 256] mod_mult2_eq [of "m div 16" 256 65536] div by simp_all
  have c: "m div 4096 mod 65536 = 256 * (m div 1048576 mod 256) + m div 4096 mod 256"
    using mod_mult2_eq [of "m div 4096" 256 256] div by simp
  show "m mod 16 + 16 * (m div 16 mod 256 + 256 * (m div 4096 mod 256)) = m mod 1048576"
    unfolding a b by (simp only: ac_simps)
  show "m mod 16 + 16 * (m div 16 mod 256 + 256 * (m div 4096 mod 256 + 256 * (m div 1048576 mod 256)))
      = m mod 268435456"
    unfolding a' b' c by (simp only: ac_simps)
qed

lemma case_option_bind: "(case x of None \<Rightarrow> None | Some y \<Rightarrow> f y) = Option.bind x f"
  by (cases x) simp_all

section \<open>Little-endian integers\<close>

definition le_bytes :: "nat \<Rightarrow> 'a::len word \<Rightarrow> bytes" where
  "le_bytes n w = map (\<lambda>i. ucast (drop_bit (8 * i) w)) [0..<n]"

definition le_word :: "bytes \<Rightarrow> 'a::len word" where
  "le_word bs = foldr (\<lambda>b acc. ucast b OR push_bit 8 acc) bs 0"

abbreviation le16 :: "u16 \<Rightarrow> bytes" where "le16 \<equiv> le_bytes 2"
abbreviation le32 :: "u32 \<Rightarrow> bytes" where "le32 \<equiv> le_bytes 4"
abbreviation le64 :: "u64 \<Rightarrow> bytes" where "le64 \<equiv> le_bytes 8"

lemma length_le_bytes [simp, layout_simps]: "length (le_bytes n w) = n"
  by (simp add: le_bytes_def)

lemma le_word_Nil [simp]: "le_word [] = 0"
  by (simp add: le_word_def)

lemma le_word_Cons: "le_word (b # bs) = ucast b OR push_bit 8 (le_word bs)"
  by (simp add: le_word_def)

lemma bit_le_word:
  "bit (le_word bs :: 'a::len word) i \<longleftrightarrow>
     i < LENGTH('a) \<and> i < 8 * length bs \<and> bit (bs ! (i div 8)) (i mod 8)"
proof (induction bs arbitrary: i)
  case Nil
  then show ?case by simp
next
  case (Cons b bs)
  show ?case
  proof (cases "i < 8")
    case True
    then show ?thesis
      by (auto simp: le_word_Cons bit_or_iff bit_push_bit_iff bit_ucast_iff dest: bit_imp_le_length)
  next
    case False
    then have "i div 8 = Suc ((i - 8) div 8)" "i mod 8 = (i - 8) mod 8"
      by (simp_all add: le_div_geq le_mod_geq)
    moreover from False have "\<not> bit (ucast b :: 'a word) i"
      by (auto simp: bit_ucast_iff dest: bit_imp_le_length)
    ultimately show ?thesis
      using False Cons.IH [of "i - 8"]
      by (auto simp: le_word_Cons bit_or_iff bit_push_bit_iff)
  qed
qed

lemma bit_le_bytes_nth:
  "i < n \<Longrightarrow> bit (le_bytes n w ! i) k \<longleftrightarrow> k < 8 \<and> bit w (8 * i + k)"
  by (auto simp: le_bytes_def bit_ucast_iff bit_drop_bit_eq)

lemma le_word_le_bytes: "le_word (le_bytes n w) = take_bit (8 * n) (w :: 'a::len word)"
proof (rule bit_word_eqI)
  fix i assume "i < LENGTH('a)"
  show "bit (le_word (le_bytes n w) :: 'a word) i = bit (take_bit (8 * n) w) i"
  proof (cases "i < 8 * n")
    case True
    then have "i div 8 < n" by auto
    then show ?thesis
      using True \<open>i < LENGTH('a)\<close> by (simp add: bit_le_word bit_le_bytes_nth bit_take_bit_iff)
  next
    case False
    then show ?thesis by (simp add: bit_le_word bit_take_bit_iff)
  qed
qed

lemma le_bytes_le_word:
  assumes "length bs = n" "8 * n \<le> LENGTH('a)"
  shows "le_bytes n (le_word bs :: 'a::len word) = bs"
proof (rule nth_equalityI)
  show "length (le_bytes n (le_word bs :: 'a word)) = length bs"
    using assms by simp
  fix i assume "i < length (le_bytes n (le_word bs :: 'a word))"
  then have i: "i < n" by simp
  show "le_bytes n (le_word bs :: 'a word) ! i = bs ! i"
  proof (rule bit_word_eqI)
    fix k assume "k < LENGTH(8)"
    then have k: "k < 8" by simp
    with i have "8 * i + k < 8 * n" by linarith
    with assms have "8 * i + k < LENGTH('a)" by linarith
    with i k assms show "bit (le_bytes n (le_word bs :: 'a word) ! i) k = bit (bs ! i) k"
      by (simp add: bit_le_bytes_nth bit_le_word)
  qed
qed

section \<open>Fixed-width fields\<close>

text \<open>
  A field of a packed table: every value takes \<open>width\<close> bytes and reading the bytes back gives the
  value. What a client needs is \<open>field_read\<close>: the value is found again at its offset inside any
  surrounding bytes.
\<close>

definition slice :: "nat \<Rightarrow> nat \<Rightarrow> 'a list \<Rightarrow> 'a list" where
  "slice off n xs = take n (drop off xs)"

lemma length_slice [simp]: "off + n \<le> length xs \<Longrightarrow> length (slice off n xs) = n"
  by (simp add: slice_def)

lemma slice_middle: "length pre = off \<Longrightarrow> length mid = n \<Longrightarrow> slice off n (pre @ mid @ post) = mid"
  by (simp add: slice_def)

locale fixed_codec =
  fixes width :: nat
    and enc :: "'a \<Rightarrow> bytes"
    and dec :: "bytes \<Rightarrow> 'a"
  assumes enc_length: "length (enc x) = width"
    and dec_enc: "dec (enc x) = x"
begin

lemma enc_inj: "enc x = enc y \<Longrightarrow> x = y"
  by (metis dec_enc)

lemma field_read: "length pre = off \<Longrightarrow> dec (slice off width (pre @ enc x @ post)) = x"
  by (simp add: slice_middle enc_length dec_enc)

lemma field_read_0: "dec (slice 0 width (enc x @ post)) = x"
  using field_read [of "[]"] by simp

lemma field_split: "enc x @ p = enc y @ q \<longleftrightarrow> x = y \<and> p = q"
  by (metis append_eq_append_conv enc_inj enc_length)

end

interpretation f8: fixed_codec 1 "le_bytes 1 :: u8 \<Rightarrow> bytes" le_word
  by unfold_locales (simp_all add: le_word_le_bytes take_bit_word_eq_self)

interpretation f16: fixed_codec 2 le16 le_word
  by unfold_locales (simp_all add: le_word_le_bytes take_bit_word_eq_self)

interpretation f32: fixed_codec 4 le32 le_word
  by unfold_locales (simp_all add: le_word_le_bytes take_bit_word_eq_self)

interpretation f64: fixed_codec 8 le64 le_word
  by unfold_locales (simp_all add: le_word_le_bytes take_bit_word_eq_self)

section \<open>Bounds-checked buffers\<close>

text \<open>
  A heap buffer is the list of its bytes. A write of the bytes \<open>bs\<close> at index \<open>pos\<close> is
  \<open>None\<close> when one of them lies outside the buffer, where the C program has undefined behaviour.
\<close>

definition buf_write :: "bytes \<Rightarrow> nat \<Rightarrow> bytes \<Rightarrow> bytes option" where
  "buf_write buf pos bs =
     (if pos + length bs \<le> length buf
      then Some (take pos buf @ bs @ drop (pos + length bs) buf) else None)"

definition buf_read :: "bytes \<Rightarrow> nat \<Rightarrow> nat \<Rightarrow> bytes option" where
  "buf_read buf pos n = (if pos + n \<le> length buf then Some (slice pos n buf) else None)"

lemma buf_write_SomeD:
  "buf_write buf pos bs = Some buf' \<Longrightarrow>
     pos + length bs \<le> length buf \<and> buf' = take pos buf @ bs @ drop (pos + length bs) buf"
  by (auto simp: buf_write_def split: if_splits)

lemma buf_write_length [layout_simps]: "buf_write buf pos bs = Some buf' \<Longrightarrow> length buf' = length buf"
  by (auto simp: buf_write_def split: if_splits)

lemma buf_write_append:
  "buf_write buf pos (xs @ ys) =
     Option.bind (buf_write buf pos xs) (\<lambda>b. buf_write b (pos + length xs) ys)"
  by (cases xs) (auto simp: buf_write_def min_def ac_simps)

lemma buf_write_Cons:
  "buf_write buf pos (x # ys) = Option.bind (buf_write buf pos [x]) (\<lambda>b. buf_write b (pos + 1) ys)"
  using buf_write_append [of buf pos "[x]" ys] by simp

lemma buf_write_Nil [simp]: "pos \<le> length buf \<Longrightarrow> buf_write buf pos [] = Some buf"
  by (simp add: buf_write_def)

lemma buf_write_nth:
  "buf_write buf pos bs = Some buf' \<Longrightarrow> i < length buf \<Longrightarrow>
     buf' ! i = (if pos \<le> i \<and> i < pos + length bs then bs ! (i - pos) else buf ! i)"
  by (auto simp: buf_write_def nth_append min_def split: if_splits)

end
