(* ===== verification/Aml.thy ===== *)
theory Aml imports Prelude "HOL-Library.Multiset" begin

text \<open>
  Model of \<open>aml.h\<close> and \<open>aml.c\<close>: the tree of AML nodes, the two passes over it
  (\<open>aml_node_size\<close>, then \<open>aml_node_serialize\<close> into a buffer of that size), and node allocation.
  The reference side is \<open>aml_enc\<close>, which gives the AML bytes of a tree directly, and \<open>pkg_dec\<close>,
  the decoder of the ACPI specification's PkgLength. The lemmas show that the two passes agree with
  the reference on every tree of supported opcodes, and what happens on the others.
\<close>

unbundle bit_operations_syntax

section \<open>Nodes\<close>

text \<open>
  \<open>aml_NULL\<close> is the NULL pointer, a removed node. \<open>aml_DATA\<close> is a node with opcode
  \<open>AML_OPCODE__DATA\<close> (the union holds \<open>data_size\<close> and \<open>data\<close>), \<open>aml_NODE\<close> one with any
  other opcode (the union holds \<open>children_num\<close> and \<open>children\<close>).
\<close>

datatype aml_node =
    aml_NULL
  | aml_DATA (node_data: bytes)
  | aml_NODE (node_opcode: u16) (node_children: "aml_node list")

definition AML_OPCODE__DATA :: u16 where "AML_OPCODE__DATA = 0xff00"
definition AML_OPCODE__ROOT :: u16 where "AML_OPCODE__ROOT = 0xff01"
definition AML_OPCODE_ZeroOp :: u16 where "AML_OPCODE_ZeroOp = 0x00"
definition AML_OPCODE_ScopeOp :: u16 where "AML_OPCODE_ScopeOp = 0x10"
definition AML_OPCODE_ExternalOp :: u16 where "AML_OPCODE_ExternalOp = 0x15"
definition AML_OPCODE_IfOp :: u16 where "AML_OPCODE_IfOp = 0xa0"

lemmas aml_opcode_defs = AML_OPCODE__DATA_def AML_OPCODE__ROOT_def AML_OPCODE_ZeroOp_def
  AML_OPCODE_ScopeOp_def AML_OPCODE_ExternalOp_def AML_OPCODE_IfOp_def

definition AML_ERROR_NOT_IMPLEMENTED :: int where "AML_ERROR_NOT_IMPLEMENTED = - 38"

text \<open>The error code as \<open>aml_node_size\<close> returns it, converted to \<open>size_t\<close>.\<close>

definition aml_size_error :: u64 where
  "aml_size_error = word_of_int AML_ERROR_NOT_IMPLEMENTED"

section \<open>Allocation\<close>

text \<open>
  \<open>ok\<close> is the outcome of \<open>malloc\<close>. The payload (data bytes or child pointers) starts zeroed.
  \<open>aml_data_node\<close> copies \<open>size\<close> bytes of its source; \<open>None\<close> when the source is shorter.
\<close>

definition aml_alloc_node :: "bool \<Rightarrow> u16 \<Rightarrow> u16 \<Rightarrow> aml_node" where
  "aml_alloc_node ok opcode n =
     (if \<not> ok then aml_NULL
      else if opcode = AML_OPCODE__DATA then aml_DATA (replicate (unat n) 0)
      else aml_NODE opcode (replicate (unat n) aml_NULL))"

definition aml_data_node :: "bool \<Rightarrow> bytes \<Rightarrow> u16 \<Rightarrow> aml_node option" where
  "aml_data_node ok src sz =
     (case aml_alloc_node ok AML_OPCODE__DATA sz of
        aml_NULL \<Rightarrow> Some aml_NULL
      | n \<Rightarrow> if unat sz \<le> length src then Some (aml_DATA (take (unat sz) src)) else None)"

text \<open>The nodes \<open>aml_free_node\<close> passes to \<open>free\<close>, in the order of the calls.\<close>

fun aml_free_node :: "aml_node \<Rightarrow> bool \<Rightarrow> aml_node list" where
  "aml_free_node aml_NULL rec = []"
| "aml_free_node (aml_DATA d) rec = [aml_DATA d]"
| "aml_free_node (aml_NODE op kids) rec =
     (if rec then concat (map (\<lambda>k. aml_free_node k True) kids) else []) @ [aml_NODE op kids]"

section \<open>Size\<close>

text \<open>
  The loops over the children stop at the first child whose size is the error code (\<open>Inl\<close>);
  otherwise they add the sizes up in \<open>size_t\<close>.
\<close>

definition aml_container_size :: "u64 \<Rightarrow> u64" where
  "aml_container_size sz =
     (if sz < 63 then sz + 1
      else if sz < 4094 then sz + 2
      else if sz < 1048573 then sz + 3
      else sz + 4)"

fun aml_node_size :: "aml_node \<Rightarrow> u64"
  and aml_children_size :: "u64 \<Rightarrow> aml_node list \<Rightarrow> u64 + u64" where
  "aml_node_size aml_NULL = 0"
| "aml_node_size (aml_DATA d) = of_nat (length d)"
| "aml_node_size (aml_NODE opcode kids) =
     (case aml_children_size 0 kids of
        Inl ret \<Rightarrow> ret
      | Inr sz \<Rightarrow>
          if opcode = AML_OPCODE__ROOT then sz
          else if opcode = AML_OPCODE_ScopeOp \<or> opcode = AML_OPCODE_IfOp
            then aml_container_size sz + 1 + (if opcode > 0xff then 1 else 0)
          else if opcode = AML_OPCODE_ExternalOp \<or> opcode = AML_OPCODE_ZeroOp
            then sz + 1 + (if opcode > 0xff then 1 else 0)
          else aml_size_error)"
| "aml_children_size sz [] = Inr sz"
| "aml_children_size sz (child # kids) =
     (let ret = aml_node_size child in
      if ret = aml_size_error then Inl ret else aml_children_size (sz + ret) kids)"

section \<open>Serialization\<close>

text \<open>The PkgLength bytes for the length \<open>n\<close>, which counts the PkgLength bytes themselves.\<close>

definition aml_pkglength :: "u64 \<Rightarrow> bytes" where
  "aml_pkglength n =
     (if n < 64 then [ucast (n AND 0xff)]
      else if n < 4096 then
        [ucast (0x40 OR (n AND 0x0f)), ucast (drop_bit 4 n AND 0xff)]
      else if n < 1048576 then
        [ucast (0x80 OR (n AND 0x0f)), ucast (drop_bit 4 n AND 0xff), ucast (drop_bit 12 n AND 0xff)]
      else
        [ucast (0xc0 OR (n AND 0x0f)), ucast (drop_bit 4 n AND 0xff), ucast (drop_bit 12 n AND 0xff),
         ucast (drop_bit 20 n AND 0xff)])"

text \<open>
  \<open>aml_node_serialize buf pos node\<close> is \<open>None\<close> when a write leaves the buffer, otherwise the
  buffer after the call and the returned \<open>int32_t\<close>.
\<close>

fun aml_node_serialize :: "bytes \<Rightarrow> u64 \<Rightarrow> aml_node \<Rightarrow> (bytes \<times> int) option"
  and aml_serialize_children :: "bytes \<Rightarrow> u64 \<Rightarrow> aml_node list \<Rightarrow> (bytes \<times> int) option" where
  "aml_node_serialize buf pos aml_NULL = Some (buf, 0)"
| "aml_node_serialize buf pos (aml_DATA d) = map_option (\<lambda>b. (b, 0)) (buf_write buf (unat pos) d)"
| "aml_node_serialize buf pos (aml_NODE opcode kids) =
     (if opcode = AML_OPCODE__ROOT then aml_serialize_children buf pos kids
      else
        let children_size = aml_node_size (aml_NODE opcode kids) - 1
              - (if opcode > 0xff then 1 else 0);
            op_bytes = ucast (opcode AND 0xff)
              # (if opcode > 0xff then [ucast (drop_bit 8 opcode AND 0xff)] else []);
            pkg = (if opcode = AML_OPCODE_ScopeOp \<or> opcode = AML_OPCODE_IfOp
                   then aml_pkglength children_size else [])
        in case buf_write buf (unat pos) op_bytes of
             None \<Rightarrow> None
           | Some buf \<Rightarrow>
               let pos = pos + of_nat (length op_bytes) in
               if opcode \<in> {AML_OPCODE_ScopeOp, AML_OPCODE_IfOp, AML_OPCODE_ExternalOp, AML_OPCODE_ZeroOp}
               then
                 (case buf_write buf (unat pos) pkg of
                    None \<Rightarrow> None
                  | Some buf \<Rightarrow> aml_serialize_children buf (pos + of_nat (length pkg)) kids)
               else Some (buf, AML_ERROR_NOT_IMPLEMENTED))"
| "aml_serialize_children buf pos [] = Some (buf, 0)"
| "aml_serialize_children buf pos (child # kids) =
     (case aml_node_serialize buf pos child of
        None \<Rightarrow> None
      | Some (buf, ret) \<Rightarrow>
          if ret < 0 then Some (buf, ret)
          else aml_serialize_children buf (pos + aml_node_size child) kids)"

declare aml_node_size.simps(3) [simp del] aml_node_serialize.simps(3) [simp del]

section \<open>The reference encoding\<close>

text \<open>
  PkgLength of the ACPI specification (20.2.4) on natural numbers: \<open>pkg_width\<close> is the number of
  bytes it takes in front of \<open>n\<close> bytes of content and \<open>pkg_dec\<close> reads it back, giving the
  length and the number of bytes it used.
\<close>

definition pkg_width :: "nat \<Rightarrow> nat" where
  "pkg_width n = (if n + 1 < 2 ^ 6 then 1 else if n + 2 < 2 ^ 12 then 2
                  else if n + 3 < 2 ^ 20 then 3 else 4)"

fun le_nat :: "bytes \<Rightarrow> nat" where
  "le_nat [] = 0"
| "le_nat (b # bs) = unat b + 256 * le_nat bs"

fun pkg_dec :: "bytes \<Rightarrow> (nat \<times> nat) option" where
  "pkg_dec [] = None"
| "pkg_dec (b # bs) =
     (let k = unat b div 64 in
      if k = 0 then Some (unat b mod 64, 1)
      else if length bs < k then None
      else Some (unat b mod 16 + 16 * le_nat (take k bs), k + 1))"

fun aml_enc :: "aml_node \<Rightarrow> bytes option"
  and aml_enc_list :: "aml_node list \<Rightarrow> bytes option" where
  "aml_enc aml_NULL = Some []"
| "aml_enc (aml_DATA d) = Some d"
| "aml_enc (aml_NODE opcode kids) =
     (case aml_enc_list kids of
        None \<Rightarrow> None
      | Some body \<Rightarrow>
          if opcode = AML_OPCODE__ROOT then Some body
          else if opcode = AML_OPCODE_ScopeOp \<or> opcode = AML_OPCODE_IfOp
            then Some (ucast opcode # aml_pkglength (of_nat (length body + pkg_width (length body))) @ body)
          else if opcode = AML_OPCODE_ExternalOp \<or> opcode = AML_OPCODE_ZeroOp
            then Some (ucast opcode # body)
          else None)"
| "aml_enc_list [] = Some []"
| "aml_enc_list (child # kids) =
     (case aml_enc child of
        None \<Rightarrow> None
      | Some x \<Rightarrow> map_option (\<lambda>y. x @ y) (aml_enc_list kids))"

declare aml_enc.simps(3) [simp del]
section \<open>PkgLength\<close>

lemma and_0xff: "unat (ucast (n AND 0xff) :: u8) = unat (n::u64) mod 256"
  using unat_and_mask [of n 8] by (simp add: unat_ucast_u8 mask_numeral)

lemma tagged_nibble:
  assumes "tag AND 0xf = 0" "unat tag < 240"
  shows "unat (ucast (tag OR (n AND 0x0f)) :: u8) = unat tag + unat (n::u64) mod 16"
proof -
  have "tag AND (n AND 0x0f) = (tag AND 0xf) AND n" by (simp add: ac_simps)
  then have "tag AND (n AND 0x0f) = 0" using assms by simp
  then have "tag OR (n AND 0x0f) = tag + (n AND 0x0f)" by (simp add: disjunctive_add_eq_or)
  moreover have m: "unat (n AND 0xf) = unat n mod 16"
    using unat_and_mask [of n 4] by (simp add: mask_numeral)
  moreover have "unat (tag + (n AND 0x0f)) = unat tag + unat (n AND 0x0f)"
    using assms(2) m by (simp add: unat_word_ariths)
  ultimately show ?thesis using assms(2) by (simp add: unat_ucast_u8)
qed


lemma unat_nibbles: "unat (ucast (drop_bit k n AND 0xff) :: u8) = unat (n::u64) div 2 ^ k mod 256"
  by (simp only: and_0xff unat_drop_bit_eq) (simp only: drop_bit_eq_div)

lemma aml_container_size_of_nat:
  "n < 2 ^ 64 - 4 \<Longrightarrow> aml_container_size (of_nat n) = of_nat (n + pkg_width n)"
  by (auto simp: aml_container_size_def pkg_width_def word_less_nat_alt)

lemma length_aml_pkglength:
  "n < 2 ^ 64 - 4 \<Longrightarrow> length (aml_pkglength (of_nat (n + pkg_width n))) = pkg_width n"
  by (auto simp: aml_pkglength_def pkg_width_def word_less_nat_alt simp del: of_nat_add of_nat_Suc)

lemma tagged_div_mod:
  "(64 + n mod 16) div 64 = 1" "(64 + n mod 16) mod 16 = n mod 16"
  "(128 + n mod 16) div 64 = 2" "(128 + n mod 16) mod 16 = n mod 16"
  "(192 + n mod 16) div 64 = 3" "(192 + n mod 16) mod 16 = (n::nat) mod 16"
proof -
  have "n mod 16 < 16" by simp
  then show "(64 + n mod 16) div 64 = 1" "(128 + n mod 16) div 64 = 2" "(192 + n mod 16) div 64 = 3"
    by linarith+
  have "(64 + m) mod 16 = m mod 16" "(128 + m) mod 16 = m mod 16" "(192 + m) mod 16 = m mod 16" for m :: nat
    using mod_mult_self2 [of m 16 4] mod_mult_self2 [of m 16 8] mod_mult_self2 [of m 16 12]
    by (simp_all add: add.commute)
  then show "(64 + n mod 16) mod 16 = n mod 16" "(128 + n mod 16) mod 16 = n mod 16"
    "(192 + n mod 16) mod 16 = n mod 16" by simp_all
qed

text \<open>Four PkgLength bytes hold 28 bits: a longer package loses the bits above.\<close>

lemma pkg_dec_aml_pkglength_mod:
  "pkg_dec (aml_pkglength n @ rest) = Some (unat n mod 2 ^ 28, length (aml_pkglength n))"
proof -
  have tags: "(0x40::u64) AND 0xf = 0" "(0x80::u64) AND 0xf = 0" "(0xc0::u64) AND 0xf = 0" by simp_all
  note nib = tagged_nibble [OF tags(1)] tagged_nibble [OF tags(2)] tagged_nibble [OF tags(3)]
  note eval = aml_pkglength_def word_less_nat_alt unat_nibbles nib tagged_div_mod Let_def
  consider "unat n < 64" | "64 \<le> unat n" "unat n < 4096" | "4096 \<le> unat n" "unat n < 1048576"
    | "1048576 \<le> unat n" by linarith
  then show ?thesis
  proof cases
    case 1
    then show ?thesis by (simp add: aml_pkglength_def word_less_nat_alt and_0xff Let_def)
  next
    case 2
    then have "unat n mod 16 + 16 * (unat n div 16) = unat n mod 268435456" by simp
    with 2 show ?thesis by (simp add: eval)
  next
    case 3
    then have "unat n div 4096 < 256" "unat n mod 268435456 = unat n mod 1048576" by simp_all
    with 3 show ?thesis using radix_16_256 (1) [of "unat n"] by (simp add: eval)
  next
    case 4
    then show ?thesis using radix_16_256 (2) [of "unat n"] by (simp add: eval)
  qed
qed

section \<open>The two passes agree with the reference\<close>

text \<open>
  Encodings stay below \<open>aml_size_limit\<close>, so that no sum wraps around and no size is taken for the
  error code.
\<close>

definition aml_size_limit :: nat where "aml_size_limit = 2 ^ 64 - 38"

lemma aml_size_error_unat: "unat aml_size_error = aml_size_limit"
  by (simp add: aml_size_error_def AML_ERROR_NOT_IMPLEMENTED_def aml_size_limit_def)

lemma of_nat_not_size_error: "n < aml_size_limit \<Longrightarrow> of_nat n \<noteq> aml_size_error"
proof
  assume n: "n < aml_size_limit" and "of_nat n = aml_size_error"
  then have "unat (of_nat n :: u64) = aml_size_limit" by (simp only: aml_size_error_unat)
  moreover have "unat (of_nat n :: u64) = n"
    using n by (intro unat_of_nat_u64) (simp add: aml_size_limit_def)
  ultimately show False using n by simp
qed

lemma aml_size_correct:
  "aml_enc node = Some bs \<Longrightarrow> length bs < aml_size_limit \<Longrightarrow> aml_node_size node = of_nat (length bs)"
  "aml_enc_list kids = Some bs \<Longrightarrow> length bs < aml_size_limit \<Longrightarrow>
     aml_children_size acc kids = Inr (acc + of_nat (length bs))"
proof (induction node and kids arbitrary: bs and acc bs rule: aml_enc_aml_enc_list.induct)
  case (3 opcode kids)
  from "3.prems"(1) obtain body where body: "aml_enc_list kids = Some body"
    by (auto simp: aml_enc.simps(3) split: option.splits)
  with "3.prems" have len: "length body \<le> length bs" "length body < aml_size_limit"
    by (auto simp: aml_enc.simps(3) split: if_splits)
  have IH: "aml_children_size 0 kids = Inr (of_nat (length body))"
    using "3.IH" [OF body len(2), of 0] by simp
  from len(2) have "length (aml_pkglength (of_nat (length body) + of_nat (pkg_width (length body))))
      = pkg_width (length body)" "length body < 2 ^ 64 - 4"
    using length_aml_pkglength [of "length body"] by (simp_all add: aml_size_limit_def)
  then show ?case
    using "3.prems" body IH
    by (auto simp: aml_enc.simps(3) aml_node_size.simps(3) aml_container_size_of_nat
        aml_opcode_defs split: if_splits)
next
  case (5 child kids)
  then obtain x y where xy: "aml_enc child = Some x" "aml_enc_list kids = Some y" "bs = x @ y"
    by (auto split: option.splits)
  with "5.prems" have "length x < aml_size_limit" "length y < aml_size_limit" by auto
  with xy "5.IH"(1) [of x] "5.IH"(2) [OF xy(1) xy(2), of "acc + of_nat (length x)"] show ?case
    by (simp add: Let_def of_nat_not_size_error)
qed auto

lemma aml_serialize_correct:
  "aml_enc node = Some bs \<Longrightarrow> unat pos + length bs < aml_size_limit \<Longrightarrow> unat pos \<le> length buf \<Longrightarrow>
     aml_node_serialize buf pos node = map_option (\<lambda>b. (b, 0)) (buf_write buf (unat pos) bs)"
  "aml_enc_list kids = Some bs \<Longrightarrow> unat pos + length bs < aml_size_limit \<Longrightarrow> unat pos \<le> length buf \<Longrightarrow>
     aml_serialize_children buf pos kids = map_option (\<lambda>b. (b, 0)) (buf_write buf (unat pos) bs)"
proof (induction node and kids arbitrary: bs pos buf and bs pos buf rule: aml_enc_aml_enc_list.induct)
  case (3 opcode kids)
  from "3.prems"(1) obtain body where body: "aml_enc_list kids = Some body"
    by (auto simp: aml_enc.simps(3) split: option.splits)
  note IH = "3.IH" [OF body]
  have size: "aml_node_size (aml_NODE opcode kids) = of_nat (length bs)"
    using "3.prems" by (intro aml_size_correct) auto
  show ?case
  proof (cases "opcode = AML_OPCODE__ROOT")
    case True
    then show ?thesis using "3.prems" body IH by (simp add: aml_enc.simps(3) aml_node_serialize.simps(3))
  next
    case False
    define pkg where "pkg = (if opcode = AML_OPCODE_ScopeOp \<or> opcode = AML_OPCODE_IfOp
      then aml_pkglength (of_nat (length body + pkg_width (length body))) else [])"
    have bs: "bs = ucast opcode # pkg @ body" and op: "opcode \<in> {AML_OPCODE_ScopeOp, AML_OPCODE_IfOp,
        AML_OPCODE_ExternalOp, AML_OPCODE_ZeroOp}"
      using False "3.prems"(1) body by (auto simp: aml_enc.simps(3) pkg_def split: if_splits)
    from op have small: "\<not> 0xff < opcode" "ucast (opcode AND 0xff) = (ucast opcode :: u8)"
      by (auto simp: aml_opcode_defs)
    have pkg_eq: "(if opcode = AML_OPCODE_ScopeOp \<or> opcode = AML_OPCODE_IfOp
        then aml_pkglength (aml_node_size (aml_NODE opcode kids) - 1) else []) = pkg"
      using "3.prems"(2) length_aml_pkglength [of "length body"]
      by (auto simp: size pkg_def bs aml_size_limit_def add.commute)
    have len: "unat (pos + 1) = unat pos + 1"
      "unat (pos + 1 + of_nat (length pkg)) = unat pos + 1 + length pkg"
      using "3.prems"(2) bs unat_add_of_nat [of pos "1 + length pkg"]
      by (simp_all add: unat_add_1 aml_size_limit_def add.assoc)
    have step: "aml_node_serialize buf pos (aml_NODE opcode kids) =
        Option.bind (buf_write buf (unat pos) [ucast opcode]) (\<lambda>b.
          Option.bind (buf_write b (unat pos + 1) pkg) (\<lambda>b.
            aml_serialize_children b (pos + 1 + of_nat (length pkg)) kids))"
      using False small op len(1)
      by (simp add: aml_node_serialize.simps(3) pkg_eq case_option_bind cong: if_cong)
    show ?thesis
      unfolding step bs buf_write_Cons [of _ _ _ "pkg @ body"] buf_write_append [of _ _ pkg]
      using "3.prems"(2) bs len IH [of "pos + 1 + of_nat (length pkg)"]
      by (auto split: bind_splits dest!: buf_write_SomeD)
  qed
next
  case (5 child kids)
  then obtain x y where xy: "aml_enc child = Some x" "aml_enc_list kids = Some y" "bs = x @ y"
    by (auto split: option.splits)
  with "5.prems" have len: "unat pos + length x < aml_size_limit" "unat (pos + of_nat (length x)) = unat pos + length x"
     "aml_node_size child = of_nat (length x)" 
    by (auto simp: aml_size_limit_def intro!: unat_add_of_nat aml_size_correct)
  show ?case
  proof (cases "buf_write buf (unat pos) x")
    case None
    then show ?thesis using xy "5.IH"(1) [OF xy(1) len(1) "5.prems"(3)] 
      by (simp add: buf_write_append)
  next
    case (Some b)
    then have "unat (pos + of_nat (length x)) \<le> length b" using len by (auto dest: buf_write_SomeD)
    then show ?thesis 
      using Some xy "5.IH"(1) [OF xy(1) len(1) "5.prems"(3)] "5.IH"(2) [OF xy(1) xy(2), of "pos + of_nat (length x)" b] "5.prems"(2) len
      by (simp add: buf_write_append)
  qed
qed auto

section \<open>Unsupported opcodes\<close>

lemma aml_children_size_Inl: "aml_children_size acc kids = Inl e \<Longrightarrow> e = aml_size_error"
  by (induction kids arbitrary: acc) (auto simp: Let_def split: if_splits)

lemma aml_size_unsupported:
  "aml_enc node = None \<Longrightarrow> aml_node_size node = aml_size_error"
  "aml_enc_list kids = None \<Longrightarrow> aml_children_size acc kids = Inl aml_size_error"
proof (induction node and kids arbitrary: and acc rule: aml_enc_aml_enc_list.induct)
  case (3 opcode kids)
  show ?case
  proof (cases "aml_enc_list kids")
    case None
    then show ?thesis using "3.IH" by (simp add: aml_node_size.simps(3))
  next
    case (Some body)
    then show ?thesis
      using "3.prems"
      by (auto simp: aml_enc.simps(3) aml_node_size.simps(3) dest: aml_children_size_Inl
          split: if_splits sum.splits)
  qed
qed (auto simp: Let_def split: option.splits)

lemma aml_serialize_codes:
  "aml_node_serialize buf pos node = Some (b, r) \<Longrightarrow>
     r = (if aml_enc node = None then AML_ERROR_NOT_IMPLEMENTED else 0)"
  "aml_serialize_children buf pos kids = Some (b, r) \<Longrightarrow>
     r = (if aml_enc_list kids = None then AML_ERROR_NOT_IMPLEMENTED else 0)"
proof (induction node and kids arbitrary: buf pos b r and buf pos b r rule: aml_enc_aml_enc_list.induct)
  case (3 opcode kids)
  then show ?case
    by (fastforce simp: aml_enc.simps(3) aml_node_serialize.simps(3) Let_def
        split: if_splits option.splits)
next
  case (5 child kids)
  then show ?case
    by (fastforce simp: AML_ERROR_NOT_IMPLEMENTED_def split: if_splits option.splits)
qed auto

section \<open>Freeing a tree\<close>

fun aml_nodes :: "aml_node \<Rightarrow> aml_node list" where
  "aml_nodes aml_NULL = []"
| "aml_nodes (aml_DATA d) = [aml_DATA d]"
| "aml_nodes (aml_NODE op kids) = aml_NODE op kids # concat (map aml_nodes kids)"

text \<open>
  A recursive \<open>aml_free_node\<close> frees every node of the tree exactly once, NULL children skipped.
\<close>

lemma aml_free_node_once: "mset (aml_free_node node True) = mset (aml_nodes node)"
proof (induction node)
  case (aml_NODE op kids)
  then have "sum_list (map (\<lambda>k. mset (aml_free_node k True)) kids) = sum_list (map (\<lambda>k. mset (aml_nodes k)) kids)"
    by (intro arg_cong [where f = sum_list] map_cong) auto
  then show ?case by (simp add: mset_concat comp_def)
qed auto

section \<open>The tree of the test program\<close>

text \<open>
  The tree \<open>main\<close> of \<open>aml_test.c\<close> builds. Its table header there announces 0xaa bytes, the 36
  of the header and the 134 of this tree.
\<close>

definition aml_test_root :: aml_node where
  "aml_test_root =
     (let com1 = [0x5c, 0x2f, 3] @ str ''_SB_I2C0COM1'';
          com2 = [0x5c, 0x2f, 3] @ str ''_SB_SPI0COM2'';
          wifi = [0x5c, 0x2e] @ str ''_SB_WIFI'';
          ext = (\<lambda>name. aml_NODE AML_OPCODE_ExternalOp [aml_DATA name, aml_DATA [6], aml_DATA [0]]);
          hid = (\<lambda>s. aml_DATA ([8] @ str ''_HID'' @ [0x0d] @ str s @ [0]))
      in aml_NODE AML_OPCODE__ROOT
           [aml_NODE AML_OPCODE_IfOp
              [aml_NODE AML_OPCODE_ZeroOp [], ext com1, ext com2, ext wifi],
            aml_NODE AML_OPCODE_ScopeOp [aml_DATA com1, hid ''DIXY0001''],
            aml_NODE AML_OPCODE_ScopeOp [aml_DATA com2, hid ''DIXY0002''],
            aml_NODE AML_OPCODE_ScopeOp [aml_DATA wifi, aml_DATA ([8] @ str ''_STA'' @ [0])]])"


section \<open>Properties\<close>

text \<open>
  C6. For every tree of supported opcodes whose encoding \<open>bs\<close> stays below the range where sizes
  wrap around, \<open>aml_node_size\<close> is the exact length of the encoding, and \<open>aml_node_serialize\<close>
  into a region of that many bytes returns 0, writes exactly the encoding there, leaves every byte
  before and after the region alone, and never writes out of the buffer.
\<close>

theorem aml_two_pass_correct:
  assumes "aml_enc node = Some bs"
    and "length pre + length bs < aml_size_limit"
    and "length mid = unat (aml_node_size node)"
  shows "aml_node_size node = of_nat (length bs) \<and>
    aml_node_serialize (pre @ mid @ post) (of_nat (length pre)) node = Some (pre @ bs @ post, 0)"
proof -
  have size: "aml_node_size node = of_nat (length bs)"
    using assms by (intro aml_size_correct) auto
  have small: "length pre < 18446744073709551616" "length bs < 18446744073709551616"
    using assms(2) by (auto simp: aml_size_limit_def)
  then have "length mid = length bs" using assms(3) size by simp
  then have "buf_write (pre @ mid @ post) (length pre) bs = Some (pre @ bs @ post)"
    by (simp add: buf_write_def)
  with small show ?thesis
    using size assms aml_serialize_correct (1) [OF assms(1), of "of_nat (length pre)" "pre @ mid @ post"]
    by simp
qed

theorem aml_two_pass_correct_witness:
  "aml_node_size aml_test_root = 134 \<and>
   aml_node_serialize ([1, 2] @ replicate 134 0 @ [3]) 2 aml_test_root
     = Some ([1, 2] @ the (aml_enc aml_test_root) @ [3], 0)"
proof -
  have enc: "aml_enc aml_test_root = Some (the (aml_enc aml_test_root))" by code_simp
  have len: "length (the (aml_enc aml_test_root)) = 134" by code_simp
  have size: "aml_node_size aml_test_root = 134" by code_simp
  show ?thesis
    using aml_two_pass_correct [OF enc, of "[1, 2]" "replicate 134 0" "[3]"] len size
    by (simp add: aml_size_limit_def)
qed

text \<open>
  C7. The PkgLength bytes written for a length below 2\<open>^\<close>28 decode, by the rule of the ACPI
  specification, to that length and use up exactly those bytes, whatever follows them; a longer
  length is silently reduced modulo 2\<open>^\<close>28.
\<close>

theorem aml_pkglength_roundtrip:
  "pkg_dec (aml_pkglength n @ rest) = Some (unat n mod 2 ^ 28, length (aml_pkglength n))"
  by (rule pkg_dec_aml_pkglength_mod)

text \<open>
  C8. A tree with an opcode the code does not implement anywhere in it is always reported:
  \<open>aml_node_size\<close> is the error code, and \<open>aml_node_serialize\<close> never returns 0 on it; on a tree of
  supported opcodes it returns nothing else.
\<close>

theorem aml_unsupported_reported:
  "(aml_enc node = None \<longrightarrow> aml_node_size node = aml_size_error) \<and>
   (aml_node_serialize buf pos node = Some (buf', ret) \<longrightarrow>
      ret = (if aml_enc node = None then AML_ERROR_NOT_IMPLEMENTED else 0))"
  using aml_size_unsupported(1) aml_serialize_codes(1) by blast

theorem aml_unsupported_reported_witness:
  "aml_node_size (aml_NODE AML_OPCODE__ROOT [aml_DATA [1], aml_NODE 0x14 []]) = aml_size_error \<and>
   aml_node_serialize [0, 0, 0] 0 (aml_NODE AML_OPCODE__ROOT [aml_DATA [1], aml_NODE 0x14 []])
     = Some ([1, 0x14, 0], - 38)"
proof -
  let ?n = "aml_NODE AML_OPCODE__ROOT [aml_DATA [1], aml_NODE 0x14 []]"
  have enc: "aml_enc ?n = None" by code_simp
  have run: "aml_node_serialize [0, 0, 0] 0 ?n = Some ([1, 0x14, 0], - 38)" by code_simp
  show ?thesis
    using aml_unsupported_reported [of ?n "[0, 0, 0]" 0 "[1, 0x14, 0]" "- 38"] enc run by simp
qed


end
