(* ===== verification/Memory.thy ===== *)
theory Memory imports Prelude begin

text \<open>
  The byte-addressed memory that pointers of the program reach: a total map from 64-bit addresses to
  bytes, little-endian loads and stores of 1, 2, 4 and 8 bytes, and the interface
  \<open>cell_memory\<close> (a stored value is loaded again; cells that share no byte do not interfere) on
  which the register accesses and the allocator's block headers rest. The C layout of a \<open>struct\<close> is
  computed from the sizes and alignments of its members.
\<close>

unbundle bit_operations_syntax

section \<open>Bytes at an address\<close>

type_synonym memory = "u64 \<Rightarrow> u8"

definition mem_bytes :: "memory \<Rightarrow> u64 \<Rightarrow> nat \<Rightarrow> bytes" where
  "mem_bytes m a n = map (\<lambda>i. m (a + of_nat i)) [0..<n]"

definition mem_write :: "memory \<Rightarrow> u64 \<Rightarrow> bytes \<Rightarrow> memory" where
  "mem_write m a bs = (\<lambda>x. if unat (x - a) < length bs then bs ! unat (x - a) else m x)"

definition disjoint_cells :: "u64 \<Rightarrow> nat \<Rightarrow> u64 \<Rightarrow> nat \<Rightarrow> bool" where
  "disjoint_cells a n b k \<longleftrightarrow> (\<forall>i<n. \<forall>j<k. a + of_nat i \<noteq> b + of_nat j)"

lemma length_mem_bytes [simp, layout_simps]: "length (mem_bytes m a n) = n"
  by (simp add: mem_bytes_def)

lemma nth_mem_bytes [simp]: "i < n \<Longrightarrow> mem_bytes m a n ! i = m (a + of_nat i)"
  by (simp add: mem_bytes_def)

lemma mem_bytes_write_same:
  "length bs = n \<Longrightarrow> n < 18446744073709551616 \<Longrightarrow> mem_bytes (mem_write m a bs) a n = bs"
  by (rule nth_equalityI) (simp_all add: mem_write_def)

lemma mem_write_outside: "n \<le> unat (x - a) \<Longrightarrow> length bs = n \<Longrightarrow> mem_write m a bs x = m x"
  by (simp add: mem_write_def)

lemma disjoint_cells_outside:
  assumes "disjoint_cells a n b k" "j < k"
  shows "n \<le> unat (b + of_nat j - a)"
proof (rule ccontr)
  assume "\<not> n \<le> unat (b + of_nat j - a)"
  then have "unat (b + of_nat j - a) < n" by simp
  then have "a + of_nat (unat (b + of_nat j - a)) \<noteq> b + of_nat j"
    using assms unfolding disjoint_cells_def by blast
  then show False by simp
qed

lemma mem_bytes_write_other:
  "disjoint_cells a (length bs) b n \<Longrightarrow> mem_bytes (mem_write m a bs) b n = mem_bytes m b n"
  by (rule nth_equalityI) (simp_all add: mem_write_outside [OF disjoint_cells_outside])

section \<open>Loads and stores\<close>

definition load :: "nat \<Rightarrow> memory \<Rightarrow> u64 \<Rightarrow> 'a::len word" where
  "load n m a = le_word (mem_bytes m a n)"

definition store :: "nat \<Rightarrow> memory \<Rightarrow> u64 \<Rightarrow> 'a::len word \<Rightarrow> memory" where
  "store n m a v = mem_write m a (le_bytes n v)"

abbreviation load16 :: "memory \<Rightarrow> u64 \<Rightarrow> u16" where "load16 \<equiv> load 2"
abbreviation load32 :: "memory \<Rightarrow> u64 \<Rightarrow> u32" where "load32 \<equiv> load 4"
abbreviation load64 :: "memory \<Rightarrow> u64 \<Rightarrow> u64" where "load64 \<equiv> load 8"
abbreviation store16 :: "memory \<Rightarrow> u64 \<Rightarrow> u16 \<Rightarrow> memory" where "store16 \<equiv> store 2"
abbreviation store32 :: "memory \<Rightarrow> u64 \<Rightarrow> u32 \<Rightarrow> memory" where "store32 \<equiv> store 4"
abbreviation store64 :: "memory \<Rightarrow> u64 \<Rightarrow> u64 \<Rightarrow> memory" where "store64 \<equiv> store 8"

locale cell_memory =
  fixes width :: nat
    and ld :: "memory \<Rightarrow> u64 \<Rightarrow> 'v"
    and st :: "memory \<Rightarrow> u64 \<Rightarrow> 'v \<Rightarrow> memory"
  assumes ld_st_same: "ld (st m a v) a = v"
    and ld_st_other: "disjoint_cells a width b width \<Longrightarrow> ld (st m a v) b = ld m b"
    and st_outside: "width \<le> unat (x - a) \<Longrightarrow> st m a v x = m x"
begin

lemma ld_st: "a = b \<or> disjoint_cells a width b width \<Longrightarrow> ld (st m a v) b = (if a = b then v else ld m b)"
  by (auto simp: ld_st_same ld_st_other)

lemma ld_st_st: "disjoint_cells b width a width \<Longrightarrow> ld (st (st m a v) b w) a = v"
  by (simp add: ld_st_same ld_st_other)

lemma st_frame: "\<forall>i<width. x \<noteq> a + of_nat i \<Longrightarrow> st m a v x = m x"
proof (rule st_outside, rule ccontr)
  assume away: "\<forall>i<width. x \<noteq> a + of_nat i" and "\<not> width \<le> unat (x - a)"
  then have "unat (x - a) < width" by simp
  with away have "x \<noteq> a + of_nat (unat (x - a))" by blast
  then show False by simp
qed

end

lemma cell_memory_sized:
  assumes "LENGTH('a::len) = 8 * n" "n < 18446744073709551616"
  shows "cell_memory n (load n :: memory \<Rightarrow> u64 \<Rightarrow> 'a word) (store n)"
proof
  fix m :: memory and a :: u64 and v :: "'a word"
  have "le_word (le_bytes n v) = v"
    using assms by (simp add: le_word_le_bytes take_bit_word_eq_self)
  then show "(load n (store n m a v) a :: 'a word) = v"
    using assms by (simp add: load_def store_def mem_bytes_write_same)
qed (simp_all add: load_def store_def mem_bytes_write_other mem_write_outside)

interpretation c8: cell_memory 1 "load 1 :: memory \<Rightarrow> u64 \<Rightarrow> u8" "store 1"
  by (rule cell_memory_sized) simp_all

interpretation c16: cell_memory 2 load16 store16
  by (rule cell_memory_sized) simp_all

interpretation c32: cell_memory 4 load32 store32
  by (rule cell_memory_sized) simp_all

interpretation c64: cell_memory 8 load64 store64
  by (rule cell_memory_sized) simp_all

text \<open>What the simplifier needs to run a program on a concrete memory.\<close>

lemmas mem_eval = mem_write_def load_def store_def mem_bytes_def le_word_def le_bytes_def upt_conv_Cons

section \<open>Layout of C structures\<close>

text \<open>
  The AAPCS64 layout of a \<open>struct\<close> from the (size, alignment) of its members in order: each member
  starts at the next multiple of its alignment, and the size is rounded up to the largest one.
\<close>

definition c_align :: "nat \<Rightarrow> nat \<Rightarrow> nat" where
  "c_align off al = (off + al - 1) div al * al"

fun c_offsets :: "nat \<Rightarrow> (nat \<times> nat) list \<Rightarrow> nat list" where
  "c_offsets off [] = []"
| "c_offsets off ((sz, al) # fs) = (let o' = c_align off al in o' # c_offsets (o' + sz) fs)"

definition c_alignof :: "(nat \<times> nat) list \<Rightarrow> nat" where
  "c_alignof fs = foldr (\<lambda>f. max (snd f)) fs 1"

definition c_sizeof :: "(nat \<times> nat) list \<Rightarrow> nat" where
  "c_sizeof fs = (if fs = [] then 0
     else c_align (last (c_offsets 0 fs) + fst (last fs)) (c_alignof fs))"

definition c_offsetof :: "(nat \<times> nat) list \<Rightarrow> nat \<Rightarrow> nat" where
  "c_offsetof fs k = c_offsets 0 fs ! k"

text \<open>\<open>#pragma pack(1)\<close>: every member has alignment 1.\<close>

definition packed :: "nat list \<Rightarrow> (nat \<times> nat) list" where
  "packed sizes = map (\<lambda>s. (s, 1)) sizes"

section \<open>GUIDs\<close>

record efi_guid =
  Data1 :: u32
  Data2 :: u16
  Data3 :: u16
  Data4 :: bytes

definition guid_bytes :: "efi_guid \<Rightarrow> bytes" where
  "guid_bytes g = le32 (Data1 g) @ le16 (Data2 g) @ le16 (Data3 g) @ Data4 g"

text \<open>An entry of \<open>ST->ConfigurationTable\<close>: the vendor GUID's 16 bytes and the table's address.\<close>

record config_entry =
  VendorGuid :: bytes
  VendorTable :: u64

end
