(* ===== verification/AcpiTable.thy ===== *)
theory AcpiTable imports Memory begin

text \<open>
  The description header every ACPI table starts with (\<open>EFI_ACPI_SDT_HEADER\<close> of
  \<open>definitions.h\<close>), as a record, as the 36 bytes of its C layout, and as read back from a table by
  field offset.
\<close>

record acpi_header =
  hdr_Signature :: u32
  hdr_Length :: u32
  hdr_Revision :: u8
  hdr_Checksum :: u8
  hdr_OemId :: bytes
  hdr_OemTableId :: bytes
  hdr_OemRevision :: u32
  hdr_CreatorId :: u32
  hdr_CreatorRevision :: u32

definition acpi_header_members :: "(nat \<times> nat) list" where
  "acpi_header_members = [(4, 4), (4, 4), (1, 1), (1, 1), (6, 1), (8, 1), (4, 4), (4, 4), (4, 4)]"

definition sizeof_acpi_header :: nat where
  "sizeof_acpi_header = c_sizeof acpi_header_members"

definition header_bytes :: "acpi_header \<Rightarrow> bytes" where
  "header_bytes h =
     le32 (hdr_Signature h) @ le32 (hdr_Length h) @ [hdr_Revision h] @ [hdr_Checksum h]
       @ hdr_OemId h @ hdr_OemTableId h
       @ le32 (hdr_OemRevision h) @ le32 (hdr_CreatorId h) @ le32 (hdr_CreatorRevision h)"

definition header_ok :: "acpi_header \<Rightarrow> bool" where
  "header_ok h \<longleftrightarrow> length (hdr_OemId h) = 6 \<and> length (hdr_OemTableId h) = 8"

lemma sizeof_acpi_header [simp, layout_simps]: "sizeof_acpi_header = 36"
  by (simp add: sizeof_acpi_header_def acpi_header_members_def c_sizeof_def c_alignof_def c_align_def Let_def)

text \<open>No padding: the members follow each other in the C layout as they do in \<open>header_bytes\<close>.\<close>

lemma acpi_header_offsets: "c_offsets 0 acpi_header_members = [0, 4, 8, 9, 10, 16, 24, 28, 32]"
  by (simp add: acpi_header_members_def c_align_def Let_def)

lemma length_header_bytes [layout_simps]: "header_ok h \<Longrightarrow> length (header_bytes h) = 36"
  by (simp add: header_ok_def header_bytes_def)

section \<open>Reading a table\<close>

definition table_signature :: "bytes \<Rightarrow> u32" where "table_signature t = le_word (slice 0 4 t)"
definition table_length :: "bytes \<Rightarrow> u32" where "table_length t = le_word (slice 4 4 t)"
definition table_oem_id :: "bytes \<Rightarrow> bytes" where "table_oem_id t = slice 10 6 t"

lemma table_signature_header [simp]: "table_signature (header_bytes h @ body) = hdr_Signature h"
  unfolding table_signature_def header_bytes_def append_assoc by (rule f32.field_read_0)

lemma table_length_header [simp]: "table_length (header_bytes h @ body) = hdr_Length h"
  unfolding table_length_def header_bytes_def append_assoc
  by (rule f32.field_read) simp

lemma table_oem_id_header [simp]: "header_ok h \<Longrightarrow> table_oem_id (header_bytes h @ body) = hdr_OemId h"
  unfolding table_oem_id_def header_bytes_def append_assoc
  using slice_middle [of "le32 (hdr_Signature h) @ le32 (hdr_Length h) @ [hdr_Revision h] @ [hdr_Checksum h]" 10
      "hdr_OemId h" 6]
  by (simp add: header_ok_def)

lemma table_body_header: "header_ok h \<Longrightarrow> drop 36 (header_bytes h @ body) = body"
  by (simp add: length_header_bytes)

end
