(* ===== verification/SsdtTree.thy ===== *)
theory SsdtTree imports Aml AcpiTable begin

text \<open>
  The part of \<open>fix_dsdt\<close> of \<open>dsdt_fix.c\<close> that builds the SSDT from the two lists of device paths: the tree of AML
  nodes, with the outcome of every allocation, and its serialization behind the table header. A reader of the AML
  subset involved (\<open>ssdt_parse\<close>) recovers the lists from the bytes.
\<close>

unbundle bit_operations_syntax

section \<open>Building the SSDT\<close>

text \<open>
  \<open>node->children[i] = child\<close>: \<open>None\<close>, undefined behaviour, when the node is the null pointer or the index is
  outside of the allocated children.
\<close>

definition set_child :: "aml_node \<Rightarrow> u16 \<Rightarrow> aml_node \<Rightarrow> aml_node option" where
  "set_child node i child =
     (case node of
        aml_NODE op kids \<Rightarrow>
          if unat i < length kids then Some (aml_NODE op (kids[unat i := child])) else None
      | _ \<Rightarrow> None)"

text \<open>
  The results of the allocations are not checked. \<open>alloc_ok k\<close> is the outcome of the \<open>k\<close>-th \<open>malloc\<close> of the run; a
  state is a node under construction, the next index and the number of allocations so far.
  \<open>set_data_children\<close> stores data nodes (the bytes and the size that is passed) from an index on.
\<close>

fun set_data_children :: "(nat \<Rightarrow> bool) \<Rightarrow> (bytes \<times> u16) list \<Rightarrow> u16 \<Rightarrow> aml_node \<times> nat \<Rightarrow> (aml_node \<times> nat) option" where
  "set_data_children alloc_ok [] i s = Some s"
| "set_data_children alloc_ok ((src, sz) # cs) i (node, k) =
     (case Option.bind (aml_data_node (alloc_ok k) src sz) (set_child node i) of
        None \<Rightarrow> None
      | Some node \<Rightarrow> set_data_children alloc_ok cs (i + 1) (node, k + 1))"

text \<open>\<open>aml_data_node(node->name, (uint16_t)node->name_size)\<close>\<close>

definition name_node :: "bytes \<Rightarrow> bytes \<times> u16" where
  "name_node name = (name, of_nat (length name))"

definition external_node :: "(nat \<Rightarrow> bool) \<Rightarrow> nat \<Rightarrow> bytes \<Rightarrow> (aml_node \<times> nat) option" where
  "external_node alloc_ok k name =
     set_data_children alloc_ok [name_node name, ([6, 0], 1), ([0, 0], 1)] 0
       (aml_alloc_node (alloc_ok k) AML_OPCODE_ExternalOp 3, k + 1)"

text \<open>\<open>sprintf\<close> with \<open>%04X\<close> of a \<open>uint16_t\<close>.\<close>

definition hex_digit :: "nat \<Rightarrow> u8" where
  "hex_digit d = (if d < 10 then of_nat (48 + d) else of_nat (55 + d))"

definition hex4 :: "u16 \<Rightarrow> bytes" where
  "hex4 n = map hex_digit
     [unat n div 4096 mod 16, unat n div 256 mod 16, unat n div 16 mod 16, unat n mod 16]"

text \<open>The 16 bytes of \<open>hid_buffer\<close> after the \<open>sprintf\<close>; \<open>junk\<close> is the byte it does not write.\<close>

definition hid_buffer :: "u8 \<Rightarrow> u16 \<Rightarrow> bytes" where
  "hid_buffer junk hid_index =
     [0x08] @ str ''_HID'' @ [0x0d] @ str ''DIXY'' @ hex4 hid_index @ [0, junk]"

definition hid_scope_node :: "(nat \<Rightarrow> bool) \<Rightarrow> nat \<Rightarrow> u8 \<Rightarrow> bytes \<Rightarrow> u16 \<Rightarrow> (aml_node \<times> nat) option" where
  "hid_scope_node alloc_ok k junk name hid_index =
     set_data_children alloc_ok [name_node name, (hid_buffer junk hid_index, 15)] 0
       (aml_alloc_node (alloc_ok k) AML_OPCODE_ScopeOp 2, k + 1)"

definition sta_scope_node :: "(nat \<Rightarrow> bool) \<Rightarrow> nat \<Rightarrow> bytes \<Rightarrow> (aml_node \<times> nat) option" where
  "sta_scope_node alloc_ok k name =
     set_data_children alloc_ok [name_node name, ([0x08] @ str ''_STA'' @ [0, 0], 6)] 0
       (aml_alloc_node (alloc_ok k) AML_OPCODE_ScopeOp 2, k + 1)"

text \<open>
  The loops over the two lists, each storing its nodes from a running \<open>uint16_t\<close> index on.
\<close>

fun add_externals :: "(nat \<Rightarrow> bool) \<Rightarrow> bytes list \<Rightarrow> aml_node \<times> u16 \<times> nat \<Rightarrow> (aml_node \<times> u16 \<times> nat) option" where
  "add_externals alloc_ok [] s = Some s"
| "add_externals alloc_ok (name # names) (node, i, k) =
     (case external_node alloc_ok k name of
        None \<Rightarrow> None
      | Some (external, k) \<Rightarrow>
          (case set_child node i external of
             None \<Rightarrow> None
           | Some node \<Rightarrow> add_externals alloc_ok names (node, i + 1, k)))"

fun add_hid_scopes ::
    "(nat \<Rightarrow> bool) \<Rightarrow> u8 \<Rightarrow> bytes list \<Rightarrow> u16 \<Rightarrow> aml_node \<times> u16 \<times> nat \<Rightarrow> (aml_node \<times> u16 \<times> nat) option" where
  "add_hid_scopes alloc_ok junk [] hid_index s = Some s"
| "add_hid_scopes alloc_ok junk (name # names) hid_index (node, i, k) =
     (case hid_scope_node alloc_ok k junk name hid_index of
        None \<Rightarrow> None
      | Some (scope, k) \<Rightarrow>
          (case set_child node i scope of
             None \<Rightarrow> None
           | Some node \<Rightarrow> add_hid_scopes alloc_ok junk names (hid_index + 1) (node, i + 1, k)))"

fun add_sta_scopes :: "(nat \<Rightarrow> bool) \<Rightarrow> bytes list \<Rightarrow> aml_node \<times> u16 \<times> nat \<Rightarrow> (aml_node \<times> u16 \<times> nat) option" where
  "add_sta_scopes alloc_ok [] s = Some s"
| "add_sta_scopes alloc_ok (name # names) (node, i, k) =
     (case sta_scope_node alloc_ok k name of
        None \<Rightarrow> None
      | Some (scope, k) \<Rightarrow>
          (case set_child node i scope of
             None \<Rightarrow> None
           | Some node \<Rightarrow> add_sta_scopes alloc_ok names (node, i + 1, k)))"

definition if_zero_node :: "(nat \<Rightarrow> bool) \<Rightarrow> nat \<Rightarrow> bytes list \<Rightarrow> bytes list \<Rightarrow> u16 \<Rightarrow> (aml_node \<times> nat) option" where
  "if_zero_node alloc_ok k missing offline n =
     (let if_zero = aml_alloc_node (alloc_ok k) AML_OPCODE_IfOp n;
          zero = aml_alloc_node (alloc_ok (k + 1)) AML_OPCODE_ZeroOp 0
      in case set_child if_zero 0 zero of
           None \<Rightarrow> None
         | Some if_zero \<Rightarrow>
             map_option (\<lambda>(if_zero, i, k). (if_zero, k))
               (Option.bind (add_externals alloc_ok missing (if_zero, 1, k + 2)) (add_externals alloc_ok offline)))"

definition ssdt_root :: "(nat \<Rightarrow> bool) \<Rightarrow> nat \<Rightarrow> u8 \<Rightarrow> bytes list \<Rightarrow> bytes list \<Rightarrow> (aml_node \<times> nat) option" where
  "ssdt_root alloc_ok k junk missing offline =
     (let missing_hids_count = of_nat (length missing) :: u16;
          offline_ddrcs_count = of_nat (length offline) :: u16;
          n = 1 + missing_hids_count + offline_ddrcs_count;
          root = aml_alloc_node (alloc_ok k) AML_OPCODE__ROOT n
      in case if_zero_node alloc_ok (k + 1) missing offline n of
           None \<Rightarrow> None
         | Some (if_zero, k) \<Rightarrow>
             (case set_child root 0 if_zero of
                None \<Rightarrow> None
              | Some root \<Rightarrow>
                  map_option (\<lambda>(root, i, k). (root, k))
                    (Option.bind (add_hid_scopes alloc_ok junk missing 1 (root, 1, k)) (add_sta_scopes alloc_ok offline))))"

definition ssdt_header :: "u64 \<Rightarrow> acpi_header" where
  "ssdt_header ssdt_size =
     \<lparr>hdr_Signature = 0x54445353,
      hdr_Length = ucast (of_nat sizeof_acpi_header + ssdt_size),
      hdr_Revision = 2, hdr_Checksum = 0,
      hdr_OemId = str ''DIXYES'', hdr_OemTableId = str ''DSDTFIX '',
      hdr_OemRevision = 1, hdr_CreatorId = 0x59584944, hdr_CreatorRevision = 1\<rparr>"

text \<open>
  The buffer handed to \<open>InstallAcpiTable\<close> and the code \<open>aml_node_serialize\<close> returned for it;
  \<open>ok\<close> is the outcome of its \<open>malloc\<close> (the header is written to the null pointer when it fails) and \<open>fresh n\<close> the
  content of the \<open>malloc\<close>ed block of \<open>n\<close> bytes.
\<close>

definition ssdt_table :: "bool \<Rightarrow> (nat \<Rightarrow> bytes) \<Rightarrow> aml_node \<Rightarrow> (bytes \<times> int) option" where
  "ssdt_table ok fresh root =
     (let ssdt_size = aml_node_size root;
          ssdt_buffer = fresh (unat (of_nat sizeof_acpi_header + ssdt_size))
      in if \<not> ok then None
         else case buf_write ssdt_buffer 0 (header_bytes (ssdt_header ssdt_size)) of
           None \<Rightarrow> None
         | Some ssdt_buffer \<Rightarrow>
             map_option (\<lambda>(body, ret). (take sizeof_acpi_header ssdt_buffer @ body, ret))
               (aml_node_serialize (drop sizeof_acpi_header ssdt_buffer) 0 root))"

section \<open>The tree the loops build\<close>

text \<open>Storing consecutive children from an index on: the common shape of the three loops.\<close>

fun store_from :: "aml_node list \<Rightarrow> aml_node \<times> u16 \<Rightarrow> (aml_node \<times> u16) option" where
  "store_from [] s = Some s"
| "store_from (c # cs) (node, i) =
     (case set_child node i c of None \<Rightarrow> None | Some node \<Rightarrow> store_from cs (node, i + 1))"

lemma store_from_NODE:
  "unat i + length cs \<le> length kids \<Longrightarrow> length kids < 65536 \<Longrightarrow>
     store_from cs (aml_NODE op kids, i) =
       Some (aml_NODE op (take (unat i) kids @ cs @ drop (unat i + length cs) kids), i + of_nat (length cs))"
proof (induction cs arbitrary: kids i)
  case (Cons c cs)
  have i: "unat (i + 1) = unat i + 1"
    using Cons.prems by (simp add: unat_word_ariths)
  have "store_from (c # cs) (aml_NODE op kids, i) = store_from cs (aml_NODE op (kids[unat i := c]), i + 1)"
    using Cons.prems by (simp add: set_child_def)
  also have "\<dots> = Some (aml_NODE op (take (unat i + 1) (kids[unat i := c]) @ cs
      @ drop (unat i + 1 + length cs) (kids[unat i := c])), i + 1 + of_nat (length cs))"
    using Cons.IH [of "i + 1" "kids[unat i := c]"] Cons.prems i by simp
  also have "take (unat i + 1) (kids[unat i := c]) = take (unat i) kids @ [c]"
    using Cons.prems by (simp add: take_Suc_conv_app_nth)
  finally show ?case by (simp add: ac_simps)
qed simp

definition external_tree :: "bytes \<Rightarrow> aml_node" where
  "external_tree name = aml_NODE AML_OPCODE_ExternalOp [aml_DATA name, aml_DATA [6], aml_DATA [0]]"

definition hid_tree :: "bytes \<Rightarrow> u16 \<Rightarrow> aml_node" where
  "hid_tree name k = aml_NODE AML_OPCODE_ScopeOp
     [aml_DATA name, aml_DATA ([0x08] @ str ''_HID'' @ [0x0d] @ str ''DIXY'' @ hex4 k @ [0])]"

definition sta_tree :: "bytes \<Rightarrow> aml_node" where
  "sta_tree name = aml_NODE AML_OPCODE_ScopeOp [aml_DATA name, aml_DATA ([0x08] @ str ''_STA'' @ [0])]"

definition hid_indices :: "bytes list \<Rightarrow> u16 list" where
  "hid_indices missing = map of_nat [1..<length missing + 1]"

definition ssdt_tree :: "bytes list \<Rightarrow> bytes list \<Rightarrow> aml_node" where
  "ssdt_tree missing offline =
     aml_NODE AML_OPCODE__ROOT
       (aml_NODE AML_OPCODE_IfOp (aml_NODE AML_OPCODE_ZeroOp [] # map external_tree (missing @ offline))
        # map2 hid_tree missing (hid_indices missing) @ map sta_tree offline)"

lemma length_hex4 [simp, layout_simps]: "length (hex4 n) = 4"
  by (simp add: hex4_def)

lemma aml_data_node_eq:
  "length src < 65536 \<Longrightarrow> unat sz \<le> length src \<Longrightarrow> aml_data_node True src sz = Some (aml_DATA (take (unat sz) src))"
  by (simp add: aml_data_node_def aml_alloc_node_def)

lemma name_node_eq:
  "length name < 65536 \<Longrightarrow> aml_data_node True name (of_nat (length name)) = Some (aml_DATA name)"
  by (simp add: aml_data_node_def aml_alloc_node_def unat_of_nat take_bit_nat_eq_self)

lemma alloc_scope: "aml_alloc_node True AML_OPCODE_ScopeOp 2 = aml_NODE AML_OPCODE_ScopeOp [aml_NULL, aml_NULL]"
  by (simp add: aml_alloc_node_def aml_opcode_defs) (simp add: numeral_2_eq_2)

lemma alloc_external:
  "aml_alloc_node True AML_OPCODE_ExternalOp 3 = aml_NODE AML_OPCODE_ExternalOp [aml_NULL, aml_NULL, aml_NULL]"
  by (simp add: aml_alloc_node_def aml_opcode_defs) (simp add: numeral_3_eq_3)

lemmas node_build_simps = name_node_def name_node_eq aml_data_node_eq alloc_scope alloc_external set_child_def

lemma external_node_eq:
  "\<forall>k. alloc_ok k \<Longrightarrow> length name < 65536 \<Longrightarrow> external_node alloc_ok k name = Some (external_tree name, k + 4)"
  by (simp add: external_node_def external_tree_def node_build_simps)

lemma hid_scope_node_eq:
  "\<forall>k. alloc_ok k \<Longrightarrow> length name < 65536 \<Longrightarrow> hid_scope_node alloc_ok k junk name n = Some (hid_tree name n, k + 3)"
  by (simp add: hid_scope_node_def hid_tree_def hid_buffer_def node_build_simps)

lemma sta_scope_node_eq:
  "\<forall>k. alloc_ok k \<Longrightarrow> length name < 65536 \<Longrightarrow> sta_scope_node alloc_ok k name = Some (sta_tree name, k + 3)"
  by (simp add: sta_scope_node_def sta_tree_def node_build_simps)

text \<open>The loops, when every allocation succeeds.\<close>

abbreviation counted :: "nat \<Rightarrow> aml_node \<times> u16 \<Rightarrow> aml_node \<times> u16 \<times> nat" where
  "counted k \<equiv> \<lambda>(node, i). (node, i, k)"

lemma add_externals_store:
  "\<forall>k. alloc_ok k \<Longrightarrow> \<forall>name \<in> set names. length name < 65536 \<Longrightarrow>
     add_externals alloc_ok names (node, i, k) =
       map_option (counted (k + 4 * length names)) (store_from (map external_tree names) (node, i))"
  by (induction names arbitrary: node i k) (auto simp: external_node_eq add.assoc split: option.splits)

lemma add_sta_scopes_store:
  "\<forall>k. alloc_ok k \<Longrightarrow> \<forall>name \<in> set names. length name < 65536 \<Longrightarrow>
     add_sta_scopes alloc_ok names (node, i, k) =
       map_option (counted (k + 3 * length names)) (store_from (map sta_tree names) (node, i))"
  by (induction names arbitrary: node i k) (auto simp: sta_scope_node_eq add.assoc split: option.splits)

lemma add_hid_scopes_store:
  "\<forall>k. alloc_ok k \<Longrightarrow> \<forall>name \<in> set names. length name < 65536 \<Longrightarrow>
     add_hid_scopes alloc_ok junk names (of_nat n) (node, i, k) =
       map_option (counted (k + 3 * length names))
         (store_from (map2 hid_tree names (map of_nat [n..<n + length names])) (node, i))"
proof (induction names arbitrary: n node i k)
  case (Cons name names)
  have "[n..<n + length (name # names)] = n # [Suc n..<Suc n + length names]"
    by (subst upt_rec) simp
  moreover have "(of_nat n :: u16) + 1 = of_nat (Suc n)" by simp
  ultimately show ?case
    using Cons by (simp add: hid_scope_node_eq add.assoc del: of_nat_Suc upt_Suc split: option.splits)
qed simp

lemma store_from_append:
  "Option.bind (store_from xs s) (store_from ys) = store_from (xs @ ys) s"
  by (induction xs s rule: store_from.induct) (auto split: option.splits)

lemma store_from_all:
  assumes "length cs + 1 = n" "n < 65536"
  shows "store_from cs (aml_NODE op (x # replicate (n - 1) aml_NULL), 1) =
    Some (aml_NODE op (x # cs), 1 + of_nat (length cs))"
  using store_from_NODE [of 1 cs "x # replicate (n - 1) aml_NULL" op] assms by simp

lemma ssdt_root_eq:
  assumes ok: "\<forall>k. alloc_ok k" and names: "\<forall>name \<in> set missing \<union> set offline. length name < 65536"
    and count: "length missing + length offline < 65535"
  shows "ssdt_root alloc_ok k junk missing offline =
    Some (ssdt_tree missing offline, k + 3 + 7 * (length missing + length offline))"
proof -
  define n where "n = 1 + length missing + length offline"
  let ?n = "1 + of_nat (length missing) + of_nat (length offline) :: u16"
  have n: "n < 65536" using count by (simp add: n_def)
  have "?n = of_nat n" by (simp add: n_def)
  then have un: "unat ?n = n" using n by (simp add: unat_of_nat take_bit_nat_eq_self)
  have rep: "replicate n aml_NULL = aml_NULL # replicate (n - 1) aml_NULL"
    by (simp add: n_def)
  have first: "set_child (aml_alloc_node True op ?n) 0 x = Some (aml_NODE op (x # replicate (n - 1) aml_NULL))"
    if "op \<noteq> AML_OPCODE__DATA" for op x
    using that by (simp add: aml_alloc_node_def un rep set_child_def)
  have run: "Option.bind (map_option (counted k1) (store_from xs s)) f = map_option (counted k2) (store_from (xs @ ys) s)"
    if "\<And>node i. f (node, i, k1) = map_option (counted k2) (store_from ys (node, i))" for xs ys s f k1 k2
    using that by (simp add: store_from_append [symmetric] split: option.splits Option.bind_splits)
  let ?exts = "map external_tree missing @ map external_tree offline"
  let ?if = "aml_NODE AML_OPCODE_IfOp (aml_NODE AML_OPCODE_ZeroOp [] # ?exts)"
  have ops: "AML_OPCODE_IfOp \<noteq> AML_OPCODE__DATA" "AML_OPCODE__ROOT \<noteq> AML_OPCODE__DATA"
    "aml_alloc_node True AML_OPCODE_ZeroOp 0 = aml_NODE AML_OPCODE_ZeroOp []"
    by (simp_all add: aml_opcode_defs aml_alloc_node_def)
  have bind: "Option.bind (add_externals alloc_ok missing (node, i, K)) (add_externals alloc_ok offline)
      = map_option (counted (K + 4 * length missing + 4 * length offline)) (store_from ?exts (node, i))" for node i K
    using names by (subst add_externals_store [OF ok]) (auto intro!: run simp: add_externals_store [OF ok])
  have "length ?exts + 1 = n" by (simp add: n_def)
  note exts = store_from_all [OF this n, of AML_OPCODE_IfOp "aml_NODE AML_OPCODE_ZeroOp []"]
  have if_zero: "if_zero_node alloc_ok (k + 1) missing offline ?n =
      Some (?if, k + 3 + 4 * length missing + 4 * length offline)"
    using ok by (simp add: if_zero_node_def first [OF ops(1)] ops(3) bind exts [unfolded One_nat_def])
  define idx where "idx = (map of_nat [1..<1 + length missing] :: u16 list)"
  let ?scopes = "map2 hid_tree missing idx @ map sta_tree offline"
  have bind: "Option.bind (add_hid_scopes alloc_ok junk missing 1 (node, i, K)) (add_sta_scopes alloc_ok offline)
      = map_option (counted (K + 3 * length missing + 3 * length offline)) (store_from ?scopes (node, i))" for node i K
  proof -
    have "add_hid_scopes alloc_ok junk missing 1 (node, i, K) =
        map_option (counted (K + 3 * length missing)) (store_from (map2 hid_tree missing idx) (node, i))"
      using add_hid_scopes_store [OF ok, of missing junk 1 node i K] names by (simp add: idx_def del: upt_Suc)
    then show ?thesis using names by (simp only:) (rule run, simp add: add_sta_scopes_store [OF ok])
  qed
  have "length ?scopes + 1 = n" by (simp add: n_def idx_def del: upt_Suc)
  note scopes = store_from_all [OF this n, of AML_OPCODE__ROOT ?if]
  have "hid_indices missing = idx" by (simp add: hid_indices_def idx_def del: upt_Suc)
  then have "ssdt_tree missing offline = aml_NODE AML_OPCODE__ROOT (?if # ?scopes)" by (simp add: ssdt_tree_def)
  then show ?thesis
    using ok by (simp only: ssdt_root_def Let_def if_zero option.case prod.case first [OF ops(2)] bind scopes) simp
qed

section \<open>A reader of the AML the table holds\<close>

text \<open>
  The grammar of the ACPI specification for the terms involved, read left to right: a NameString
  after the root character (\<open>parse_name\<close>), a package by its PkgLength (\<open>split_pkg\<close>), the
  External declarations inside \<open>If (Zero)\<close>, and the Scopes with one Name each.
\<close>

datatype scope_item = Set_HID bytes bytes | Set_STA0 bytes

definition parse_name :: "bytes \<Rightarrow> (bytes \<times> bytes) option" where
  "parse_name bs =
     (if take 2 bs = [0x5c, 0x2e] \<and> 10 \<le> length bs then Some (take 10 bs, drop 10 bs)
      else if take 2 bs = [0x5c, 0x2f] \<and> 3 \<le> length bs \<and> 3 + 4 * unat (bs ! 2) \<le> length bs
        then Some (take (3 + 4 * unat (bs ! 2)) bs, drop (3 + 4 * unat (bs ! 2)) bs)
      else None)"

definition split_pkg :: "bytes \<Rightarrow> (bytes \<times> bytes) option" where
  "split_pkg bs =
     (case pkg_dec bs of
        None \<Rightarrow> None
      | Some (n, k) \<Rightarrow> if k \<le> n \<and> n \<le> length bs then Some (slice k (n - k) bs, drop n bs) else None)"

fun parse_externals :: "nat \<Rightarrow> bytes \<Rightarrow> bytes list option" where
  "parse_externals fuel [] = Some []"
| "parse_externals 0 (b # bs) = None"
| "parse_externals (Suc fuel) (b # bs) =
     (if b \<noteq> 0x15 then None
      else case parse_name bs of
          None \<Rightarrow> None
        | Some (name, rest) \<Rightarrow>
            if take 2 rest = [6, 0] then map_option ((#) name) (parse_externals fuel (drop 2 rest)) else None)"

definition parse_scope_body :: "bytes \<Rightarrow> scope_item option" where
  "parse_scope_body bs =
     (case parse_name bs of
        None \<Rightarrow> None
      | Some (name, def) \<Rightarrow>
          if take 6 def = [0x08] @ str ''_HID'' @ [0x0d] \<and> 7 \<le> length def \<and> last def = 0
            then Some (Set_HID name (butlast (drop 6 def)))
          else if def = [0x08] @ str ''_STA'' @ [0] then Some (Set_STA0 name)
          else None)"

fun parse_scopes :: "nat \<Rightarrow> bytes \<Rightarrow> scope_item list option" where
  "parse_scopes fuel [] = Some []"
| "parse_scopes 0 (b # bs) = None"
| "parse_scopes (Suc fuel) (b # bs) =
     (if b \<noteq> 0x10 then None
      else case split_pkg bs of
          None \<Rightarrow> None
        | Some (body, rest) \<Rightarrow>
            (case parse_scope_body body of
               None \<Rightarrow> None
             | Some item \<Rightarrow> map_option ((#) item) (parse_scopes fuel rest)))"

definition ssdt_parse :: "bytes \<Rightarrow> (bytes list \<times> scope_item list) option" where
  "ssdt_parse bs =
     (if take 1 bs \<noteq> [0xa0] then None
      else case split_pkg (drop 1 bs) of
          None \<Rightarrow> None
        | Some (body, rest) \<Rightarrow>
            if take 1 body \<noteq> [0] then None
            else (case parse_externals (length body) (drop 1 body) of
                    None \<Rightarrow> None
                  | Some externals \<Rightarrow> map_option (Pair externals) (parse_scopes (length rest) rest)))"

section \<open>The bytes of the tree\<close>

definition devpath_ok :: "bytes \<Rightarrow> bool" where
  "devpath_ok name \<longleftrightarrow> parse_name name = Some (name, [])"

definition pkg :: "bytes \<Rightarrow> bytes" where
  "pkg body = aml_pkglength (of_nat (length body + pkg_width (length body))) @ body"

definition external_bytes :: "bytes \<Rightarrow> bytes" where
  "external_bytes name = [0x15] @ name @ [6, 0]"

definition hid_bytes :: "bytes \<Rightarrow> u16 \<Rightarrow> bytes" where
  "hid_bytes name k = [0x10] @ pkg (name @ [0x08] @ str ''_HID'' @ [0x0d] @ str ''DIXY'' @ hex4 k @ [0])"

definition sta_bytes :: "bytes \<Rightarrow> bytes" where
  "sta_bytes name = [0x10] @ pkg (name @ [0x08] @ str ''_STA'' @ [0])"

definition ssdt_body :: "bytes list \<Rightarrow> bytes list \<Rightarrow> bytes" where
  "ssdt_body missing offline =
     [0xa0] @ pkg ([0] @ concat (map external_bytes (missing @ offline)))
       @ concat (map2 hid_bytes missing (hid_indices missing)) @ concat (map sta_bytes offline)"

lemma devpath_ok_length: "devpath_ok name \<Longrightarrow> length name \<le> 1023"
proof -
  assume "devpath_ok name"
  then consider "10 \<le> length name" "drop 10 name = []" | "drop (3 + 4 * unat (name ! 2)) name = []"
    by (auto simp: devpath_ok_def parse_name_def split: if_splits)
  then show ?thesis
  proof cases
    case 2
    have "unat (name ! 2) < 2 ^ 8" using unsigned_less [of "name ! 2"] by simp
    with 2 show ?thesis by simp
  qed simp
qed

lemma parse_name_append: "devpath_ok name \<Longrightarrow> parse_name (name @ rest) = Some (name, rest)"
proof -
  assume ok: "devpath_ok name"
  then have n: "2 \<le> length name" and "take 2 name = [0x5c, 0x2e] \<and> length name = 10 \<or>
      take 2 name = [0x5c, 0x2f] \<and> length name = 3 + 4 * unat (name ! 2)"
    by (auto simp: devpath_ok_def parse_name_def split: if_splits)
  then show ?thesis by (auto simp: parse_name_def nth_append)
qed

lemma split_pkg_pkg:
  assumes "length body + 4 < 2 ^ 28"
  shows "split_pkg (pkg body @ rest) = Some (body, rest)"
proof -
  define n where "n = length body + pkg_width (length body)"
  define h where "h = aml_pkglength (of_nat n)"
  have w: "pkg_width (length body) \<le> 4" by (simp add: pkg_width_def)
  have h: "length h = pkg_width (length body)"
    using assms length_aml_pkglength [of "length body"] by (simp add: h_def n_def)
  have "unat (of_nat n :: u64) = n"
    using assms w by (intro unat_of_nat_u64) (simp add: n_def)
  then have "pkg_dec (h @ body @ rest) = Some (n mod 2 ^ 28, pkg_width (length body))"
    using h pkg_dec_aml_pkglength_mod [of "of_nat n"] by (simp add: h_def)
  moreover have "n mod 2 ^ 28 = n" using assms w by (simp add: n_def)
  moreover have "slice (length h) (length body) (h @ body @ rest) = body" by (simp add: slice_middle)
  ultimately show ?thesis
    using h by (simp add: split_pkg_def pkg_def h_def [symmetric] n_def [symmetric]) (simp add: n_def)
qed

lemma aml_enc_list_map:
  "(\<And>x. x \<in> set xs \<Longrightarrow> aml_enc (f x) = Some (g x)) \<Longrightarrow> aml_enc_list (map f xs) = Some (concat (map g xs))"
  by (induction xs) auto

lemma aml_enc_list_append:
  "aml_enc_list xs = Some x \<Longrightarrow> aml_enc_list ys = Some y \<Longrightarrow> aml_enc_list (xs @ ys) = Some (x @ y)"
  by (induction xs arbitrary: x) (auto split: option.splits)

lemmas enc_simps = aml_enc.simps(3) aml_opcode_defs

lemma aml_enc_external [simp]: "aml_enc (external_tree name) = Some (external_bytes name)"
  by (simp add: external_tree_def external_bytes_def enc_simps)

lemma aml_enc_hid [simp]: "aml_enc (hid_tree name k) = Some (hid_bytes name k)"
  by (simp add: hid_tree_def hid_bytes_def pkg_def enc_simps)

lemma aml_enc_sta [simp]: "aml_enc (sta_tree name) = Some (sta_bytes name)"
  by (simp add: sta_tree_def sta_bytes_def pkg_def enc_simps)

lemma aml_enc_ssdt_tree: "aml_enc (ssdt_tree missing offline) = Some (ssdt_body missing offline)"
proof -
  have "aml_enc_list (map external_tree names) = Some (concat (map external_bytes names))" for names
    by (rule aml_enc_list_map) simp
  moreover have "aml_enc_list (map2 hid_tree missing ks) = Some (concat (map2 hid_bytes missing ks))" for ks
    by (rule aml_enc_list_map) auto
  moreover have "aml_enc_list (map sta_tree offline) = Some (concat (map sta_bytes offline))"
    by (rule aml_enc_list_map) simp
  ultimately show ?thesis
    by (simp add: ssdt_tree_def ssdt_body_def pkg_def enc_simps aml_enc_list_append del: map_append)
qed

lemma parse_externals_bytes:
  "\<forall>name \<in> set names. devpath_ok name \<Longrightarrow> length (concat (map external_bytes names)) \<le> fuel \<Longrightarrow>
     parse_externals fuel (concat (map external_bytes names)) = Some names"
proof (induction names arbitrary: fuel)
  case (Cons name names)
  then obtain f where "fuel = Suc f" by (cases fuel) (auto simp: external_bytes_def)
  with Cons show ?case by (simp add: external_bytes_def parse_name_append)
qed simp

lemma parse_scope_body_hid:
  "devpath_ok name \<Longrightarrow> parse_scope_body (name @ [0x08] @ str ''_HID'' @ [0x0d] @ hid @ [0]) = Some (Set_HID name hid)"
  by (simp add: parse_scope_body_def parse_name_append str_def butlast_append)

lemma parse_scope_body_sta:
  "devpath_ok name \<Longrightarrow> parse_scope_body (name @ [0x08] @ str ''_STA'' @ [0]) = Some (Set_STA0 name)"
  by (simp add: parse_scope_body_def parse_name_append str_def)

lemma parse_scopes_step:
  assumes "parse_scope_body body = Some item" "length body < 2000" "length ([0x10] @ pkg body @ rest) \<le> fuel"
    and rest: "\<And>f. length rest \<le> f \<Longrightarrow> parse_scopes f rest = Some items"
  shows "parse_scopes fuel ([0x10] @ pkg body @ rest) = Some (item # items)"
proof -
  from assms(3) obtain f where f: "fuel = Suc f" "length rest \<le> f" by (cases fuel) auto
  have "split_pkg (pkg body @ rest) = Some (body, rest)"
    using assms(2) by (intro split_pkg_pkg) simp
  with f assms show ?thesis by simp
qed

lemma parse_sta_bytes:
  "\<forall>name \<in> set names. devpath_ok name \<Longrightarrow> length (concat (map sta_bytes names)) \<le> fuel \<Longrightarrow>
     parse_scopes fuel (concat (map sta_bytes names)) = Some (map Set_STA0 names)"
proof (induction names arbitrary: fuel)
  case (Cons name names)
  have "length name \<le> 1023" using Cons.prems devpath_ok_length by simp
  with Cons show ?case
    using parse_scopes_step [of "name @ [0x08] @ str ''_STA'' @ [0]" "Set_STA0 name" "concat (map sta_bytes names)" fuel
        "map Set_STA0 names"] parse_scope_body_sta [of name]
    by (simp add: sta_bytes_def [of name])
qed simp

definition hid_items :: "bytes list \<Rightarrow> scope_item list" where
  "hid_items missing = map2 (\<lambda>name k. Set_HID name (str ''DIXY'' @ hex4 k)) missing (hid_indices missing)"

lemma parse_hid_bytes:
  "\<forall>name \<in> set names. devpath_ok name \<Longrightarrow>
     (\<And>f. length rest \<le> f \<Longrightarrow> parse_scopes f rest = Some items) \<Longrightarrow>
     length (concat (map2 hid_bytes names ks) @ rest) \<le> fuel \<Longrightarrow>
     parse_scopes fuel (concat (map2 hid_bytes names ks) @ rest) =
       Some (map2 (\<lambda>name k. Set_HID name (str ''DIXY'' @ hex4 k)) names ks @ items)"
proof (induction names ks arbitrary: fuel rule: list_induct2')
  case (4 name names k ks)
  let ?body = "name @ [0x08] @ str ''_HID'' @ [0x0d] @ (str ''DIXY'' @ hex4 k) @ [0]"
  have ok: "devpath_ok name" using "4.prems"(1) by simp
  then have len: "length ?body < 2000" using devpath_ok_length [of name] by simp
  have eq: "concat (map2 hid_bytes (name # names) (k # ks)) @ rest =
      [0x10] @ pkg ?body @ (concat (map2 hid_bytes names ks) @ rest)"
    by (simp add: hid_bytes_def)
  show ?case
    unfolding eq
  proof (subst parse_scopes_step)
    show "parse_scope_body ?body = Some (Set_HID name (str ''DIXY'' @ hex4 k))"
      by (rule parse_scope_body_hid [OF ok])
    show "length ([0x10] @ pkg ?body @ (concat (map2 hid_bytes names ks) @ rest)) \<le> fuel"
      using "4.prems"(3) unfolding eq .
    show "parse_scopes f (concat (map2 hid_bytes names ks) @ rest) =
        Some (map2 (\<lambda>name k. Set_HID name (str ''DIXY'' @ hex4 k)) names ks @ items)"
      if "length (concat (map2 hid_bytes names ks) @ rest) \<le> f" for f
      using "4.IH" "4.prems"(1,2) that by simp
  qed (use len in simp_all)
qed simp_all

lemma externals_length:
  "\<forall>name \<in> set names. devpath_ok name \<Longrightarrow> length (concat (map external_bytes names)) \<le> 1026 * length names"
proof (induction names)
  case (Cons name names)
  then show ?case using devpath_ok_length [of name] by (simp add: external_bytes_def)
qed simp

lemma length_pkg: "length body + 4 < 2 ^ 28 \<Longrightarrow> length (pkg body) \<le> length body + 4"
  using length_aml_pkglength [of "length body"] by (simp add: pkg_def pkg_width_def)

lemma sta_length:
  "\<forall>name \<in> set names. devpath_ok name \<Longrightarrow> length (concat (map sta_bytes names)) \<le> 1034 * length names"
proof (induction names)
  case (Cons name names)
  then show ?case
    using devpath_ok_length [of name] length_pkg [of "name @ [0x08] @ str ''_STA'' @ [0]"]
    by (simp add: sta_bytes_def)
qed simp

lemma hid_length:
  "\<forall>name \<in> set names. devpath_ok name \<Longrightarrow> length (concat (map2 hid_bytes names ks)) \<le> 1043 * length names"
proof (induction names ks rule: list_induct2')
  case (4 name names k ks)
  then show ?case
    using devpath_ok_length [of name]
      length_pkg [of "name @ [0x08] @ str ''_HID'' @ [0x0d] @ (str ''DIXY'' @ hex4 k) @ [0]"]
    by (simp add: hid_bytes_def)
qed simp_all

lemma ssdt_body_length:
  assumes "\<forall>name \<in> set missing \<union> set offline. devpath_ok name" "length missing + length offline < 65535"
  shows "length ([0] @ concat (map external_bytes (missing @ offline))) + 4 < 2 ^ 28"
    and "length (ssdt_body missing offline) < 2 ^ 29"
proof -
  show 1: "length ([0] @ concat (map external_bytes (missing @ offline))) + 4 < 2 ^ 28"
    using externals_length [of "missing @ offline"] assms by simp
  have "length (concat (map sta_bytes offline)) \<le> 1034 * length offline" using sta_length assms(1) by simp
  moreover have "length (concat (map2 hid_bytes missing (hid_indices missing))) \<le> 1043 * length missing"
    using hid_length assms(1) by simp
  moreover have "length (pkg ([0] @ concat (map external_bytes (missing @ offline)))) \<le> 2 ^ 28"
    using 1 length_pkg [OF 1] by simp
  ultimately show "length (ssdt_body missing offline) < 2 ^ 29"
    using assms(2) by (simp add: ssdt_body_def)
qed

lemma ssdt_parse_body:
  assumes "\<forall>name \<in> set missing \<union> set offline. devpath_ok name" "length missing + length offline < 65535"
  shows "ssdt_parse (ssdt_body missing offline) = Some (missing @ offline, hid_items missing @ map Set_STA0 offline)"
proof -
  let ?ext = "[0] @ concat (map external_bytes (missing @ offline))"
  let ?rest = "concat (map2 hid_bytes missing (hid_indices missing)) @ concat (map sta_bytes offline)"
  have "split_pkg (pkg ?ext @ ?rest) = Some (?ext, ?rest)"
    by (rule split_pkg_pkg [OF ssdt_body_length(1) [OF assms]])
  moreover have "parse_externals (length ?ext) (drop 1 ?ext) = Some (missing @ offline)"
    using parse_externals_bytes [of "missing @ offline" "length ?ext"] assms(1) by simp
  moreover have "parse_scopes (length ?rest) ?rest = Some (hid_items missing @ map Set_STA0 offline)"
    unfolding hid_items_def using assms(1) by (intro parse_hid_bytes parse_sta_bytes) auto
  ultimately show ?thesis by (simp add: ssdt_parse_def ssdt_body_def)
qed

section \<open>The installed table\<close>

lemma header_ok_ssdt [simp]: "header_ok (ssdt_header n)"
  by (simp add: header_ok_def ssdt_header_def)

lemma ssdt_table_eq:
  assumes "\<forall>n. length (fresh n) = n" and "aml_enc root = Some body" and "length body < 2 ^ 32"
  shows "ssdt_table True fresh root = Some (header_bytes (ssdt_header (of_nat (length body))) @ body, 0)"
proof -
  let ?h = "header_bytes (ssdt_header (of_nat (length body)))"
  have size: "aml_node_size root = of_nat (length body)"
    using assms by (intro aml_size_correct) (auto simp: aml_size_limit_def)
  have "unat (of_nat 36 + of_nat (length body) :: u64) = 36 + length body"
    using assms(3) unat_of_nat_u64 [of "36 + length body"] by simp
  then obtain b where b: "fresh (unat (of_nat sizeof_acpi_header + aml_node_size root)) = b"
      "length b = 36 + length body"
    using assms(1) size by simp
  have len: "length ?h = 36" by (simp add: length_header_bytes)
  then have w: "buf_write b 0 ?h = Some (?h @ drop 36 b)"
    using b by (simp add: buf_write_def)
  have "aml_node_serialize (drop 36 b) 0 root = Some (body, 0)"
    using assms b aml_serialize_correct (1) [OF assms(2), of 0 "drop 36 b"]
    by (simp add: buf_write_def aml_size_limit_def)
  then show ?thesis
    using w len b by (simp add: ssdt_table_def Let_def size)
qed

end
