(* ===== verification/Hob.thy ===== *)
theory Hob imports Memory begin

text \<open>
  Model of \<open>hob.c\<close> and \<open>hob.h\<close>: finding the firmware's HOB list in the configuration table,
  walking it to the HiSilicon memory-map HOB, and collecting the base addresses of the DDR
  controllers that have an enabled DIMM. The walk is a \<open>partial_function\<close> (the C loop has no bound
  of its own): \<open>None\<close> is a walk that never returns. The lemmas give its result on every well-formed
  list, its divergence on a zero-length HOB, and the contents of the output array.
\<close>

unbundle bit_operations_syntax

section \<open>Layout of the memory-map data\<close>

definition hob_list_guid :: efi_guid where
  "hob_list_guid = \<lparr>Data1 = 0x7739f24c, Data2 = 0x93d7, Data3 = 0x11d4,
     Data4 = [0x9a, 0x3a, 0x0, 0x90, 0x27, 0x3f, 0xc1, 0x4d]\<rparr>"

definition hisi_memory_map_guid :: efi_guid where
  "hisi_memory_map_guid = \<lparr>Data1 = 0xf8870015, Data2 = 0x6994, Data3 = 0x4b98,
     Data4 = [0x95, 0xa2, 0xbd, 0x56, 0xda, 0x91, 0xc0, 0x7f]\<rparr>"

definition MAX_SOCKET :: nat where "MAX_SOCKET = 2"
definition MAX_CHANNEL :: nat where "MAX_CHANNEL = 8"
definition MAX_DIMM :: nat where "MAX_DIMM = 2"
definition MAX_RANK_DIMM :: nat where "MAX_RANK_DIMM = 4"

text \<open>The members of the structures as (size, alignment), in the order of the header.\<close>

definition DDR_DIMM_DATA_members :: "(nat \<times> nat) list" where
  "DDR_DIMM_DATA_members =
     [(1, 1), (1, 1), (1, 1), (1, 1), (1, 1), (1, 1), (1, 1), (1, 1), (1, 1), (1, 1),
      (18, 1), (20, 1), (2, 2), (4, 4), (4, 4), (2, 2), (2, 2), (2, 2), (MAX_RANK_DIMM, 1)]"

definition DDR_CHANNEL_DATA_members :: "(nat \<times> nat) list" where
  "DDR_CHANNEL_DATA_members =
     [(1, 1), (MAX_DIMM * c_sizeof DDR_DIMM_DATA_members, c_alignof DDR_DIMM_DATA_members), (1, 1)]"

definition GBL_INTERFACE_members :: "(nat \<times> nat) list" where
  "GBL_INTERFACE_members =
     [(MAX_SOCKET * MAX_CHANNEL * c_sizeof DDR_CHANNEL_DATA_members, c_alignof DDR_CHANNEL_DATA_members),
      (4, 4), (4, 4), (4, 4), (4, 4), (1, 1)]"

text \<open>The address of \<open>gbl->Channel[socket][ch].Dimm[dimm].Enabled\<close>.\<close>

definition dimm_enabled_addr :: "u64 \<Rightarrow> nat \<Rightarrow> nat \<Rightarrow> nat \<Rightarrow> u64" where
  "dimm_enabled_addr gbl socket ch dimm =
     gbl + of_nat (c_offsetof GBL_INTERFACE_members 0
       + (socket * MAX_CHANNEL + ch) * c_sizeof DDR_CHANNEL_DATA_members
       + c_offsetof DDR_CHANNEL_DATA_members 1
       + dimm * c_sizeof DDR_DIMM_DATA_members
       + c_offsetof DDR_DIMM_DATA_members 0)"

lemma hob_layout:
  "c_sizeof DDR_DIMM_DATA_members = 72" "c_sizeof DDR_CHANNEL_DATA_members = 152"
  "c_offsetof DDR_CHANNEL_DATA_members 1 = 4" "c_offsetof DDR_DIMM_DATA_members 0 = 0"
  "c_offsetof GBL_INTERFACE_members 0 = 0"
  by (simp_all add: c_sizeof_def c_offsetof_def c_alignof_def c_align_def Let_def
      DDR_DIMM_DATA_members_def DDR_CHANNEL_DATA_members_def GBL_INTERFACE_members_def
      MAX_DIMM_def MAX_RANK_DIMM_def)

lemma dimm_enabled_addr_eq:
  "dimm_enabled_addr gbl s c d = gbl + of_nat ((s * 8 + c) * 152 + 4 + d * 72)"
  by (simp only: dimm_enabled_addr_def hob_layout MAX_CHANNEL_def add_0_right add_0_left)

section \<open>Finding the HOB\<close>

definition EFI_HOB_TYPE_GUID_EXTENSION :: u16 where "EFI_HOB_TYPE_GUID_EXTENSION = 0x0004"

fun find_hob_list :: "config_entry list \<Rightarrow> u64" where
  "find_hob_list [] = 0"
| "find_hob_list (e # es) =
     (if VendorGuid e = guid_bytes hob_list_guid then VendorTable e else find_hob_list es)"

definition HobType :: "memory \<Rightarrow> u64 \<Rightarrow> u16" where "HobType m hob = load16 m hob"
definition HobLength :: "memory \<Rightarrow> u64 \<Rightarrow> u16" where "HobLength m hob = load16 m (hob + 2)"

definition is_memory_map_hob :: "memory \<Rightarrow> u64 \<Rightarrow> bool" where
  "is_memory_map_hob m hob \<longleftrightarrow>
     HobType m hob = EFI_HOB_TYPE_GUID_EXTENSION \<and>
     mem_bytes m (hob + 8) 16 = guid_bytes hisi_memory_map_guid"

text \<open>\<open>hob_walk\<close> gives \<open>gbl\<close>: the address after the matching HOB's header, or 0 (NULL).\<close>

partial_function (option) hob_walk :: "memory \<Rightarrow> u64 \<Rightarrow> u64 option" where
  "hob_walk m hob =
     (if HobType m hob = 0xFFFF then Some 0
      else if is_memory_map_hob m hob then Some (hob + 24)
      else hob_walk m (hob + ucast (HobLength m hob)))"

section \<open>Collecting the online controllers\<close>

definition channel_online :: "memory \<Rightarrow> u64 \<Rightarrow> nat \<Rightarrow> nat \<Rightarrow> bool" where
  "channel_online m gbl socket ch =
     list_ex (\<lambda>dimm. m (dimm_enabled_addr gbl socket ch dimm) \<noteq> 0) [0..<MAX_DIMM]"

text \<open>The \<open>switch\<close> on the socket; \<open>None\<close> is the call of \<open>abort\<close>.\<close>

definition socket_base :: "nat \<Rightarrow> u64 option" where
  "socket_base socket =
     (if socket = 0 then Some 0x94d20000
      else if socket = 1 then Some 0x9cd20000
      else if socket = 2 then Some 0x400094d20000
      else if socket = 3 then Some 0x40009cd20000
      else None)"

fun scan_channels :: "memory \<Rightarrow> u64 \<Rightarrow> (nat \<times> nat) list \<Rightarrow> u64 list \<Rightarrow> u64 list option" where
  "scan_channels m gbl [] out = Some out"
| "scan_channels m gbl ((socket, ch) # cs) out =
     (if channel_online m gbl socket ch then
        (case socket_base socket of
           None \<Rightarrow> None
         | Some base \<Rightarrow>
             scan_channels m gbl cs
               (out[socket * MAX_CHANNEL + ch := base + 0x10000 * of_nat ch]))
      else scan_channels m gbl cs out)"

definition all_channels :: "(nat \<times> nat) list" where
  "all_channels = concat (map (\<lambda>s. map (\<lambda>c. (s, c)) [0..<MAX_CHANNEL]) [0..<MAX_SOCKET])"

text \<open>
  The returned code and the array \<open>online_ddrcs_base\<close> afterwards; \<open>None\<close> when the call does not
  return.
\<close>

definition hob_get_online_ddrcs ::
  "memory \<Rightarrow> config_entry list \<Rightarrow> u64 list \<Rightarrow> (int \<times> u64 list) option" where
  "hob_get_online_ddrcs m config out =
     (let hobStart = find_hob_list config in
      if hobStart = 0 then Some (1, out)
      else
        (case hob_walk m hobStart of
           None \<Rightarrow> None
         | Some gbl \<Rightarrow>
             if gbl = 0 then Some (1, out)
             else map_option (\<lambda>out. (0, out)) (scan_channels m gbl all_channels out)))"

section \<open>The walk on well-formed and on broken lists\<close>

text \<open>\<open>hob_chain m a hs\<close>: the list that starts at \<open>a\<close> holds the HOBs at the addresses \<open>hs\<close> and
  then the end marker.\<close>

fun hob_chain :: "memory \<Rightarrow> u64 \<Rightarrow> u64 list \<Rightarrow> bool" where
  "hob_chain m a [] \<longleftrightarrow> HobType m a = 0xFFFF"
| "hob_chain m a (h # hs) \<longleftrightarrow>
     h = a \<and> HobType m a \<noteq> 0xFFFF \<and> hob_chain m (a + ucast (HobLength m a)) hs"

lemma hob_walk_chain:
  "hob_chain m a hs \<Longrightarrow>
     hob_walk m a = Some (case find (is_memory_map_hob m) hs of None \<Rightarrow> 0 | Some h \<Rightarrow> h + 24)"
  by (induction hs arbitrary: a) (simp_all add: hob_walk.simps)

text \<open>The \<open>k\<close>-th HOB that the walk looks at when none before ends it.\<close>

fun nth_hob :: "memory \<Rightarrow> u64 \<Rightarrow> nat \<Rightarrow> u64" where
  "nth_hob m a 0 = a"
| "nth_hob m a (Suc k) = nth_hob m (a + ucast (HobLength m a)) k"

definition hob_stops :: "memory \<Rightarrow> u64 \<Rightarrow> bool" where
  "hob_stops m a \<longleftrightarrow> HobType m a = 0xFFFF \<or> is_memory_map_hob m a"

lemma nth_hob_Suc: "nth_hob m a (Suc k) = nth_hob m a k + ucast (HobLength m (nth_hob m a k))"
  by (induction k arbitrary: a) simp_all

lemma nth_hob_stuck:
  assumes "HobLength m (nth_hob m a n) = 0" "n \<le> k"
  shows "nth_hob m a k = nth_hob m a n"
  using assms(2) by (induction k rule: dec_induct) (simp_all add: nth_hob_Suc assms(1) del: nth_hob.simps(2))

text \<open>The walk returns exactly when some HOB on its way ends it.\<close>

lemma hob_walk_stops: "hob_stops m (nth_hob m a k) \<Longrightarrow> hob_walk m a \<noteq> None"
proof (induction k arbitrary: a)
  case 0
  then show ?case using hob_walk.simps [of m a] by (auto simp: hob_stops_def)
next
  case (Suc k)
  then have "hob_walk m (a + ucast (HobLength m a)) \<noteq> None" by simp
  then show ?case using hob_walk.simps [of m a] by simp
qed

lemma hob_walk_returns: "hob_walk m a = Some r \<Longrightarrow> \<exists>k. hob_stops m (nth_hob m a k)"
proof (rule hob_walk.raw_induct [where P = "\<lambda>m a r. \<exists>k. hob_stops m (nth_hob m a k)"])
  fix walk :: "memory \<Rightarrow> u64 \<Rightarrow> u64 option" and m a r
  assume IH: "\<And>m a r. walk m a = Some r \<Longrightarrow> \<exists>k. hob_stops m (nth_hob m a k)"
    and eq: "(if HobType m a = 0xFFFF then Some 0 else if is_memory_map_hob m a then Some (a + 24)
      else walk m (a + ucast (HobLength m a))) = Some r"
  show "\<exists>k. hob_stops m (nth_hob m a k)"
  proof (cases "hob_stops m a")
    case True
    then show ?thesis by (intro exI [of _ 0]) simp
  next
    case False
    then have "walk m (a + ucast (HobLength m a)) = Some r" using eq by (simp add: hob_stops_def)
    then obtain k where "hob_stops m (nth_hob m (a + ucast (HobLength m a)) k)" using IH by blast
    then show ?thesis by (intro exI [of _ "Suc k"]) simp
  qed
qed

lemma hob_walk_None: "hob_walk m a = None \<longleftrightarrow> (\<forall>k. \<not> hob_stops m (nth_hob m a k))"
  using hob_walk_stops hob_walk_returns by (metis not_Some_eq)

lemma hob_walk_zero_length:
  assumes "\<forall>k \<le> n. \<not> hob_stops m (nth_hob m a k)" "HobLength m (nth_hob m a n) = 0"
  shows "hob_walk m a = None"
proof -
  have "\<not> hob_stops m (nth_hob m a k)" for k
    using assms nth_hob_stuck [OF assms(2), of k] by (cases "n \<le> k") auto
  then show ?thesis by (simp add: hob_walk_None)
qed

section \<open>The output array\<close>

lemma all_channels_product: "all_channels = List.product [0..<MAX_SOCKET] [0..<MAX_CHANNEL]"
  by (simp add: all_channels_def product_concat_map)

lemma distinct_all_channels: "distinct all_channels"
  by (simp add: all_channels_product distinct_product)

lemma set_all_channels: "set all_channels = {(s, c). s < MAX_SOCKET \<and> c < MAX_CHANNEL}"
  by (auto simp: all_channels_product)

lemma channel_index_inj:
  assumes "c < MAX_CHANNEL" "c' < MAX_CHANNEL"
  shows "s * MAX_CHANNEL + c = s' * MAX_CHANNEL + c' \<longleftrightarrow> s = s' \<and> c = c'"
proof
  assume eq: "s * MAX_CHANNEL + c = s' * MAX_CHANNEL + c'"
  have "(s * MAX_CHANNEL + c) div MAX_CHANNEL = s" "(s' * MAX_CHANNEL + c') div MAX_CHANNEL = s'"
    using assms by simp_all
  with eq have "s = s'" by simp
  with eq show "s = s' \<and> c = c'" by simp
qed simp

lemma in_set_rows:
  assumes "length xs = n * k" "0 < k"
  shows "x \<in> set xs \<longleftrightarrow> (\<exists>s < n. \<exists>c < k. xs ! (s * k + c) = x)"
proof
  assume "x \<in> set xs"
  then obtain i where i: "i < n * k" "xs ! i = x" using assms by (auto simp: in_set_conv_nth)
  then have "i div k < n" "i mod k < k" "xs ! (i div k * k + i mod k) = x"
    using assms by (simp_all add: less_mult_imp_div_less)
  then show "\<exists>s < n. \<exists>c < k. xs ! (s * k + c) = x" by blast
next
  assume "\<exists>s < n. \<exists>c < k. xs ! (s * k + c) = x"
  then obtain s c where sc: "s < n" "c < k" "xs ! (s * k + c) = x" by blast
  then have "s * k + c < Suc s * k" by simp
  also have "\<dots> \<le> n * k" using sc by (intro mult_le_mono1) simp
  finally show "x \<in> set xs" using sc assms by (auto simp: in_set_conv_nth)
qed

lemma scan_channels_total:
  "\<forall>(s, c) \<in> set cs. s < MAX_SOCKET \<Longrightarrow> \<exists>out'. scan_channels m gbl cs out = Some out' \<and> length out' = length out"
  by (induction m gbl cs out rule: scan_channels.induct) (auto simp: MAX_SOCKET_def socket_base_def)

definition ddrc_base :: "nat \<Rightarrow> nat \<Rightarrow> u64" where
  "ddrc_base s c = the (socket_base s) + 0x10000 * of_nat c"

lemma scan_channels_nth:
  assumes "scan_channels m gbl cs out = Some out'"
    and "\<forall>(s, c) \<in> set cs. s < MAX_SOCKET \<and> c < MAX_CHANNEL"
    and "s < MAX_SOCKET" "c < MAX_CHANNEL" "s * MAX_CHANNEL + c < length out"
  shows "out' ! (s * MAX_CHANNEL + c) =
    (if (s, c) \<in> set cs \<and> channel_online m gbl s c then ddrc_base s c else out ! (s * MAX_CHANNEL + c))"
  using assms
proof (induction m gbl cs out rule: scan_channels.induct)
  case (2 m gbl socket ch cs out)
  show ?case
  proof (cases "channel_online m gbl socket ch")
    case True
    with "2.prems" obtain base where base: "socket_base socket = Some base"
      by (auto split: option.splits)
    let ?out = "out[socket * MAX_CHANNEL + ch := base + 0x10000 * of_nat ch]"
    have "out' ! (s * MAX_CHANNEL + c) = (if (s, c) \<in> set cs \<and> channel_online m gbl s c
        then ddrc_base s c else ?out ! (s * MAX_CHANNEL + c))"
      using "2.IH"(1) [OF True base] "2.prems" True base by simp
    moreover have "?out ! (s * MAX_CHANNEL + c) =
        (if s = socket \<and> c = ch then ddrc_base s c else out ! (s * MAX_CHANNEL + c))"
      using "2.prems" base channel_index_inj [of c ch s socket]
      by (auto simp: nth_list_update ddrc_base_def)
    ultimately show ?thesis using True by auto
  next
    case False
    then show ?thesis using "2.IH"(2) "2.prems" by auto
  qed
qed auto

lemma ddrc_base_inj:
  assumes "s < MAX_SOCKET" "c < MAX_CHANNEL" "s' < MAX_SOCKET" "c' < MAX_CHANNEL"
  shows "ddrc_base s c = ddrc_base s' c' \<longleftrightarrow> s = s' \<and> c = c'" and "ddrc_base s c \<noteq> 0"
proof -
  have *: "unat (ddrc_base s c) = (if s = 0 then 0x94d20000 else 0x9cd20000) + 0x10000 * c"
    if "s < MAX_SOCKET" "c < MAX_CHANNEL" for s c
    using that
    by (auto simp: ddrc_base_def socket_base_def MAX_SOCKET_def MAX_CHANNEL_def unat_word_ariths)
  show "ddrc_base s c = ddrc_base s' c' \<longleftrightarrow> s = s' \<and> c = c'"
  proof
    assume "ddrc_base s c = ddrc_base s' c'"
    then have "(if s = 0 then 0x94d20000 else 0x9cd20000) + 0x10000 * c =
        (if s' = 0 then 0x94d20000 else 0x9cd20000) + (0x10000 :: nat) * c'"
      using assms * [of s c] * [of s' c'] by simp
    moreover have "c < 8" "c' < 8" "s < 2" "s' < 2"
      using assms by (simp_all add: MAX_SOCKET_def MAX_CHANNEL_def)
    ultimately show "s = s' \<and> c = c'"
      by (cases "s = 0"; cases "s' = 0") simp_all
  qed simp
  show "ddrc_base s c \<noteq> 0"
    using * [of s c] assms by (auto split: if_splits)
qed

section \<open>Properties\<close>

text \<open>
  C15. On a well-formed HOB list that holds the memory-map HOB, \<open>hob_get_online_ddrcs\<close> returns 0, and
  the entry of each socket and channel is the controller's base address when one of the channel's
  DIMMs is enabled and is left as it was otherwise.
\<close>

theorem hob_get_online_ddrcs_correct:
  assumes "find_hob_list config = a" "a \<noteq> 0" "hob_chain m a hs"
    and "find (is_memory_map_hob m) hs = Some h" "h + 24 \<noteq> 0"
    and "length out = MAX_SOCKET * MAX_CHANNEL"
  shows "\<exists>out'. hob_get_online_ddrcs m config out = Some (0, out') \<and> length out' = length out \<and>
    (\<forall>s < MAX_SOCKET. \<forall>c < MAX_CHANNEL. out' ! (s * MAX_CHANNEL + c) =
       (if channel_online m (h + 24) s c then ddrc_base s c else out ! (s * MAX_CHANNEL + c)))"
proof -
  obtain out' where out': "scan_channels m (h + 24) all_channels out = Some out'" "length out' = length out"
    using scan_channels_total [of all_channels m "h + 24" out] by (auto simp: set_all_channels)
  have "out' ! (s * MAX_CHANNEL + c) =
      (if channel_online m (h + 24) s c then ddrc_base s c else out ! (s * MAX_CHANNEL + c))"
    if "s < MAX_SOCKET" "c < MAX_CHANNEL" for s c
    using scan_channels_nth [OF out'(1), of s c] that assms(6)
    by (auto simp: set_all_channels MAX_SOCKET_def MAX_CHANNEL_def)
  then show ?thesis
    using assms out' by (simp add: hob_get_online_ddrcs_def Let_def hob_walk_chain)
qed

text \<open>
  A small memory for the witnesses: a hand-off HOB, the memory-map HOB with DIMM 0 of socket 0
  channel 0 and DIMM 1 of socket 1 channel 7 enabled, and the end marker.
\<close>

definition hob_example :: memory where
  "hob_example =
     mem_write (mem_write (mem_write (mem_write (mem_write (\<lambda>_. 0)
       0x1000 (le16 1 @ le16 16))
       0x1010 (le16 4 @ le16 2456 @ le32 0 @ guid_bytes hisi_memory_map_guid))
       0x102c [1])
       (0x1028 + 2356) [1])
       0x19a8 [0xff, 0xff]"

lemmas hob_eval = hob_example_def mem_eval guid_bytes_def hisi_memory_map_guid_def HobType_def
  HobLength_def is_memory_map_hob_def EFI_HOB_TYPE_GUID_EXTENSION_def

lemma hob_example_chain: "hob_chain hob_example 0x1000 [0x1000, 0x1010]"
  by (simp add: hob_eval)

lemma hob_example_find: "find (is_memory_map_hob hob_example) [0x1000, 0x1010] = Some 0x1010"
  by (simp add: hob_eval)

lemma hob_example_online:
  "channel_online hob_example 0x1028 0 0" "channel_online hob_example 0x1028 1 7"
  "\<not> channel_online hob_example 0x1028 1 6"
  by (simp_all add: channel_online_def dimm_enabled_addr_eq hob_eval MAX_DIMM_def)

definition hob_example_config :: "config_entry list" where
  "hob_example_config =
     [\<lparr>VendorGuid = guid_bytes hisi_memory_map_guid, VendorTable = 0x500\<rparr>,
      \<lparr>VendorGuid = guid_bytes hob_list_guid, VendorTable = 0x1000\<rparr>]"

lemma hob_example_config: "find_hob_list hob_example_config = 0x1000"
  by (simp add: hob_example_config_def guid_bytes_def hob_list_guid_def hisi_memory_map_guid_def
      le_bytes_def upt_conv_Cons)

theorem hob_get_online_ddrcs_correct_witness:
  "\<exists>out. hob_get_online_ddrcs hob_example hob_example_config (replicate 16 0) = Some (0, out) \<and>
     out ! 0 = 0x94d20000 \<and> out ! 15 = 0x9cd90000 \<and> out ! 14 = 0"
proof -
  obtain out where out: "hob_get_online_ddrcs hob_example hob_example_config (replicate 16 0) = Some (0, out)"
    and nth: "\<forall>s < MAX_SOCKET. \<forall>c < MAX_CHANNEL. out ! (s * MAX_CHANNEL + c) =
       (if channel_online hob_example 0x1028 s c then ddrc_base s c
        else replicate 16 0 ! (s * MAX_CHANNEL + c))"
    using hob_get_online_ddrcs_correct [OF hob_example_config _ hob_example_chain hob_example_find,
        of "replicate 16 0"]
    by (auto simp: MAX_SOCKET_def MAX_CHANNEL_def)
  have "out ! 0 = 0x94d20000" "out ! 15 = 0x9cd90000" "out ! 14 = 0"
    using nth [rule_format, of 0 0] nth [rule_format, of 1 7] nth [rule_format, of 1 6] hob_example_online
    by (simp_all add: MAX_SOCKET_def MAX_CHANNEL_def ddrc_base_def socket_base_def)
  with out show ?thesis by blast
qed

text \<open>
  The array describes the online controllers exactly: started from zeros, a non-zero address is
  in it if and only if it is the base of a channel with an enabled DIMM, the addresses of different
  channels differ and none of them is zero. A failed search leaves it all zeros and returns 1.
\<close>

theorem online_ddrcs_exact:
  assumes "find_hob_list config = a" "a \<noteq> 0 \<longrightarrow> hob_chain m a hs" "x \<noteq> 0"
    and "\<forall>h \<in> set hs. h + 24 \<noteq> 0"
    and "hob_get_online_ddrcs m config (replicate (MAX_SOCKET * MAX_CHANNEL) 0) = Some (ret, out)"
  shows "(ret = 1 \<and> x \<notin> set out \<and> (a = 0 \<or> find (is_memory_map_hob m) hs = None)) \<or>
    (ret = 0 \<and> (\<exists>h. find (is_memory_map_hob m) hs = Some h \<and>
       (x \<in> set out \<longleftrightarrow> (\<exists>s < MAX_SOCKET. \<exists>c < MAX_CHANNEL. channel_online m (h + 24) s c \<and> x = ddrc_base s c))))"
proof (cases "a = 0 \<or> find (is_memory_map_hob m) hs = None")
  case True
  then have "a \<noteq> 0 \<Longrightarrow> hob_walk m a = Some 0"
    using assms(2) by (simp add: hob_walk_chain)
  with assms(1,5) have "ret = 1 \<and> out = replicate (MAX_SOCKET * MAX_CHANNEL) 0"
    by (auto simp: hob_get_online_ddrcs_def Let_def split: if_splits)
  with True assms(3) show ?thesis by auto
next
  case False
  then obtain h where h: "find (is_memory_map_hob m) hs = Some h" "a \<noteq> 0" by auto
  then have "h \<in> set hs" by (auto simp: find_Some_iff)
  with assms(4) have "h + 24 \<noteq> 0" by blast
  with h assms have scan: "ret = 0"
    "scan_channels m (h + 24) all_channels (replicate (MAX_SOCKET * MAX_CHANNEL) 0) = Some out"
    by (auto simp: hob_get_online_ddrcs_def Let_def hob_walk_chain)
  have len: "length out = MAX_SOCKET * MAX_CHANNEL"
    using scan_channels_total [of all_channels m "h + 24" "replicate (MAX_SOCKET * MAX_CHANNEL) 0"] scan
    by (auto simp: set_all_channels)
  have nth: "out ! (s * MAX_CHANNEL + c) = (if channel_online m (h + 24) s c then ddrc_base s c else 0)"
    if "s < MAX_SOCKET" "c < MAX_CHANNEL" for s c
    using scan_channels_nth [OF scan(2), of s c] that
    by (auto simp: set_all_channels MAX_SOCKET_def MAX_CHANNEL_def)
  then have hit: "out ! (s * MAX_CHANNEL + c) = x \<longleftrightarrow> channel_online m (h + 24) s c \<and> x = ddrc_base s c"
    if "s < MAX_SOCKET" "c < MAX_CHANNEL" for s c
    using that assms(3) by auto
  have "x \<in> set out \<longleftrightarrow> (\<exists>s < MAX_SOCKET. \<exists>c < MAX_CHANNEL. out ! (s * MAX_CHANNEL + c) = x)"
    by (rule in_set_rows) (simp_all add: len MAX_CHANNEL_def)
  also have "\<dots> \<longleftrightarrow> (\<exists>s < MAX_SOCKET. \<exists>c < MAX_CHANNEL. channel_online m (h + 24) s c \<and> x = ddrc_base s c)"
    using hit by blast
  finally show ?thesis using h scan by blast
qed

theorem online_ddrcs_exact_witness:
  "\<exists>out. hob_get_online_ddrcs hob_example hob_example_config (replicate (MAX_SOCKET * MAX_CHANNEL) 0)
     = Some (0, out) \<and> 0x9cd90000 \<in> set out"
proof -
  obtain ret out where run: "hob_get_online_ddrcs hob_example hob_example_config
      (replicate (MAX_SOCKET * MAX_CHANNEL) 0) = Some (ret, out)"
    using scan_channels_total [of all_channels hob_example "0x1028" "replicate (MAX_SOCKET * MAX_CHANNEL) 0"]
      hob_walk_chain [OF hob_example_chain] hob_example_find
    by (auto simp: hob_get_online_ddrcs_def hob_example_config set_all_channels)
  have "0x9cd90000 = ddrc_base 1 7" by (simp add: ddrc_base_def socket_base_def)
  then show ?thesis
    using online_ddrcs_exact [OF hob_example_config _ _ _ run, where hs = "[0x1000, 0x1010]" and x = "0x9cd90000"]
      hob_example_chain hob_example_find hob_example_online run
    by (fastforce simp: MAX_SOCKET_def MAX_CHANNEL_def)
qed

text \<open>
  C16. The walk has no protection against a broken list. With the caller's array of one entry per channel, it runs
  forever exactly when no HOB that it comes to is the end marker or the memory-map HOB; so a HOB of length 0 that it comes to before one of these, wherever it lies in
  the list, makes \<open>hob_get_online_ddrcs\<close> run forever (one behind the memory-map HOB does not).
\<close>

theorem hob_zero_length_hangs:
  assumes "find_hob_list config = a" "a \<noteq> 0"
  shows "((\<forall>k \<le> n. \<not> hob_stops m (nth_hob m a k)) \<and> HobLength m (nth_hob m a n) = 0 \<longrightarrow>
      hob_get_online_ddrcs m config out = None)
    \<and> (length out = MAX_SOCKET * MAX_CHANNEL \<longrightarrow>
        (hob_get_online_ddrcs m config out = None \<longleftrightarrow> (\<forall>k. \<not> hob_stops m (nth_hob m a k))))"
proof -
  have hangs: "hob_get_online_ddrcs m config out = None" if "hob_walk m a = None"
    using assms that by (simp add: hob_get_online_ddrcs_def Let_def)
  have ends: "hob_walk m a = None" if none: "hob_get_online_ddrcs m config out = None" and len: "length out = MAX_SOCKET * MAX_CHANNEL"
  proof (cases "hob_walk m a")
    case (Some gbl)
    obtain out' where "scan_channels m gbl all_channels out = Some out'"
      using scan_channels_total [of all_channels m gbl out] len by (auto simp: set_all_channels)
    then show ?thesis using assms none Some by (simp add: hob_get_online_ddrcs_def Let_def split: if_splits)
  qed
  have "hob_get_online_ddrcs m config out = None \<longleftrightarrow> (\<forall>k. \<not> hob_stops m (nth_hob m a k))"
    if "length out = MAX_SOCKET * MAX_CHANNEL"
    unfolding hob_walk_None [symmetric] using hangs ends that by blast
  moreover have "hob_get_online_ddrcs m config out = None"
    if "\<forall>k \<le> n. \<not> hob_stops m (nth_hob m a k)" "HobLength m (nth_hob m a n) = 0"
    by (rule hangs [OF hob_walk_zero_length [OF that]])
  ultimately show ?thesis by blast
qed

text \<open>The list of \<open>hob_example\<close> with a HOB of length 0 in the second place.\<close>

theorem hob_zero_length_hangs_witness:
  "hob_get_online_ddrcs (\<lambda>a. if a = 0x1002 then 16 else 0) hob_example_config (replicate 16 0) = None"
proof -
  let ?m = "\<lambda>a :: u64. if a = 0x1002 then 16 else 0 :: u8"
  have "HobLength ?m 0x1000 = 16" "HobLength ?m 0x1010 = 0" "\<not> hob_stops ?m 0x1000" "\<not> hob_stops ?m 0x1010"
    by (simp_all add: hob_stops_def hob_eval)
  then have "nth_hob ?m 0x1000 1 = 0x1010" "\<forall>k \<le> 1. \<not> hob_stops ?m (nth_hob ?m 0x1000 k)"
    by (auto simp: le_Suc_eq)
  then show ?thesis
    using hob_zero_length_hangs [OF hob_example_config, where n = 1 and m = ?m and out = "replicate 16 0"]
      \<open>HobLength ?m 0x1010 = 0\<close> by simp
qed

end
