(* ===== verification/DsdtFix.thy ===== *)
theory DsdtFix imports SsdtTree Hob "HOL-Library.Sublist" begin

text \<open>
  Model of \<open>dsdt_fix.c\<close>: the walk over the ACPI namespace that records the devices without an
  identification and the offline DDR controllers, and the SSDT that \<open>fix_dsdt\<close> builds from the two
  lists and installs. uACPI (a git submodule) is a parameter: the record \<open>uacpi_env\<close> holds what its
  calls answer. The lemmas characterise the two lists, and a reader of the AML subset involved
  (\<open>ssdt_parse\<close>) recovers them from the installed table.
\<close>

unbundle bit_operations_syntax

section \<open>What uACPI answers\<close>

text \<open>
  \<open>ns_info\<close>: \<open>uacpi_get_namespace_node_info\<close>, \<open>None\<close> for a status other than OK; \<open>ns_depth\<close>,
  \<open>ns_name\<close> (four bytes), \<open>ns_parent\<close>: the accessors of a node; \<open>ns_sta\<close>: the value
  \<open>uacpi_eval_sta\<close> gives, \<open>None\<close> when it fails; \<open>ns_crs\<close>: the resources
  \<open>uacpi_for_each_device_resource\<close> offers to its callback in order, \<open>None\<close> when it fails;
  \<open>stack_addr\<close>: what the uninitialised local \<open>addr\<close> holds in the call for that node.
\<close>

record node_info =
  info_has_hid :: bool
  info_has_adr :: bool
  info_hid :: string

datatype uacpi_resource = RES_ADDRESS64 u64 | RES_OTHER

record 'n uacpi_env =
  ns_info :: "'n \<Rightarrow> node_info option"
  ns_depth :: "'n \<Rightarrow> u64"
  ns_name :: "'n \<Rightarrow> bytes"
  ns_parent :: "'n \<Rightarrow> 'n"
  ns_sta :: "'n \<Rightarrow> u32 option"
  ns_crs :: "'n \<Rightarrow> uacpi_resource list option"
  stack_addr :: "'n \<Rightarrow> u64"

datatype iteration_decision = ITERATION_CONTINUE | ITERATION_BREAK

section \<open>Recording a device path\<close>

text \<open>
  The \<open>devpath_list\<close> is the list of the names it links; \<open>alloc_ok k\<close> is the outcome of the
  \<open>k\<close>-th \<open>malloc\<close> of the run and \<open>allocs\<close> counts them.
\<close>

record dsdt_walker_data =
  missing_hids :: "bytes list"
  offline_ddrcs :: "bytes list"
  online_ddrcs_base :: "u64 list"
  allocs :: nat

definition devpath_name :: "bytes list \<Rightarrow> u8 \<Rightarrow> bytes" where
  "devpath_name names depth =
     (if depth = 2 then [0x5c, 0x2e] @ take 8 (concat names)
      else [0x5c, 0x2f, depth] @ take (4 * unat depth) (concat names))"

definition devpath_list_append_uacpi_object_names ::
  "(nat \<Rightarrow> bool) \<Rightarrow> nat \<Rightarrow> bytes list \<Rightarrow> bytes list \<Rightarrow> u8 \<Rightarrow> bytes list \<times> nat" where
  "devpath_list_append_uacpi_object_names alloc_ok k lst names depth =
     (if \<not> alloc_ok k then (lst, k + 1)
      else if \<not> alloc_ok (k + 1) then (lst, k + 2)
      else (lst @ [devpath_name names depth], k + 2))"

section \<open>The namespace walk\<close>

definition crs_callback :: "u64 \<Rightarrow> uacpi_resource \<Rightarrow> u64 \<times> iteration_decision" where
  "crs_callback base res =
     (case res of
        RES_ADDRESS64 minimum \<Rightarrow> (minimum, ITERATION_BREAK)
      | RES_OTHER \<Rightarrow> (base, ITERATION_CONTINUE))"

fun for_each_resource ::
  "(u64 \<Rightarrow> uacpi_resource \<Rightarrow> u64 \<times> iteration_decision) \<Rightarrow> u64 \<Rightarrow> uacpi_resource list \<Rightarrow> u64" where
  "for_each_resource cb user [] = user"
| "for_each_resource cb user (r # rs) =
     (case cb user r of
        (user, ITERATION_BREAK) \<Rightarrow> user
      | (user, ITERATION_CONTINUE) \<Rightarrow> for_each_resource cb user rs)"

text \<open>The loop that fills \<open>names[0..depth-1]\<close> from the node up to the root.\<close>

fun fill_names :: "'n uacpi_env \<Rightarrow> 'n \<Rightarrow> nat \<Rightarrow> bytes list \<Rightarrow> bytes list" where
  "fill_names env cur 0 names = names"
| "fill_names env cur (Suc i) names = fill_names env (ns_parent env cur) i (names[i := ns_name env cur])"

text \<open>
  One call of the walker (it always returns CONTINUE). \<open>None\<close>: the node's info could not be had, and
  the code goes on to test and free the uninitialised pointer \<open>info\<close>.
\<close>

definition record_missing :: "(nat \<Rightarrow> bool) \<Rightarrow> bytes list \<Rightarrow> u8 \<Rightarrow> dsdt_walker_data \<Rightarrow> dsdt_walker_data" where
  "record_missing alloc_ok names depth data =
     (let (lst, k) = devpath_list_append_uacpi_object_names alloc_ok (allocs data) (missing_hids data) names depth
      in data\<lparr>missing_hids := lst, allocs := k\<rparr>)"

definition record_offline :: "(nat \<Rightarrow> bool) \<Rightarrow> bytes list \<Rightarrow> u8 \<Rightarrow> dsdt_walker_data \<Rightarrow> dsdt_walker_data" where
  "record_offline alloc_ok names depth data =
     (let (lst, k) = devpath_list_append_uacpi_object_names alloc_ok (allocs data) (offline_ddrcs data) names depth
      in data\<lparr>offline_ddrcs := lst, allocs := k\<rparr>)"

definition dsdt_walker ::
  "'n uacpi_env \<Rightarrow> (nat \<Rightarrow> bool) \<Rightarrow> dsdt_walker_data \<Rightarrow> 'n \<Rightarrow> dsdt_walker_data option" where
  "dsdt_walker env alloc_ok data node =
     (case ns_info env node of
        None \<Rightarrow> None
      | Some info \<Rightarrow>
          let depth = ns_depth env node in
          if depth < 2 \<or> depth > 255 then Some data
          else
            let names = fill_names env node (unat depth) (replicate 256 (replicate 4 0));
                data = (if \<not> info_has_hid info \<and> \<not> info_has_adr info
                        then record_missing alloc_ok names (ucast depth) data else data)
            in
            if info_has_hid info then
              if ns_sta env node = Some 0 then Some data
              else if info_hid info = ''HISI0233'' then
                (case ns_crs env node of
                   None \<Rightarrow> Some data
                 | Some resources \<Rightarrow>
                     let addr = for_each_resource crs_callback (stack_addr env node) resources in
                     if list_ex (\<lambda>base. base \<noteq> 0 \<and> base = addr) (online_ddrcs_base data) then Some data
                     else Some (record_offline alloc_ok names (ucast depth) data))
              else Some data
            else Some data)"

text \<open>\<open>uacpi_namespace_for_each_child\<close> calls the walker on the devices in order.\<close>

fun walk_devices ::
  "'n uacpi_env \<Rightarrow> (nat \<Rightarrow> bool) \<Rightarrow> dsdt_walker_data \<Rightarrow> 'n list \<Rightarrow> dsdt_walker_data option" where
  "walk_devices env alloc_ok data [] = Some data"
| "walk_devices env alloc_ok data (n # ns) =
     (case dsdt_walker env alloc_ok data n of
        None \<Rightarrow> None
      | Some data \<Rightarrow> walk_devices env alloc_ok data ns)"

section \<open>The whole fix\<close>

text \<open>
  The returned code and the tables passed to \<open>InstallAcpiTable\<close>. \<open>midr\<close> is the CPU's
  \<open>MIDR_EL1\<close>, \<open>init_ok\<close> and \<open>load_ok\<close> whether \<open>uacpi_initialize\<close> and
  \<open>uacpi_namespace_load\<close> return OK, \<open>install_ok\<close> whether the firmware accepts a table.
\<close>

record 'n fix_env =
  fix_midr :: u64
  fix_memory :: memory
  fix_config :: "config_entry list"
  fix_uacpi :: "'n uacpi_env"
  fix_devices :: "'n list"
  init_ok :: bool
  load_ok :: bool
  fix_alloc_ok :: "nat \<Rightarrow> bool"
  fix_fresh :: "nat \<Rightarrow> bytes"
  fix_junk :: u8
  install_ok :: "bytes \<Rightarrow> bool"

definition online_ddrcs :: "'n fix_env \<Rightarrow> u64 list option" where
  "online_ddrcs env =
     (let zeros = replicate (MAX_SOCKET * MAX_CHANNEL) 0 in
      if fix_midr env AND 0xFFFFFFFF = 0x481fd010
      then map_option snd (hob_get_online_ddrcs (fix_memory env) (fix_config env) zeros)
      else Some zeros)"

definition install_ssdt :: "'n fix_env \<Rightarrow> nat \<Rightarrow> bytes list \<Rightarrow> bytes list \<Rightarrow> (int \<times> bytes list) option" where
  "install_ssdt env k missing offline =
     (case ssdt_root (fix_alloc_ok env) k (fix_junk env) missing offline of
        None \<Rightarrow> None
      | Some (root, k) \<Rightarrow>
          (case ssdt_table (fix_alloc_ok env k) (fix_fresh env) root of
             None \<Rightarrow> None
           | Some (ssdt_buffer, ret) \<Rightarrow>
               if ret < 0 then Some (1, [])
               else if \<not> install_ok env ssdt_buffer then Some (1, [ssdt_buffer])
               else Some (0, [ssdt_buffer])))"

definition fix_dsdt :: "'n fix_env \<Rightarrow> (int \<times> bytes list) option" where
  "fix_dsdt env =
     (case online_ddrcs env of
        None \<Rightarrow> None
      | Some online \<Rightarrow>
          if \<not> init_ok env then Some (1, [])
          else if \<not> load_ok env then Some (1, [])
          else
            (case walk_devices (fix_uacpi env) (fix_alloc_ok env)
                \<lparr>missing_hids = [], offline_ddrcs = [], online_ddrcs_base = online, allocs = 0\<rparr>
                (fix_devices env) of
               None \<Rightarrow> None
             | Some data \<Rightarrow>
                 if missing_hids data \<noteq> [] \<or> offline_ddrcs data \<noteq> []
                 then install_ssdt env (allocs data) (missing_hids data) (offline_ddrcs data)
                 else Some (0, [])))"

section \<open>The installed table\<close>

definition ssdt_for :: "bytes list \<Rightarrow> bytes list \<Rightarrow> bytes" where
  "ssdt_for missing offline =
     header_bytes (ssdt_header (of_nat (length (ssdt_body missing offline)))) @ ssdt_body missing offline"

lemma install_ssdt_eq:
  assumes "\<forall>k. fix_alloc_ok env k" "\<forall>name \<in> set missing \<union> set offline. devpath_ok name"
    and "length missing + length offline < 65535" "\<forall>n. length (fix_fresh env n) = n"
  shows "install_ssdt env k missing offline =
    Some (if install_ok env (ssdt_for missing offline) then 0 else 1, [ssdt_for missing offline])"
proof -
  have "\<forall>name \<in> set missing \<union> set offline. length name < 65536"
    using assms(2) devpath_ok_length by fastforce
  note root = ssdt_root_eq [OF assms(1) this assms(3)]
  have "ssdt_table True (fix_fresh env) (ssdt_tree missing offline) = Some (ssdt_for missing offline, 0)"
    using ssdt_body_length(2) [OF assms(2,3)] assms(4)
    by (simp add: ssdt_for_def ssdt_table_eq aml_enc_ssdt_tree)
  then show ?thesis using assms(1) by (simp add: install_ssdt_def root)
qed

lemma ssdt_for_header:
  assumes "\<forall>name \<in> set missing \<union> set offline. devpath_ok name" "length missing + length offline < 65535"
  shows "table_signature (ssdt_for missing offline) = 0x54445353"
    and "unat (table_length (ssdt_for missing offline)) = length (ssdt_for missing offline)"
    and "table_oem_id (ssdt_for missing offline) = str ''DIXYES''"
    and "drop 36 (ssdt_for missing offline) = ssdt_body missing offline"
proof -
  let ?body = "ssdt_body missing offline"
  show "table_signature (ssdt_for missing offline) = 0x54445353"
    by (simp add: ssdt_for_def ssdt_header_def)
  show "table_oem_id (ssdt_for missing offline) = str ''DIXYES''"
    by (simp add: ssdt_for_def) (simp add: ssdt_header_def)
  show "drop 36 (ssdt_for missing offline) = ?body"
    by (simp only: ssdt_for_def table_body_header [OF header_ok_ssdt])
  have "unat (ucast (of_nat 36 + of_nat (length ?body) :: u64) :: u32) = 36 + length ?body"
    using ssdt_body_length(2) [OF assms] unat_of_nat_u64 [of "36 + length ?body"]
    by (simp add: unsigned_ucast_eq take_bit_nat_eq_self)
  then show "unat (table_length (ssdt_for missing offline)) = length (ssdt_for missing offline)"
    by (simp add: ssdt_for_def length_header_bytes) (simp add: ssdt_header_def)
qed

section \<open>What the walk collects\<close>

text \<open>The names from the root's child down to the node.\<close>

fun path_up :: "'n uacpi_env \<Rightarrow> 'n \<Rightarrow> nat \<Rightarrow> bytes list" where
  "path_up env node 0 = []"
| "path_up env node (Suc n) = path_up env (ns_parent env node) n @ [ns_name env node]"

definition device_name :: "'n uacpi_env \<Rightarrow> 'n \<Rightarrow> bytes" where
  "device_name env node =
     (let d = unat (ns_depth env node); segs = concat (path_up env node d)
      in if d = 2 then [0x5c, 0x2e] @ segs else [0x5c, 0x2f, of_nat d] @ segs)"

definition in_depth :: "'n uacpi_env \<Rightarrow> 'n \<Rightarrow> bool" where
  "in_depth env node \<longleftrightarrow> 2 \<le> unat (ns_depth env node) \<and> unat (ns_depth env node) \<le> 255"

definition is_missing :: "'n uacpi_env \<Rightarrow> 'n \<Rightarrow> bool" where
  "is_missing env node \<longleftrightarrow> in_depth env node \<and>
     (case ns_info env node of Some info \<Rightarrow> \<not> info_has_hid info \<and> \<not> info_has_adr info | None \<Rightarrow> False)"

fun first_address64 :: "uacpi_resource list \<Rightarrow> u64 option" where
  "first_address64 [] = None"
| "first_address64 (RES_ADDRESS64 a # rs) = Some a"
| "first_address64 (RES_OTHER # rs) = first_address64 rs"

definition is_offline :: "'n uacpi_env \<Rightarrow> u64 list \<Rightarrow> 'n \<Rightarrow> bool" where
  "is_offline env online node \<longleftrightarrow> in_depth env node \<and> ns_sta env node \<noteq> Some 0 \<and>
     (case (ns_info env node, ns_crs env node) of
        (Some info, Some rs) \<Rightarrow>
          info_has_hid info \<and> info_hid info = ''HISI0233'' \<and>
          case_option (stack_addr env node) id (first_address64 rs) \<notin> set online - {0}
      | _ \<Rightarrow> False)"

lemma for_each_resource_crs:
  "for_each_resource crs_callback addr rs = case_option addr id (first_address64 rs)"
  by (induction rs rule: first_address64.induct) (simp_all add: crs_callback_def)

lemma length_fill_names [simp]: "length (fill_names env cur n names) = length names"
  by (induction n arbitrary: cur names) simp_all

lemma fill_names_above: "n \<le> i \<Longrightarrow> fill_names env cur n names ! i = names ! i"
  by (induction n arbitrary: cur names) simp_all

lemma take_fill_names: "n \<le> length names \<Longrightarrow> take n (fill_names env cur n names) = path_up env cur n"
proof (induction n arbitrary: cur names)
  case (Suc n)
  then show ?case
    using fill_names_above [of n n env "ns_parent env cur" "names[n := ns_name env cur]"]
    by (simp add: take_Suc_conv_app_nth)
qed simp

lemma length_path_up [simp]: "length (path_up env node n) = n"
  by (induction n arbitrary: node) simp_all

lemma concat_take_4:
  "\<forall>x \<in> set xs. length x = 4 \<Longrightarrow> take (4 * n) (concat xs) = concat (take n xs)"
proof (induction xs arbitrary: n)
  case (Cons x xs)
  then show ?case by (cases n) simp_all
qed simp

lemma names_len4:
  assumes "\<forall>n. length (ns_name env n) = 4"
  shows "\<forall>x \<in> set names. length x = 4 \<Longrightarrow> \<forall>x \<in> set (fill_names env cur n names). length x = 4"
    and "\<forall>x \<in> set (path_up env cur n). length x = 4"
proof -
  show "\<forall>x \<in> set names. length x = 4 \<Longrightarrow> \<forall>x \<in> set (fill_names env cur n names). length x = 4"
  proof (induction n arbitrary: cur names)
    case (Suc n)
    have "\<forall>x \<in> set (names[n := ns_name env cur]). length x = 4"
      using Suc.prems assms set_update_subset_insert by fastforce
    from Suc.IH [OF this] show ?case by simp
  qed simp
  show "\<forall>x \<in> set (path_up env cur n). length x = 4"
    using assms by (induction n arbitrary: cur) auto
qed

lemma devpath_name_fill_names:
  assumes "\<forall>n. length (ns_name env n) = 4" "in_depth env node"
  shows "devpath_name (fill_names env node (unat (ns_depth env node)) (replicate 256 (replicate 4 0)))
      (ucast (ns_depth env node)) = device_name env node"
proof -
  let ?d = "unat (ns_depth env node)"
  let ?names = "fill_names env node ?d (replicate 256 (replicate 4 0))"
  have d: "2 \<le> ?d" "?d \<le> 255" using assms(2) by (simp_all add: in_depth_def)
  have ud: "unat (ucast (ns_depth env node) :: u8) = ?d" using d by (simp add: unat_ucast_u8)
  have "(ucast (ns_depth env node) :: u8) = of_nat ?d" by simp
  moreover have "(ucast (ns_depth env node) :: u8) = 2 \<longleftrightarrow> ?d = 2"
    using ud by (simp add: word_unat_eq_iff)
  moreover have "take (4 * ?d) (concat ?names) = concat (path_up env node ?d)"
    using concat_take_4 [of ?names ?d] names_len4(1) [OF assms(1), of "replicate 256 (replicate 4 0)" node ?d] d
    by (simp add: take_fill_names)
  moreover define names p where "names = ?names" and "p = concat (path_up env node ?d)"
  ultimately show ?thesis
    unfolding device_name_def Let_def names_def [symmetric] p_def [symmetric]
    using ud d by (cases "?d = 2") (auto simp: devpath_name_def)
qed

lemma devpath_ok_device_name:
  assumes "\<forall>n. length (ns_name env n) = 4" "in_depth env node"
  shows "devpath_ok (device_name env node)"
proof -
  let ?d = "unat (ns_depth env node)"
  define segs where "segs = concat (path_up env node ?d)"
  have d: "2 \<le> ?d" "?d \<le> 255" using assms(2) by (simp_all add: in_depth_def)
  have "length (concat xs) = 4 * length xs" if "\<forall>x \<in> set xs. length x = 4" for xs :: "bytes list"
    using that by (induction xs) simp_all
  from this [OF names_len4(2) [OF assms(1)]] have "length segs = 4 * ?d" by (simp add: segs_def)
  moreover have "unat (of_nat ?d :: u8) = ?d" using d unat_ucast_u8 [of "ns_depth env node"] by simp
  moreover have "device_name env node = (if ?d = 2 then [0x5c, 0x2e] @ segs else [0x5c, 0x2f, of_nat ?d] @ segs)"
    by (simp add: device_name_def segs_def Let_def)
  ultimately show ?thesis
    using d by (simp add: devpath_ok_def parse_name_def)
qed

text \<open>
  One call of the walker, then the whole walk. An entry is recorded when both of its \<open>malloc\<close>s
  succeed: where some fail, the lists are subsequences of the complete ones.
\<close>

definition add_when :: "bool \<Rightarrow> 'a \<Rightarrow> 'a list \<Rightarrow> 'a list" where
  "add_when b x xs = (if b then xs @ [x] else xs)"

lemma in_depth_iff: "in_depth env node \<longleftrightarrow> \<not> (ns_depth env node < 2 \<or> ns_depth env node > 255)"
  by (auto simp: in_depth_def word_less_nat_alt)

lemma dsdt_walker_step:
  assumes "\<forall>n. length (ns_name env n) = 4" "ns_info env node \<noteq> None"
  shows "\<exists>data'. dsdt_walker env alloc_ok data node = Some data' \<and>
    (let ok = alloc_ok (allocs data) \<and> alloc_ok (allocs data + 1) in
     missing_hids data' = add_when (is_missing env node \<and> ok) (device_name env node) (missing_hids data) \<and>
     offline_ddrcs data' = add_when (is_offline env (online_ddrcs_base data) node \<and> ok) (device_name env node)
       (offline_ddrcs data) \<and>
     online_ddrcs_base data' = online_ddrcs_base data)"
proof (cases "in_depth env node")
  case False
  then show ?thesis
    using assms by (auto simp: dsdt_walker_def in_depth_iff is_missing_def is_offline_def add_when_def Let_def)
next
  case True
  from assms obtain info where info: "ns_info env node = Some info" by auto
  have base: "list_ex (\<lambda>base. base \<noteq> 0 \<and> base = addr) bs \<longleftrightarrow> addr \<in> set bs - {0}" for addr :: u64 and bs
    by (auto simp: list_ex_iff)
  have depth: "\<not> (ns_depth env node < 2 \<or> ns_depth env node > 255)"
    by (rule True [unfolded in_depth_iff])
  let ?ok = "alloc_ok (allocs data) \<and> alloc_ok (Suc (allocs data))"
  have rec: "\<exists>k. record_missing alloc_ok names d data = data\<lparr>missing_hids :=
        add_when ?ok (devpath_name names d) (missing_hids data), allocs := k\<rparr>"
      "\<exists>k. record_offline alloc_ok names d data = data\<lparr>offline_ddrcs :=
        add_when ?ok (devpath_name names d) (offline_ddrcs data), allocs := k\<rparr>" for names d
    by (auto simp: record_missing_def record_offline_def devpath_list_append_uacpi_object_names_def
        add_when_def intro: exI [of _ "Suc (allocs data)"] exI [of _ "allocs data + 2"])
  obtain k1 k2 where k: "record_missing alloc_ok (fill_names env node (unat (ns_depth env node)) (replicate 256 (replicate 4 0)))
        (ucast (ns_depth env node)) data = data\<lparr>missing_hids := add_when ?ok (device_name env node) (missing_hids data), allocs := k1\<rparr>"
      "record_offline alloc_ok (fill_names env node (unat (ns_depth env node)) (replicate 256 (replicate 4 0)))
        (ucast (ns_depth env node)) data = data\<lparr>offline_ddrcs := add_when ?ok (device_name env node) (offline_ddrcs data), allocs := k2\<rparr>"
    using rec devpath_name_fill_names [OF assms(1) True] by metis
  show ?thesis
    unfolding dsdt_walker_def info Let_def for_each_resource_crs base
    using True depth info
    by (auto simp: k is_missing_def is_offline_def add_when_def split: option.splits)
qed

lemma walk_devices_collect:
  assumes "\<forall>n. length (ns_name env n) = 4" "\<forall>node \<in> set nodes. ns_info env node \<noteq> None"
  shows "\<exists>data' ms fs. walk_devices env alloc_ok data nodes = Some data' \<and>
    missing_hids data' = missing_hids data @ ms \<and> offline_ddrcs data' = offline_ddrcs data @ fs \<and>
    subseq ms (map (device_name env) (filter (is_missing env) nodes)) \<and>
    subseq fs (map (device_name env) (filter (is_offline env (online_ddrcs_base data)) nodes)) \<and>
    ((\<forall>k. alloc_ok k) \<longrightarrow> ms = map (device_name env) (filter (is_missing env) nodes) \<and>
       fs = map (device_name env) (filter (is_offline env (online_ddrcs_base data)) nodes))"
  using assms(2)
proof (induction nodes arbitrary: data)
  case (Cons node nodes)
  define ok where "ok = (alloc_ok (allocs data) \<and> alloc_ok (allocs data + 1))"
  let ?m = "add_when (is_missing env node \<and> ok) (device_name env node) []"
  let ?f = "add_when (is_offline env (online_ddrcs_base data) node \<and> ok) (device_name env node) []"
  obtain d1 where d1: "dsdt_walker env alloc_ok data node = Some d1" "missing_hids d1 = missing_hids data @ ?m"
      "offline_ddrcs d1 = offline_ddrcs data @ ?f" "online_ddrcs_base d1 = online_ddrcs_base data"
    using dsdt_walker_step [OF assms(1), of node alloc_ok data] Cons.prems
    by (auto simp: Let_def ok_def add_when_def)
  obtain d2 ms fs where d2: "walk_devices env alloc_ok d1 nodes = Some d2"
      "missing_hids d2 = missing_hids d1 @ ms" "offline_ddrcs d2 = offline_ddrcs d1 @ fs"
      "subseq ms (map (device_name env) (filter (is_missing env) nodes))"
      "subseq fs (map (device_name env) (filter (is_offline env (online_ddrcs_base data)) nodes))"
      "(\<forall>k. alloc_ok k) \<longrightarrow> ms = map (device_name env) (filter (is_missing env) nodes) \<and>
       fs = map (device_name env) (filter (is_offline env (online_ddrcs_base data)) nodes)"
    using Cons.IH [of d1] Cons.prems d1(4) by auto
  have sub: "subseq (add_when (P \<and> ok) x [] @ xs) (map h (filter Q (node # nodes)))"
    if "subseq xs (map h (filter Q nodes))" "P = Q node" "x = h node" for P Q x h and xs :: "bytes list"
    using that by (auto simp: add_when_def)
  have eq: "add_when (P \<and> ok) x [] @ xs = map h (filter Q (node # nodes))"
    if "xs = map h (filter Q nodes)" "P = Q node" "x = h node" "\<forall>k. alloc_ok k" for P Q x h and xs :: "bytes list"
    using that by (simp add: add_when_def ok_def)
  show ?case
  proof (rule exI [of _ d2], rule exI [of _ "?m @ ms"], rule exI [of _ "?f @ fs"], intro conjI impI)
    show "walk_devices env alloc_ok data (node # nodes) = Some d2" using d1(1) d2(1) by simp
    show "missing_hids d2 = missing_hids data @ ?m @ ms" "offline_ddrcs d2 = offline_ddrcs data @ ?f @ fs"
      using d1 d2(2,3) by simp_all
    show "subseq (?m @ ms) (map (device_name env) (filter (is_missing env) (node # nodes)))"
      by (rule sub [OF d2(4) refl refl])
    show "subseq (?f @ fs) (map (device_name env) (filter (is_offline env (online_ddrcs_base data)) (node # nodes)))"
      by (rule sub [OF d2(5) refl refl])
    assume all: "\<forall>k. alloc_ok k"
    show "?m @ ms = map (device_name env) (filter (is_missing env) (node # nodes))"
      using d2(6) all by (intro eq) simp_all
    show "?f @ fs = map (device_name env) (filter (is_offline env (online_ddrcs_base data)) (node # nodes))"
      using d2(6) all by (intro eq) simp_all
  qed
qed (auto intro: exI [of _ "[]"])

lemma walk_devices_defined:
  "walk_devices env alloc_ok data nodes \<noteq> None \<longleftrightarrow> (\<forall>node \<in> set nodes. ns_info env node \<noteq> None)"
proof (induction nodes arbitrary: data)
  case (Cons node nodes)
  have "dsdt_walker env alloc_ok data node \<noteq> None \<longleftrightarrow> ns_info env node \<noteq> None"
    by (auto simp: dsdt_walker_def Let_def split: option.splits)
  with Cons show ?case by (auto split: option.splits)
qed simp

section \<open>The identifiers\<close>

lemma hex_digit_inj: "a < 16 \<Longrightarrow> b < 16 \<Longrightarrow> hex_digit a = hex_digit b \<Longrightarrow> a = b"
proof -
  assume "a < 16" "b < 16" "hex_digit a = hex_digit b"
  then have "unat (hex_digit a) = unat (hex_digit b)" by simp
  moreover have "unat (hex_digit d) = (if d < 10 then 48 + d else 55 + d)" if "d < 16" for d
    using that by (simp add: hex_digit_def unat_of_nat take_bit_nat_eq_self del: of_nat_add)
  ultimately show ?thesis using \<open>a < 16\<close> \<open>b < 16\<close> by (auto split: if_splits)
qed

lemma hex4_inj: "hex4 a = hex4 b \<Longrightarrow> a = b"
proof -
  assume "hex4 a = hex4 b"
  then have "unat a div 4096 mod 16 = unat b div 4096 mod 16" "unat a div 256 mod 16 = unat b div 256 mod 16"
    "unat a div 16 mod 16 = unat b div 16 mod 16" "unat a mod 16 = unat b mod 16"
    by (auto simp: hex4_def intro: hex_digit_inj)
  moreover have "unat a < 65536" "unat b < 65536" using unsigned_less [of a] unsigned_less [of b] by simp_all
  moreover have "n = n mod 16 + 16 * (n div 16 mod 16) + 256 * (n div 256 mod 16) + 4096 * (n div 4096 mod 16)"
    if "n < 65536" for n :: nat
  proof -
    have "n div 16 div 16 = n div 256" "n div 256 div 16 = n div 4096" by (simp_all only: div_mult2_eq [symmetric]) simp_all
    moreover have "n div 4096 mod 16 = n div 4096" using that by simp
    ultimately show ?thesis
      using div_mult_mod_eq [of n 16] div_mult_mod_eq [of "n div 16" 16] div_mult_mod_eq [of "n div 256" 16]
      by linarith
  qed
  ultimately have "unat a = unat b" by metis
  then show "a = b" by (simp add: word_unat_eq_iff)
qed

lemma distinct_hid_indices: "length missing < 65536 \<Longrightarrow> distinct (hid_indices missing)"
  by (auto simp: hid_indices_def distinct_map inj_on_def word_unat_eq_iff unat_of_nat take_bit_nat_eq_self
      simp del: upt_Suc)

lemma length_hid_indices [simp]: "length (hid_indices missing) = length missing"
  by (simp add: hid_indices_def del: upt_Suc)

section \<open>Properties\<close>

lemma length_filter_disjoint:
  "(\<And>x. x \<in> set xs \<Longrightarrow> \<not> (P x \<and> Q x)) \<Longrightarrow> length (filter P xs) + length (filter Q xs) \<le> length xs"
  by (induction xs) auto

lemma missing_not_offline: "\<not> (is_missing env n \<and> is_offline env online n)"
  by (auto simp: is_missing_def is_offline_def split: option.splits)

definition missing_names :: "'n fix_env \<Rightarrow> bytes list" where
  "missing_names env = map (device_name (fix_uacpi env)) (filter (is_missing (fix_uacpi env)) (fix_devices env))"

definition offline_names :: "'n fix_env \<Rightarrow> u64 list \<Rightarrow> bytes list" where
  "offline_names env online =
     map (device_name (fix_uacpi env)) (filter (is_offline (fix_uacpi env) online) (fix_devices env))"

lemma names_devpath_ok:
  "\<forall>n. length (ns_name (fix_uacpi env) n) = 4 \<Longrightarrow>
     \<forall>name \<in> set (missing_names env) \<union> set (offline_names env online). devpath_ok name"
  by (auto simp: missing_names_def offline_names_def is_missing_def is_offline_def devpath_ok_device_name)

lemma names_count: "length (missing_names env) + length (offline_names env online) \<le> length (fix_devices env)"
  by (simp add: missing_names_def offline_names_def length_filter_disjoint missing_not_offline)

text \<open>A namespace with an unidentified device, an online and an offline DDR controller.\<close>

definition test_uacpi :: "nat uacpi_env" where
  "test_uacpi =
     \<lparr>ns_info = (\<lambda>n. Some \<lparr>info_has_hid = n \<noteq> 2, info_has_adr = False,
          info_hid = (if n \<in> {3, 4} then ''HISI0233'' else ''PNP0A08'')\<rparr>),
      ns_depth = (\<lambda>n. if n = 0 then 0 else if n = 1 then 1 else if n = 5 then 3 else 2),
      ns_name = (\<lambda>n. str (if n = 1 then ''_SB_'' else if n = 2 then ''COM1'' else if n = 3 then ''DDR0'' else ''DDR1'')),
      ns_parent = (\<lambda>n. if n \<le> 1 then 0 else 1),
      ns_sta = (\<lambda>n. None),
      ns_crs = (\<lambda>n. Some [RES_OTHER, RES_ADDRESS64 (if n = 3 then 0x94000000 else 0x98000000)]),
      stack_addr = (\<lambda>n. 0)\<rparr>"

definition path2 :: "string \<Rightarrow> bytes" where
  "path2 s = [0x5c, 0x2e] @ str s"

definition test_fix :: "nat fix_env" where
  "test_fix =
     \<lparr>fix_midr = 0x410fd080, fix_memory = (\<lambda>a. 0), fix_config = [], fix_uacpi = test_uacpi,
      fix_devices = [1, 2, 3, 4], init_ok = True, load_ok = True, fix_alloc_ok = (\<lambda>k. True),
      fix_fresh = (\<lambda>n. replicate n 0xcd), fix_junk = 7, install_ok = (\<lambda>t. True)\<rparr>"

text \<open>The run of the fix when nothing fails.\<close>

lemma fix_dsdt_run:
  fixes env :: "'n fix_env"
  assumes "init_ok env" "load_ok env"
    and "online_ddrcs env = Some online"
    and "\<forall>node \<in> set (fix_devices env). ns_info (fix_uacpi env) node \<noteq> None"
    and "\<forall>n. length (ns_name (fix_uacpi env) n) = 4"
    and "\<forall>k. fix_alloc_ok env k" and "\<forall>n. length (fix_fresh env n) = n"
    and "length (fix_devices env) < 65535"
  shows "if missing_names env = [] \<and> offline_names env online = [] then fix_dsdt env = Some (0, [])
    else \<exists>t. fix_dsdt env = Some (if install_ok env t then 0 else 1, [t]) \<and>
      table_signature t = 0x54445353 \<and> unat (table_length t) = length t \<and> table_oem_id t = str ''DIXYES'' \<and>
      ssdt_parse (drop 36 t) = Some (missing_names env @ offline_names env online,
        hid_items (missing_names env) @ map Set_STA0 (offline_names env online))"
proof -
  let ?m = "missing_names env" and ?f = "offline_names env online"
  note ok = names_devpath_ok [OF assms(5), of online]
  have count: "length ?m + length ?f < 65535" using names_count [of env online] assms(8) by simp
  obtain data where data: "walk_devices (fix_uacpi env) (fix_alloc_ok env)
      \<lparr>missing_hids = [], offline_ddrcs = [], online_ddrcs_base = online, allocs = 0\<rparr> (fix_devices env) = Some data"
      "missing_hids data = ?m" "offline_ddrcs data = ?f"
    using walk_devices_collect [OF assms(5,4), of "fix_alloc_ok env"
        "\<lparr>missing_hids = [], offline_ddrcs = [], online_ddrcs_base = online, allocs = 0\<rparr>"] assms(6)
    by (auto simp: missing_names_def offline_names_def)
  have "fix_dsdt env = (if ?m = [] \<and> ?f = [] then Some (0, []) else install_ssdt env (allocs data) ?m ?f)"
    using assms(1-3) data by (simp add: fix_dsdt_def)
  moreover have "install_ssdt env (allocs data) ?m ?f = Some (if install_ok env (ssdt_for ?m ?f) then 0 else 1, [ssdt_for ?m ?f])"
    by (rule install_ssdt_eq [OF assms(6) ok count assms(7)])
  moreover have "ssdt_parse (drop 36 (ssdt_for ?m ?f)) = Some (?m @ ?f, hid_items ?m @ map Set_STA0 ?f)"
    using ssdt_parse_body [OF ok count] ssdt_for_header(4) [OF ok count] by simp
  ultimately show ?thesis
    using ssdt_for_header(1-3) [OF ok count] by auto
qed



text \<open>
  C13. Whatever allocations fail, as long as every device's information is available the walk returns,
  and it records, in the order of the walk, only full paths of devices (at depth 2 to 255) with neither
  _HID nor _ADR as missing and only paths of DDR controllers (_HID HISI0233, not disabled by _STA, whose
  address is none of the non-zero online ones) as offline; when no allocation fails it records all of them.
\<close>

theorem dsdt_walk_exact:
  assumes "\<forall>n. length (ns_name env n) = 4" "\<forall>node \<in> set nodes. ns_info env node \<noteq> None"
  shows "\<exists>data' ms fs. walk_devices env alloc_ok data nodes = Some data' \<and>
    missing_hids data' = missing_hids data @ ms \<and> offline_ddrcs data' = offline_ddrcs data @ fs \<and>
    subseq ms (map (device_name env) (filter (is_missing env) nodes)) \<and>
    subseq fs (map (device_name env) (filter (is_offline env (online_ddrcs_base data)) nodes)) \<and>
    ((\<forall>k. alloc_ok k) \<longrightarrow> ms = map (device_name env) (filter (is_missing env) nodes) \<and>
       fs = map (device_name env) (filter (is_offline env (online_ddrcs_base data)) nodes))"
  by (rule walk_devices_collect [OF assms])

theorem dsdt_walk_exact_witness:
  "\<exists>data'. walk_devices test_uacpi (\<lambda>k. k \<noteq> 3)
     \<lparr>missing_hids = [], offline_ddrcs = [], online_ddrcs_base = [0x94000000], allocs = 0\<rparr> [1, 2, 3, 4] = Some data' \<and>
     subseq (missing_hids data') [path2 ''_SB_COM1''] \<and> subseq (offline_ddrcs data') [path2 ''_SB_DDR1'']"
proof -
  have names: "map (device_name test_uacpi) (filter (is_missing test_uacpi) [1, 2, 3, 4]) = [path2 ''_SB_COM1'']"
    "map (device_name test_uacpi) (filter (is_offline test_uacpi [0x94000000]) [1, 2, 3, 4]) = [path2 ''_SB_DDR1'']"
    by code_simp+
  have "\<forall>n. length (ns_name test_uacpi n) = 4" "\<forall>node \<in> set [1, 2, 3, 4]. ns_info test_uacpi node \<noteq> None"
    by (simp_all add: test_uacpi_def)
  from dsdt_walk_exact [OF this, of "\<lambda>k. k \<noteq> 3"
      "\<lparr>missing_hids = [], offline_ddrcs = [], online_ddrcs_base = [0x94000000], allocs = 0\<rparr>"]
  show ?thesis by (auto simp only: names dsdt_walker_data.simps append_Nil)
qed

text \<open>
  No two missing devices get the same identifier, as long as there are fewer than 65536 of them
  (the counter is a \<open>uint16_t\<close>): the strings after DIXY are pairwise distinct.
\<close>

theorem missing_ids_distinct:
  assumes "length missing < 65536"
  shows "distinct (map (\<lambda>item. case item of Set_HID name hid \<Rightarrow> hid | Set_STA0 name \<Rightarrow> []) (hid_items missing))"
proof -
  have "map (\<lambda>item. case item of Set_HID name hid \<Rightarrow> hid | Set_STA0 name \<Rightarrow> []) (hid_items missing)
      = map (\<lambda>k. str ''DIXY'' @ hex4 k) (hid_indices missing)"
    by (auto simp: hid_items_def list_eq_iff_nth_eq)
  then show ?thesis
    using distinct_hid_indices [OF assms] by (simp add: distinct_map inj_on_def hex4_inj)
qed

theorem missing_ids_distinct_witness:
  "distinct (map (\<lambda>item. case item of Set_HID name hid \<Rightarrow> hid | Set_STA0 name \<Rightarrow> [])
     (hid_items (replicate 65535 (path2 ''_SB_COM1''))))"
  using missing_ids_distinct [of "replicate 65535 (path2 ''_SB_COM1'')"] by simp



end
