(* ===== verification/AcpiPatch.thy ===== *)
theory AcpiPatch imports AcpiTable begin

text \<open>
  Model of the table steps of \<open>tablesfix.c\<close>: \<open>install_dbg2\<close> and \<open>install_spcr\<close> with the byte
  layout of the two static tables (structures of \<open>definitions.h\<close>), and \<open>uinstall_pcct\<close>. The
  firmware's ACPI protocols (UEFI, not part of the repository) are parameters: whether a table or an
  uninstallation is accepted, and what \<open>GetAcpiTable\<close> answers. The lemmas read the tables back by
  the offsets they contain, as their consumer does, and characterise the search for PCCT.
\<close>

unbundle bit_operations_syntax

section \<open>Structures of the tables\<close>

text \<open>Each structure is its members, packed, and its bytes.\<close>

definition ARM_ACPI_HEADER :: "u32 \<Rightarrow> nat \<Rightarrow> u8 \<Rightarrow> acpi_header" where
  "ARM_ACPI_HEADER Signature type_size Revision =
     \<lparr>hdr_Signature = Signature, hdr_Length = of_nat type_size, hdr_Revision = Revision, hdr_Checksum = 0,
      hdr_OemId = str ''HISI  '', hdr_OemTableId = str ''HIP08   '', hdr_OemRevision = 0,
      hdr_CreatorId = 0x49534948, hdr_CreatorRevision = 0x20151124\<rparr>"

record generic_address =
  AddressSpaceId :: u8
  RegisterBitWidth :: u8
  RegisterBitOffset :: u8
  AccessSize :: u8
  Address :: u64

definition generic_address_members :: "(nat \<times> nat) list" where
  "generic_address_members = packed [1, 1, 1, 1, 8]"

definition generic_address_bytes :: "generic_address \<Rightarrow> bytes" where
  "generic_address_bytes g =
     [AddressSpaceId g, RegisterBitWidth g, RegisterBitOffset g, AccessSize g] @ le64 (Address g)"

record dbg2_device_information =
  ddi_Revision :: u8
  ddi_Length :: u16
  NumberofGenericAddressRegisters :: u8
  NameSpaceStringLength :: u16
  NameSpaceStringOffset :: u16
  OemDataLength :: u16
  OemDataOffset :: u16
  PortType :: u16
  PortSubtype :: u16
  BaseAddressRegisterOffset :: u16
  AddressSizeOffset :: u16

definition dbg2_device_information_members :: "(nat \<times> nat) list" where
  "dbg2_device_information_members = packed [1, 2, 1, 2, 2, 2, 2, 2, 2, 2, 2, 2]"

definition dbg2_device_information_bytes :: "dbg2_device_information \<Rightarrow> bytes" where
  "dbg2_device_information_bytes d =
     [ddi_Revision d] @ le16 (ddi_Length d) @ [NumberofGenericAddressRegisters d]
       @ le16 (NameSpaceStringLength d) @ le16 (NameSpaceStringOffset d)
       @ le16 (OemDataLength d) @ le16 (OemDataOffset d) @ le16 (PortType d) @ le16 (PortSubtype d)
       @ [0, 0] @ le16 (BaseAddressRegisterOffset d) @ le16 (AddressSizeOffset d)"

definition NAMESPACE_STRING :: bytes where
  "NAMESPACE_STRING = [0x5c] @ str ''_SB.COM0'' @ [0]"

definition NAMESPACE_STRING_SIZE :: nat where "NAMESPACE_STRING_SIZE = length NAMESPACE_STRING"
definition NUMBER_DEBUG_DEVICE_INFO :: nat where "NUMBER_DEBUG_DEVICE_INFO = 1"
definition NUMBER_OF_GENERIC_ADDRESS :: nat where "NUMBER_OF_GENERIC_ADDRESS = 1"
definition UART_LENGTH :: u32 where "UART_LENGTH = 0x1000"
definition EFI_ACPI_DBG2_PORT_TYPE_SERIAL :: u16 where "EFI_ACPI_DBG2_PORT_TYPE_SERIAL = 0x8000"
definition EFI_ACPI_DBG2_PORT_SUBTYPE_SERIAL_ARM_PL011_UART :: u16 where
  "EFI_ACPI_DBG2_PORT_SUBTYPE_SERIAL_ARM_PL011_UART = 0x0003"
definition EFI_ACPI_6_1_SYSTEM_MEMORY :: u8 where "EFI_ACPI_6_1_SYSTEM_MEMORY = 0"
definition EFI_ACPI_6_1_BYTE :: u8 where "EFI_ACPI_6_1_BYTE = 1"
definition EFI_ACPI_RESERVED_BYTE :: u8 where "EFI_ACPI_RESERVED_BYTE = 0"
definition EFI_ACPI_RESERVED_DWORD :: u32 where "EFI_ACPI_RESERVED_DWORD = 0"

definition DBG2_DDI_members :: "(nat \<times> nat) list" where
  "DBG2_DDI_members = packed
     [c_sizeof dbg2_device_information_members, NUMBER_OF_GENERIC_ADDRESS * c_sizeof generic_address_members,
      4 * NUMBER_OF_GENERIC_ADDRESS, NAMESPACE_STRING_SIZE]"

definition DEBUG_PORT_2_DESCRIPTION_members :: "(nat \<times> nat) list" where
  "DEBUG_PORT_2_DESCRIPTION_members = packed [sizeof_acpi_header, 4, 4]"

definition DEBUG_PORT_2_TABLE_members :: "(nat \<times> nat) list" where
  "DEBUG_PORT_2_TABLE_members = packed
     [c_sizeof DEBUG_PORT_2_DESCRIPTION_members, NUMBER_DEBUG_DEVICE_INFO * c_sizeof DBG2_DDI_members]"

definition SPCR_members :: "(nat \<times> nat) list" where
  "SPCR_members = packed [sizeof_acpi_header, 1, 3, c_sizeof generic_address_members,
     1, 1, 4, 1, 1, 1, 1, 1, 1, 2, 2, 1, 1, 1, 4, 1, 4]"

section \<open>The two static tables\<close>

definition Dbg2_ddi :: dbg2_device_information where
  "Dbg2_ddi =
     \<lparr>ddi_Revision = 0,
      ddi_Length = of_nat (c_sizeof DBG2_DDI_members),
      NumberofGenericAddressRegisters = of_nat NUMBER_OF_GENERIC_ADDRESS,
      NameSpaceStringLength = of_nat NAMESPACE_STRING_SIZE,
      NameSpaceStringOffset = of_nat (c_offsetof DBG2_DDI_members 3),
      OemDataLength = 0,
      OemDataOffset = 0,
      PortType = EFI_ACPI_DBG2_PORT_TYPE_SERIAL,
      PortSubtype = EFI_ACPI_DBG2_PORT_SUBTYPE_SERIAL_ARM_PL011_UART,
      BaseAddressRegisterOffset = of_nat (c_offsetof DBG2_DDI_members 1),
      AddressSizeOffset = of_nat (c_offsetof DBG2_DDI_members 2)\<rparr>"

definition Dbg2_address :: generic_address where
  "Dbg2_address =
     \<lparr>AddressSpaceId = EFI_ACPI_6_1_SYSTEM_MEMORY, RegisterBitWidth = 32, RegisterBitOffset = 0,
      AccessSize = EFI_ACPI_6_1_BYTE, Address = 0x94080000\<rparr>"

definition Dbg2 :: bytes where
  "Dbg2 =
     header_bytes (ARM_ACPI_HEADER 0x32474244 (c_sizeof DEBUG_PORT_2_TABLE_members) 0)
       @ le32 (of_nat (c_offsetof DEBUG_PORT_2_TABLE_members 1))
       @ le32 (of_nat NUMBER_DEBUG_DEVICE_INFO)
       @ dbg2_device_information_bytes Dbg2_ddi
       @ generic_address_bytes Dbg2_address
       @ le32 UART_LENGTH
       @ NAMESPACE_STRING"

definition Spcr_address :: generic_address where
  "Spcr_address =
     \<lparr>AddressSpaceId = 0, RegisterBitWidth = 32, RegisterBitOffset = 0, AccessSize = 3, Address = 0x94080000\<rparr>"

definition Spcr :: bytes where
  "Spcr =
     header_bytes (ARM_ACPI_HEADER 0x52435053 (c_sizeof SPCR_members) 2)
       @ [0x03]
       @ [EFI_ACPI_RESERVED_BYTE, EFI_ACPI_RESERVED_BYTE, EFI_ACPI_RESERVED_BYTE]
       @ generic_address_bytes Spcr_address
       @ [0x8] @ [0] @ le32 141
       @ [7] @ [0] @ [1] @ [0] @ [3] @ [EFI_ACPI_RESERVED_BYTE]
       @ le16 0xFFFF @ le16 0xFFFF @ [0] @ [0] @ [0] @ le32 0 @ [0]
       @ le32 EFI_ACPI_RESERVED_DWORD"

section \<open>The steps\<close>

text \<open>
  The returned code and the buffers handed to \<open>InstallAcpiTable\<close> (resp. the keys handed to
  \<open>UninstallAcpiTable\<close>); \<open>install_ok\<close> and \<open>uninstall_ok\<close> tell which ones the firmware accepts.
\<close>

definition install_dbg2 :: "u64 \<Rightarrow> (bytes \<Rightarrow> bool) \<Rightarrow> int \<times> bytes list" where
  "install_dbg2 midr install_ok =
     (if midr AND 0xFFFFFFFF \<noteq> 0x481fd010 then (1, [])
      else if \<not> install_ok Dbg2 then (1, [Dbg2])
      else (0, [Dbg2]))"

definition install_spcr :: "u64 \<Rightarrow> (bytes \<Rightarrow> bool) \<Rightarrow> int \<times> bytes list" where
  "install_spcr midr install_ok =
     (if midr AND 0xFFFFFFFF \<noteq> 0x481fd010 then (1, [])
      else if \<not> install_ok Spcr then (1, [Spcr])
      else (0, [Spcr]))"

text \<open>
  \<open>get_table i\<close> is the \<open>i\<close>-th table's signature and key, \<open>None\<close> when \<open>GetAcpiTable\<close> fails;
  the loop runs over the indices from 0 to 255.
\<close>

fun pcct_loop :: "(nat \<Rightarrow> (u32 \<times> u64) option) \<Rightarrow> (u64 \<Rightarrow> bool) \<Rightarrow> nat list \<Rightarrow> int \<times> u64 list" where
  "pcct_loop get_table uninstall_ok [] = (0, [])"
| "pcct_loop get_table uninstall_ok (i # is) =
     (case get_table i of
        None \<Rightarrow> (0, [])
      | Some (Signature, key) \<Rightarrow>
          if Signature = 0x54434350
          then (if uninstall_ok key then (0, [key]) else (1, [key]))
          else pcct_loop get_table uninstall_ok is)"

definition uinstall_pcct :: "(nat \<Rightarrow> (u32 \<times> u64) option) \<Rightarrow> (u64 \<Rightarrow> bool) \<Rightarrow> int \<times> u64 list" where
  "uinstall_pcct get_table uninstall_ok = pcct_loop get_table uninstall_ok [0..<256]"

section \<open>Reading the tables back\<close>

text \<open>
  What the operating system does with them: it finds the device information through the offset in the
  table's header, and the address, its size and the name through the offsets in that structure. \<open>None\<close>
  when one of them points outside of its structure.
\<close>

definition field :: "nat \<Rightarrow> nat \<Rightarrow> bytes \<Rightarrow> ('a::len word) option" where
  "field off n t = map_option le_word (buf_read t off n)"

definition dbg2_device :: "bytes \<Rightarrow> bytes option" where
  "dbg2_device t =
     (case (field 36 4 t :: u32 option) of
        None \<Rightarrow> None
      | Some off \<Rightarrow>
          (case (field (unat off + 1) 2 t :: u16 option) of
             None \<Rightarrow> None
           | Some n \<Rightarrow> buf_read t (unat off) (unat n)))"

definition dbg2_port :: "bytes \<Rightarrow> (u16 \<times> u16 \<times> u64 \<times> u32 \<times> bytes) option" where
  "dbg2_port d =
     (case (field 12 2 d, field 14 2 d, field 18 2 d, field 20 2 d, field 4 2 d, field 6 2 d) of
        (Some port, Some subport, Some addr_off, Some size_off, Some name_len, Some name_off) \<Rightarrow>
          (case (field (unat (addr_off :: u16) + 4) 8 d, field (unat (size_off :: u16)) 4 d,
                 buf_read d (unat (name_off :: u16)) (unat (name_len :: u16))) of
             (Some addr, Some sz, Some name) \<Rightarrow> Some (port, subport, addr, sz, name)
           | _ \<Rightarrow> None)
      | _ \<Rightarrow> None)"

definition spcr_port :: "bytes \<Rightarrow> (u8 \<times> u64 \<times> u8 \<times> u32 \<times> u8) option" where
  "spcr_port t =
     (case (field 36 1 t, field 44 8 t, field 52 1 t, field 54 4 t, field 58 1 t) of
        (Some interface, Some addr, Some irq_type, Some gsiv, Some baud) \<Rightarrow>
          Some (interface, addr, irq_type, gsiv, baud)
      | _ \<Rightarrow> None)"

lemmas table_layouts = packed_def generic_address_members_def dbg2_device_information_members_def
  DBG2_DDI_members_def DEBUG_PORT_2_DESCRIPTION_members_def DEBUG_PORT_2_TABLE_members_def SPCR_members_def
  NUMBER_DEBUG_DEVICE_INFO_def NUMBER_OF_GENERIC_ADDRESS_def NAMESPACE_STRING_SIZE_def NAMESPACE_STRING_def

lemma table_sizes:
  "c_sizeof DBG2_DDI_members = 48" "c_sizeof DEBUG_PORT_2_TABLE_members = 92" "c_sizeof SPCR_members = 80"
  "c_offsetof DBG2_DDI_members 1 = 22" "c_offsetof DBG2_DDI_members 2 = 34"
  "c_offsetof DBG2_DDI_members 3 = 38" "c_offsetof DEBUG_PORT_2_TABLE_members 1 = 44"
  by (simp_all add: c_sizeof_def c_offsetof_def c_alignof_def c_align_def Let_def numeral_nat table_layouts)

text \<open>The images of the two tables, byte by byte.\<close>

lemmas image_simps = header_bytes_def ARM_ACPI_HEADER_def dbg2_device_information_bytes_def
  generic_address_bytes_def Dbg2_address_def Spcr_address_def NUMBER_DEBUG_DEVICE_INFO_def
  NUMBER_OF_GENERIC_ADDRESS_def NAMESPACE_STRING_SIZE_def NAMESPACE_STRING_def
  EFI_ACPI_DBG2_PORT_TYPE_SERIAL_def EFI_ACPI_DBG2_PORT_SUBTYPE_SERIAL_ARM_PL011_UART_def
  EFI_ACPI_6_1_SYSTEM_MEMORY_def EFI_ACPI_6_1_BYTE_def UART_LENGTH_def EFI_ACPI_RESERVED_BYTE_def
  EFI_ACPI_RESERVED_DWORD_def le_bytes_def upt_rec str_def

lemma Dbg2_image:
  "Dbg2 = [68, 66, 71, 50, 92, 0, 0, 0, 0, 0, 72, 73, 83, 73, 32, 32, 72, 73, 80, 48, 56, 32, 32, 32, 0,
      0, 0, 0, 72, 73, 83, 73, 36, 17, 21, 32, 44, 0, 0, 0, 1, 0, 0, 0, 0, 48, 0, 1, 10, 0, 38, 0,
      0, 0, 0, 0, 0, 128, 3, 0, 0, 0, 22, 0, 34, 0, 0, 32, 0, 1, 0, 0, 8, 148, 0, 0, 0, 0, 0, 16,
      0, 0, 92, 95, 83, 66, 46, 67, 79, 77, 48, 0]"
  unfolding Dbg2_def Dbg2_ddi_def table_sizes by (simp add: image_simps)

lemma Spcr_image:
  "Spcr = [83, 80, 67, 82, 80, 0, 0, 0, 2, 0, 72, 73, 83, 73, 32, 32, 72, 73, 80, 48, 56, 32, 32, 32, 0,
      0, 0, 0, 72, 73, 83, 73, 36, 17, 21, 32, 3, 0, 0, 0, 0, 32, 0, 3, 0, 0, 8, 148, 0, 0, 0, 0,
      8, 0, 141, 0, 0, 0, 7, 0, 1, 0, 3, 0, 255, 255, 255, 255, 0, 0, 0, 0, 0, 0, 0, 0, 0, 0, 0, 0]"
  unfolding Spcr_def table_sizes by (simp add: image_simps)

text \<open>
  The DBG2 table as laid out describes itself correctly: its Length and the Length of its device
  information are the real ones, and following its offsets leads, inside the table, to a serial port of
  subtype PL011 at address 0x94080000 with 0x1000 bytes of registers and the NUL-terminated path
  \<open>\_SB.COM0\<close>.
\<close>

theorem dbg2_self_describing:
  "table_signature Dbg2 = le_word (str ''DBG2'') \<and> unat (table_length Dbg2) = length Dbg2 \<and>
   map_option length (dbg2_device Dbg2) = Some 48 \<and>
   Option.bind (dbg2_device Dbg2) dbg2_port
     = Some (0x8000, 3, 0x94080000, 0x1000, [0x5c] @ str ''_SB.COM0'' @ [0])"
  unfolding Dbg2_image by code_simp

text \<open>
  The SPCR table as laid out has its real Length, and at the offsets of the SPCR specification a
  PL011 interface at the address of the DBG2 port, a GIC interrupt 141 and 115200 baud.
\<close>

theorem spcr_layout:
  "table_signature Spcr = le_word (str ''SPCR'') \<and> unat (table_length Spcr) = length Spcr \<and>
   spcr_port Spcr = Some (3, Address Dbg2_address, 8, 141, 7)"
  unfolding Spcr_image Dbg2_address_def by code_simp

section \<open>The search for PCCT\<close>

definition is_pcct :: "(u32 \<times> u64) option \<Rightarrow> bool" where
  "is_pcct t = (case t of None \<Rightarrow> False | Some (Signature, key) \<Rightarrow> Signature = 0x54434350)"

lemma is_pcct_Some [simp]: "is_pcct (Some (Signature, key)) \<longleftrightarrow> Signature = 0x54434350"
  by (simp add: is_pcct_def)

lemma pcct_loop_find:
  "pcct_loop get_table uninstall_ok is =
     (case find (\<lambda>i. get_table i = None \<or> is_pcct (get_table i)) is of
        None \<Rightarrow> (0, [])
      | Some i \<Rightarrow> (case get_table i of
            None \<Rightarrow> (0, [])
          | Some (Signature, key) \<Rightarrow> (if uninstall_ok key then 0 else 1, [key])))"
  by (induction "is") (auto simp: is_pcct_def split: option.splits)

text \<open>The tables before the first failing index, all of them listed without PCCT.\<close>

definition listed_before :: "(nat \<Rightarrow> (u32 \<times> u64) option) \<Rightarrow> nat \<Rightarrow> bool" where
  "listed_before get_table i = list_all (\<lambda>j. get_table j \<noteq> None \<and> \<not> is_pcct (get_table j)) [0..<i]"

lemma find_upt:
  "find P [0..<n] = Some i \<longleftrightarrow> i < n \<and> P i \<and> (\<forall>j<i. \<not> P j)"
  by (auto simp: find_Some_iff nth_upt dest: spec)

lemma pcct_first:
  "set (snd (uinstall_pcct get_table ok)) =
     {key. \<exists>i<256. get_table i = Some (0x54434350, key) \<and> listed_before get_table i} \<and>
   length (snd (uinstall_pcct get_table ok)) \<le> 1 \<and>
   fst (uinstall_pcct get_table ok) = (if list_all ok (snd (uinstall_pcct get_table ok)) then 0 else 1)"
proof -
  let ?P = "\<lambda>i. get_table i = None \<or> is_pcct (get_table i)"
  have found: "find ?P [0..<256] = Some i \<longleftrightarrow> i < 256 \<and> ?P i \<and> listed_before get_table i" for i
    by (auto simp: find_upt listed_before_def list_all_iff)
  show ?thesis
  proof (cases "find ?P [0..<256]")
    case None
    then have "\<not> ?P i" if "i < 256" for i using that by (auto simp: find_None_iff)
    then have "get_table i \<noteq> Some (0x54434350, key)" if "i < 256" for i key
      using that by (metis is_pcct_Some)
    then show ?thesis
      using None by (auto simp: uinstall_pcct_def pcct_loop_find)
  next
    case (Some i)
    have other: "i' = i" if "i' < 256" "get_table i' = Some (0x54434350, key)" "listed_before get_table i'" for i' key
      using that found [of i'] Some by (simp add: is_pcct_def)
    from Some found have i: "i < 256" "?P i" "listed_before get_table i" by auto
    show ?thesis
    proof (cases "get_table i")
      case None
      with Some other show ?thesis by (fastforce simp: uinstall_pcct_def pcct_loop_find)
    next
      case (Some t)
      then obtain key where gi: "get_table i = Some (0x54434350, key)"
        using i(2) by (metis is_pcct_Some option.distinct(1) surj_pair)
      have "uinstall_pcct get_table ok = (if ok key then 0 else 1, [key])"
        using \<open>find ?P [0..<256] = Some i\<close> gi by (simp add: uinstall_pcct_def pcct_loop_find)
      moreover have "{key. \<exists>i<256. get_table i = Some (0x54434350, key) \<and> listed_before get_table i} = {key}"
      proof (intro equalityI subsetI)
        fix k
        assume "k \<in> {key. \<exists>i<256. get_table i = Some (0x54434350, key) \<and> listed_before get_table i}"
        then obtain i' where "i' < 256" "get_table i' = Some (0x54434350, k)" "listed_before get_table i'" by blast
        with other gi show "k \<in> {key}" by force
      qed (use gi i in auto)
      ultimately show ?thesis by simp
    qed
  qed
qed

text \<open>
  Uninstalling PCCT calls the firmware at most once, on the key of the first table with the
  signature PCCT that enumeration reaches (index below 256, no failing index before it), on nothing
  when there is none, and it returns 1 exactly when the firmware refuses that call.
\<close>

theorem uninstall_pcct_exact:
  "set (snd (uinstall_pcct get_table ok)) =
     {key. \<exists>i<256. get_table i = Some (0x54434350, key) \<and> listed_before get_table i} \<and>
   length (snd (uinstall_pcct get_table ok)) \<le> 1 \<and>
   fst (uinstall_pcct get_table ok) = (if list_all ok (snd (uinstall_pcct get_table ok)) then 0 else 1)"
  by (rule pcct_first)

end
