(* ===== verification/Gop.thy ===== *)
theory Gop imports Prelude "HOL-Library.Product_Lexorder" begin

text \<open>
  Model of \<open>set_fhd\<close> of \<open>tablesfix.c\<close>: the choice of the video mode. The graphics output protocol
  (UEFI) is a parameter: \<open>QueryMode\<close> gives a mode's information or \<open>None\<close> for an error. The pixel
  counts are \<open>uint32_t\<close> products, compared as \<open>uint64_t\<close>. The lemmas show that the scan ends with
  the best mode of each kind, the highest-numbered one among equals: the maximum of the candidates in an order of
  their own, an instance of \<open>linorder\<close>.
\<close>

unbundle bit_operations_syntax

section \<open>The protocol\<close>

record gop_mode_info =
  HorizontalResolution :: u32
  VerticalResolution :: u32
  PixelFormat :: u32

text \<open>\<open>PixelBitMask\<close>: the value of that enumerator, a constant of the UEFI headers.\<close>

record efi_gop =
  MaxMode :: u32
  QueryMode :: "nat \<Rightarrow> gop_mode_info option"
  SetMode_ok :: "nat \<Rightarrow> bool"
  PixelBitMask :: u32

section \<open>The scan\<close>

record fhd_state =
  max_pixels :: u64
  max_prefered_pixels :: u64
  max_mode :: int
  prefered_mode :: int

definition prefered_resolution :: "gop_mode_info \<Rightarrow> bool" where
  "prefered_resolution info \<longleftrightarrow>
     (HorizontalResolution info = 3840 \<and> VerticalResolution info = 2160) \<or>
     (HorizontalResolution info = 2560 \<and> VerticalResolution info = 1600) \<or>
     (HorizontalResolution info = 2560 \<and> VerticalResolution info = 1440) \<or>
     (HorizontalResolution info = 2240 \<and> VerticalResolution info = 1400) \<or>
     (HorizontalResolution info = 1920 \<and> VerticalResolution info = 1080) \<or>
     (HorizontalResolution info = 1280 \<and> VerticalResolution info = 720)"

definition pixels :: "gop_mode_info \<Rightarrow> u64" where
  "pixels info = ucast (VerticalResolution info * HorizontalResolution info)"

definition try_mode :: "efi_gop \<Rightarrow> nat \<Rightarrow> fhd_state \<Rightarrow> fhd_state" where
  "try_mode gop mode s =
     (case QueryMode gop mode of
        None \<Rightarrow> s
      | Some info \<Rightarrow>
          if PixelFormat info > PixelBitMask gop then s
          else
            let s = (if prefered_resolution info \<and> pixels info > max_prefered_pixels s
                     then s\<lparr>max_prefered_pixels := pixels info, prefered_mode := int mode\<rparr> else s)
            in if pixels info \<le> max_pixels s then s
               else s\<lparr>max_pixels := pixels info, max_mode := int mode\<rparr>)"

text \<open>From mode \<open>n - 1\<close> down to 0.\<close>

fun scan_modes :: "efi_gop \<Rightarrow> nat \<Rightarrow> fhd_state \<Rightarrow> fhd_state" where
  "scan_modes gop 0 s = s"
| "scan_modes gop (Suc n) s = scan_modes gop n (try_mode gop n s)"

text \<open>
  The returned code and the mode given to \<open>SetMode\<close>, if any. \<open>MaxMode - 1\<close> is computed on 32 bits:
  without modes the scan starts at mode 4294967295.
\<close>

definition set_fhd :: "efi_gop \<Rightarrow> int \<times> nat option" where
  "set_fhd gop =
     (let s = scan_modes gop (unat (MaxMode gop - 1) + 1)
            \<lparr>max_pixels = 0, max_prefered_pixels = 0, max_mode = - 1, prefered_mode = - 1\<rparr>;
          final_mode = (if prefered_mode s \<noteq> - 1 then prefered_mode s else max_mode s)
      in if final_mode < 0 then (1, None)
         else if \<not> SetMode_ok gop (nat final_mode) then (1, Some (nat final_mode))
         else (0, Some (nat final_mode)))"

section \<open>The scan keeps the best mode\<close>

text \<open>\<open>best_from f n i\<close>: of the numbers \<open>n, n+1, ...\<close> with a non-zero value below a bound, \<open>i\<close> has
  the largest value, and is the last of those that have it.\<close>

definition best :: "(nat \<Rightarrow> nat) \<Rightarrow> nat \<Rightarrow> nat \<Rightarrow> nat \<Rightarrow> bool" where
  "best f a b i \<longleftrightarrow> a \<le> i \<and> i < b \<and> f i \<noteq> 0 \<and>
     list_all (\<lambda>j. f j < f i \<or> (f j = f i \<and> j \<le> i)) [a..<b]"

text \<open>\<open>tracks f a b v m\<close>: \<open>v\<close> and \<open>m\<close> are value and number of the best of \<open>a..b-1\<close>, 0 and -1 if none.\<close>

definition tracks :: "(nat \<Rightarrow> nat) \<Rightarrow> nat \<Rightarrow> nat \<Rightarrow> nat \<Rightarrow> int \<Rightarrow> bool" where
  "tracks f a b v m \<longleftrightarrow>
     (v = 0 \<and> m = - 1 \<and> list_all (\<lambda>j. f j = 0) [a..<b]) \<or>
     (\<exists>i. m = int i \<and> v = f i \<and> best f a b i)"

lemma tracks_step:
  assumes "tracks f (Suc a) b v m" "a < b"
  shows "tracks f a b (if v < f a then f a else v) (if v < f a then int a else m)"
proof -
  have "[a..<b] = a # [Suc a..<b]" using assms(2) by (simp add: upt_conv_Cons)
  with assms show ?thesis
    by (auto simp: tracks_def best_def list_all_iff)
qed

text \<open>The value of a mode in the two competitions.\<close>

definition usable :: "efi_gop \<Rightarrow> nat \<Rightarrow> bool" where
  "usable gop mode = (case QueryMode gop mode of None \<Rightarrow> False | Some info \<Rightarrow> PixelFormat info \<le> PixelBitMask gop)"

definition mode_pixels :: "efi_gop \<Rightarrow> nat \<Rightarrow> nat" where
  "mode_pixels gop mode = (if usable gop mode then unat (pixels (the (QueryMode gop mode))) else 0)"

definition prefered_pixels :: "efi_gop \<Rightarrow> nat \<Rightarrow> nat" where
  "prefered_pixels gop mode =
     (if usable gop mode \<and> prefered_resolution (the (QueryMode gop mode)) then mode_pixels gop mode else 0)"

definition fhd_inv :: "efi_gop \<Rightarrow> nat \<Rightarrow> nat \<Rightarrow> fhd_state \<Rightarrow> bool" where
  "fhd_inv gop a b s \<longleftrightarrow>
     tracks (mode_pixels gop) a b (unat (max_pixels s)) (max_mode s) \<and>
     tracks (prefered_pixels gop) a b (unat (max_prefered_pixels s)) (prefered_mode s)"

lemma try_mode_values:
  "unat (max_pixels (try_mode gop n s)) =
     (if unat (max_pixels s) < mode_pixels gop n then mode_pixels gop n else unat (max_pixels s))"
  "max_mode (try_mode gop n s) = (if unat (max_pixels s) < mode_pixels gop n then int n else max_mode s)"
  "unat (max_prefered_pixels (try_mode gop n s)) =
     (if unat (max_prefered_pixels s) < prefered_pixels gop n then prefered_pixels gop n
      else unat (max_prefered_pixels s))"
  "prefered_mode (try_mode gop n s) =
     (if unat (max_prefered_pixels s) < prefered_pixels gop n then int n else prefered_mode s)"
  by (auto simp: try_mode_def mode_pixels_def prefered_pixels_def usable_def word_less_nat_alt
      word_le_nat_alt Let_def split: option.splits)

lemma try_mode_inv: "fhd_inv gop (Suc n) b s \<Longrightarrow> n < b \<Longrightarrow> fhd_inv gop n b (try_mode gop n s)"
  unfolding fhd_inv_def try_mode_values by (blast intro: tracks_step)

lemma scan_modes_inv: "fhd_inv gop n b s \<Longrightarrow> n \<le> b \<Longrightarrow> fhd_inv gop 0 b (scan_modes gop n s)"
  by (induction n arbitrary: s) (simp_all add: try_mode_inv)

lemma pixels_mod: "unat (pixels info) = unat (VerticalResolution info) * unat (HorizontalResolution info) mod 2 ^ 32"
  by (simp add: pixels_def unsigned_ucast_eq unat_word_ariths take_bit_nat_eq_self)

lemma prefered_pixels_nonzero:
  "prefered_pixels gop i \<noteq> 0 \<longleftrightarrow> usable gop i \<and> prefered_resolution (the (QueryMode gop i))"
  by (auto simp: prefered_pixels_def mode_pixels_def prefered_resolution_def pixels_mod)

lemma prefered_le_mode_pixels: "mode_pixels gop i = 0 \<Longrightarrow> prefered_pixels gop i = 0"
  by (simp add: prefered_pixels_def)

definition mode_count :: "efi_gop \<Rightarrow> nat" where
  "mode_count gop = unat (MaxMode gop - 1) + 1"

definition has_prefered :: "efi_gop \<Rightarrow> bool" where
  "has_prefered gop = list_ex (\<lambda>i. usable gop i \<and> prefered_resolution (the (QueryMode gop i))) [0..<mode_count gop]"

lemma mode_count_MaxMode: "MaxMode gop \<noteq> 0 \<Longrightarrow> mode_count gop = unat (MaxMode gop)"
  using unat_gt_0 [of "MaxMode gop"] by (simp add: mode_count_def unat_minus_one)

text \<open>
  \<open>set_fhd\<close> sets a mode exactly when some usable mode has a non-zero pixel count (a product
  modulo 2\<open>^\<close>32). The mode it sets has the most pixels among the usable modes of a preferred resolution
  when there are any, and among all usable modes otherwise, the highest number among equals. It returns
  0 when that mode could be set, and 1 in every other case.
\<close>

theorem set_fhd_best:
  "(snd (set_fhd gop) = None \<longleftrightarrow> list_all (\<lambda>i. mode_pixels gop i = 0) [0..<mode_count gop]) \<and>
   (\<forall>i. snd (set_fhd gop) = Some i \<longrightarrow>
      best (if has_prefered gop then prefered_pixels gop else mode_pixels gop) 0 (mode_count gop) i) \<and>
   fst (set_fhd gop) = (case snd (set_fhd gop) of Some i \<Rightarrow> if SetMode_ok gop i then 0 else 1 | None \<Rightarrow> 1)"
proof -
  let ?n = "mode_count gop"
  define s where "s = scan_modes gop ?n
    \<lparr>max_pixels = 0, max_prefered_pixels = 0, max_mode = - 1, prefered_mode = - 1\<rparr>"
  have "fhd_inv gop ?n ?n \<lparr>max_pixels = 0, max_prefered_pixels = 0, max_mode = - 1, prefered_mode = - 1\<rparr>"
    by (simp add: fhd_inv_def tracks_def)
  then have "fhd_inv gop 0 ?n s" unfolding s_def by (rule scan_modes_inv) simp
  then have inv: "tracks (mode_pixels gop) 0 ?n (unat (max_pixels s)) (max_mode s)"
      "tracks (prefered_pixels gop) 0 ?n (unat (max_prefered_pixels s)) (prefered_mode s)"
    by (simp_all add: fhd_inv_def)
  have pref: "has_prefered gop \<longleftrightarrow> \<not> list_all (\<lambda>i. prefered_pixels gop i = 0) [0..<?n]"
    using prefered_pixels_nonzero by (auto simp: has_prefered_def list_ex_iff list_all_iff)
  have fhd: "set_fhd gop = (let m = (if prefered_mode s \<noteq> - 1 then prefered_mode s else max_mode s)
      in if m < 0 then (1, None) else (if SetMode_ok gop (nat m) then 0 else 1, Some (nat m)))"
    by (simp add: set_fhd_def s_def mode_count_def Let_def)
  from inv(2) consider (none) "prefered_mode s = - 1" "list_all (\<lambda>i. prefered_pixels gop i = 0) [0..<?n]"
    | (some) i where "prefered_mode s = int i" "best (prefered_pixels gop) 0 ?n i"
    by (auto simp: tracks_def)
  then show ?thesis
  proof cases
    case none
    then have "\<not> has_prefered gop" using pref by simp
    moreover have "\<not> list_all (\<lambda>i. mode_pixels gop i = 0) [0..<?n]" if "best (mode_pixels gop) 0 ?n i" for i
      using that by (auto simp: best_def list_all_iff)
    ultimately show ?thesis using inv(1) none(1) by (auto simp: fhd tracks_def Let_def)
  next
    case some
    then have "has_prefered gop" using pref by (auto simp: best_def list_all_iff)
    moreover have "\<not> list_all (\<lambda>i. mode_pixels gop i = 0) [0..<?n]"
      using some(2) prefered_le_mode_pixels [of gop i] by (fastforce simp: best_def list_all_iff)
    ultimately show ?thesis using some by (simp add: fhd)
  qed
qed

definition test_gop :: efi_gop where
  "test_gop = \<lparr>MaxMode = 4,
     QueryMode = (\<lambda>i. if i = 0 then Some \<lparr>HorizontalResolution = 1024, VerticalResolution = 768, PixelFormat = 1\<rparr>
       else if i = 1 then Some \<lparr>HorizontalResolution = 1920, VerticalResolution = 1080, PixelFormat = 1\<rparr>
       else if i = 2 then Some \<lparr>HorizontalResolution = 4096, VerticalResolution = 2400, PixelFormat = 1\<rparr>
       else Some \<lparr>HorizontalResolution = 3840, VerticalResolution = 2160, PixelFormat = 3\<rparr>),
     SetMode_ok = (\<lambda>i. True), PixelBitMask = 2\<rparr>"

section \<open>The maximum of the candidates\<close>

text \<open>
  The usable modes as candidates, ordered by what makes one better than another: a preferred resolution, then more
  pixels, then the higher number.
\<close>

datatype candidate = Candidate (cand_prefered: bool) (cand_pixels: nat) (cand_mode: nat)

definition cand_key :: "candidate \<Rightarrow> bool \<times> nat \<times> nat" where
  "cand_key c = (cand_prefered c, cand_pixels c, cand_mode c)"

instantiation candidate :: linorder
begin

definition less_eq_candidate :: "candidate \<Rightarrow> candidate \<Rightarrow> bool" where
  "less_eq_candidate a b \<longleftrightarrow> cand_key a \<le> cand_key b"

definition less_candidate :: "candidate \<Rightarrow> candidate \<Rightarrow> bool" where
  "less_candidate a b \<longleftrightarrow> cand_key a < cand_key b"

instance
proof
  fix a b c :: candidate
  show "a < b \<longleftrightarrow> a \<le> b \<and> \<not> b \<le> a" by (simp only: less_eq_candidate_def less_candidate_def less_le_not_le)
  show "a \<le> a" by (simp only: less_eq_candidate_def)
  show "a \<le> b \<Longrightarrow> b \<le> c \<Longrightarrow> a \<le> c" by (simp only: less_eq_candidate_def)
  show "a \<le> b \<or> b \<le> a" by (simp only: less_eq_candidate_def linear)
  assume "a \<le> b" "b \<le> a"
  then have "cand_key a = cand_key b" by (simp only: less_eq_candidate_def)
  then show "a = b" by (simp add: cand_key_def candidate.expand)
qed

end

definition candidate_of :: "efi_gop \<Rightarrow> nat \<Rightarrow> candidate" where
  "candidate_of gop i = Candidate (prefered_resolution (the (QueryMode gop i))) (mode_pixels gop i) i"

definition candidates :: "efi_gop \<Rightarrow> candidate set" where
  "candidates gop = candidate_of gop ` {i. i < mode_count gop \<and> mode_pixels gop i \<noteq> 0}"

lemma candidates_finite: "finite (candidates gop)"
  by (simp add: candidates_def)

lemma mode_pixels_usable: "mode_pixels gop i \<noteq> 0 \<Longrightarrow> usable gop i"
  by (auto simp: mode_pixels_def split: if_splits)

lemma best_is_maximum:
  assumes "best (if has_prefered gop then prefered_pixels gop else mode_pixels gop) 0 (mode_count gop) i"
  shows "Max (candidates gop) = candidate_of gop i"
proof (rule Max_eqI [OF candidates_finite])
  have i: "i < mode_count gop" "(if has_prefered gop then prefered_pixels gop else mode_pixels gop) i \<noteq> 0"
    using assms by (simp_all add: best_def)
  then have "mode_pixels gop i \<noteq> 0" using prefered_le_mode_pixels [of gop i] by (auto split: if_splits)
  then show "candidate_of gop i \<in> candidates gop" using i(1) by (auto simp: candidates_def)
  fix c
  assume "c \<in> candidates gop"
  then obtain j where j: "c = candidate_of gop j" "j < mode_count gop" "mode_pixels gop j \<noteq> 0"
    by (auto simp: candidates_def)
  show "c \<le> candidate_of gop i"
  proof (cases "has_prefered gop")
    case True
    then have pref: "prefered_pixels gop i \<noteq> 0" "prefered_pixels gop j < prefered_pixels gop i \<or>
        prefered_pixels gop j = prefered_pixels gop i \<and> j \<le> i"
      using assms j(2) by (simp_all add: best_def list_all_iff)
    then show ?thesis
      using mode_pixels_usable [OF j(3)] prefered_pixels_nonzero [of gop i] j(3)
      by (auto simp: j(1) less_eq_candidate_def cand_key_def candidate_of_def prefered_pixels_def split: if_splits)
  next
    case False
    then have "mode_pixels gop j < mode_pixels gop i \<or> mode_pixels gop j = mode_pixels gop i \<and> j \<le> i"
      using assms j(2) by (simp add: best_def list_all_iff)
    moreover have "\<not> prefered_resolution (the (QueryMode gop j))"
      using False mode_pixels_usable [OF j(3)] j(2) by (auto simp: has_prefered_def list_ex_iff)
    ultimately show ?thesis
      by (auto simp: j(1) less_eq_candidate_def cand_key_def candidate_of_def)
  qed
qed

text \<open>
  C20. What \<open>set_fhd\<close> does, in full: with no candidate (a usable mode whose pixel count, a product modulo 2\<open>^\<close>32,
  is not 0) it sets nothing and returns 1; else it sets the greatest candidate (a preferred resolution before any
  other, then the most pixels, then the highest number) and returns 0 exactly when the firmware accepts it.
\<close>

theorem set_fhd_maximum:
  "set_fhd gop =
    (if candidates gop = {} then (1, None)
     else let i = cand_mode (Max (candidates gop)) in (if SetMode_ok gop i then 0 else 1, Some i))"
proof (cases "snd (set_fhd gop)")
  case None
  then have "candidates gop = {}" "fst (set_fhd gop) = 1"
    using set_fhd_best [of gop] by (auto simp: candidates_def list_all_iff)
  then show ?thesis using None by (simp add: prod_eq_iff)
next
  case (Some i)
  then have "best (if has_prefered gop then prefered_pixels gop else mode_pixels gop) 0 (mode_count gop) i"
    and fst: "fst (set_fhd gop) = (if SetMode_ok gop i then 0 else 1)"
    and "\<not> list_all (\<lambda>i. mode_pixels gop i = 0) [0..<mode_count gop]"
    using set_fhd_best [of gop] by auto
  then have "Max (candidates gop) = candidate_of gop i" "candidates gop \<noteq> {}"
    using best_is_maximum by (auto simp: candidates_def list_all_iff)
  then show ?thesis using Some fst by (simp add: prod_eq_iff candidate_of_def)
qed

theorem set_fhd_best_witness:
  "set_fhd test_gop = (0, Some 1) \<and> best (prefered_pixels test_gop) 0 4 1"
proof -
  have run: "set_fhd test_gop = (0, Some 1)" by code_simp
  have "has_prefered test_gop" "mode_count test_gop = 4" by code_simp+
  then show ?thesis using set_fhd_best [of test_gop] run by simp
qed

end
