(* ===== verification/EfiProtocols.thy ===== *)
theory EfiProtocols imports Memory begin

text \<open>
  The UEFI protocols that \<open>definitions.h\<close> declares: their GUIDs, and for each the members the program calls, as
  functions from the arguments to what the firmware answers. A status is the 64-bit \<open>efi_status_t\<close>, 0 for success.
  The layouts of the protocols give the places of these members.
\<close>

section \<open>GUIDs\<close>

definition EFI_ACPI_SDT_PROTOCOL_GUID :: efi_guid where
  "EFI_ACPI_SDT_PROTOCOL_GUID = \<lparr>Data1 = 0xeb97088e, Data2 = 0xcfdf, Data3 = 0x49c6,
     Data4 = [0xbe, 0x4b, 0xd9, 0x6, 0xa5, 0xb2, 0xe, 0x86]\<rparr>"

definition EFI_ACPI_TABLE_PROTOCOL_GUID :: efi_guid where
  "EFI_ACPI_TABLE_PROTOCOL_GUID = \<lparr>Data1 = 0xffe06bdd, Data2 = 0x6107, Data3 = 0x46a6,
     Data4 = [0x7b, 0xb2, 0x5a, 0x9c, 0x7e, 0xc5, 0x27, 0x5c]\<rparr>"

definition EFI_DEVICE_PATH_FROM_TEXT_PROTOCOL_GUID :: efi_guid where
  "EFI_DEVICE_PATH_FROM_TEXT_PROTOCOL_GUID = \<lparr>Data1 = 0x5c99a21, Data2 = 0xc70f, Data3 = 0x4ad2,
     Data4 = [0x8a, 0x5f, 0x35, 0xdf, 0x33, 0x43, 0xf5, 0x1e]\<rparr>"

definition EFI_DEVICE_PATH_TO_TEXT_PROTOCOL_GUID :: efi_guid where
  "EFI_DEVICE_PATH_TO_TEXT_PROTOCOL_GUID = \<lparr>Data1 = 0x8b843e20, Data2 = 0x8132, Data3 = 0x4852,
     Data4 = [0x90, 0xcc, 0x55, 0x1a, 0x4e, 0x4a, 0x7f, 0x1c]\<rparr>"

definition EFI_DEVICE_PATH_UTILITIES_PROTOCOL_GUID :: efi_guid where
  "EFI_DEVICE_PATH_UTILITIES_PROTOCOL_GUID = \<lparr>Data1 = 0x379be4e, Data2 = 0xd706, Data3 = 0x437d,
     Data4 = [0xb0, 0x37, 0xed, 0xb8, 0x2f, 0xb7, 0x72, 0xa4]\<rparr>"

definition EFI_SMBIOS_PROTOCOL_GUID :: efi_guid where
  "EFI_SMBIOS_PROTOCOL_GUID = \<lparr>Data1 = 0x3583ff6, Data2 = 0xcb36, Data3 = 0x4940,
     Data4 = [0x94, 0x7e, 0xb9, 0xb3, 0x9f, 0x4a, 0xfa, 0xf7]\<rparr>"

lemmas protocol_guids = EFI_ACPI_SDT_PROTOCOL_GUID_def EFI_ACPI_TABLE_PROTOCOL_GUID_def
  EFI_DEVICE_PATH_FROM_TEXT_PROTOCOL_GUID_def EFI_DEVICE_PATH_TO_TEXT_PROTOCOL_GUID_def
  EFI_DEVICE_PATH_UTILITIES_PROTOCOL_GUID_def EFI_SMBIOS_PROTOCOL_GUID_def

section \<open>Services\<close>

text \<open>\<open>BS->LocateProtocol\<close>: the status, and the interface pointer afterwards, which the program cleared before.\<close>

type_synonym locate_service = "efi_guid \<Rightarrow> u64 \<times> u64"

text \<open>The status for the bytes of a table, and for a table key.\<close>

record acpi_table_protocol =
  InstallAcpiTable :: "bytes \<Rightarrow> u64"
  UninstallAcpiTable :: "u64 \<Rightarrow> u64"

text \<open>For an index: the status, the address of the table and its key.\<close>

record acpi_sdt_protocol =
  GetAcpiTable :: "nat \<Rightarrow> u64 \<times> u64 \<times> u64"

text \<open>A device path is its address, 0 for a failure.\<close>

record device_path_from_text_protocol =
  ConvertTextToDevicePath :: "string \<Rightarrow> u64"

record device_path_utilities_protocol =
  AppendDevicePath :: "u64 \<Rightarrow> u64 \<Rightarrow> u64"

text \<open>
  \<open>GetNext\<close> with a handle and a type: the status, the handle and the structure it stores (the null pointer that the
  program put there when it stores none).
\<close>

record smbios_protocol =
  GetNext :: "u16 \<Rightarrow> u8 \<Rightarrow> u64 \<times> u16 \<times> u64"

section \<open>Layouts\<close>

text \<open>
  The protocols as the firmware stores them: tables of function pointers of 8 bytes. A call through a protocol reads
  the pointer at the offset of the member, so the order of the members is part of the interface.
\<close>

abbreviation c_pointer :: "nat \<times> nat" where "c_pointer \<equiv> (8, 8)"

definition EFI_ACPI_TABLE_PROTOCOL_members :: "(nat \<times> nat) list" where
  "EFI_ACPI_TABLE_PROTOCOL_members = [c_pointer, c_pointer]"

text \<open>\<open>AcpiVersion\<close> is a \<open>uint32_t\<close>.\<close>

definition EFI_ACPI_SDT_PROTOCOL_members :: "(nat \<times> nat) list" where
  "EFI_ACPI_SDT_PROTOCOL_members = [(4, 4), c_pointer]"

definition EFI_DEVICE_PATH_FROM_TEXT_PROTOCOL_members :: "(nat \<times> nat) list" where
  "EFI_DEVICE_PATH_FROM_TEXT_PROTOCOL_members = [c_pointer, c_pointer]"

definition EFI_DEVICE_PATH_TO_TEXT_PROTOCOL_members :: "(nat \<times> nat) list" where
  "EFI_DEVICE_PATH_TO_TEXT_PROTOCOL_members = [c_pointer, c_pointer]"

definition EFI_DEVICE_PATH_UTILITIES_PROTOCOL_members :: "(nat \<times> nat) list" where
  "EFI_DEVICE_PATH_UTILITIES_PROTOCOL_members = replicate 8 c_pointer"

definition EFI_SMBIOS_PROTOCOL_members :: "(nat \<times> nat) list" where
  "EFI_SMBIOS_PROTOCOL_members = [c_pointer, c_pointer, c_pointer, c_pointer, (1, 1), (1, 1)]"

text \<open>A device path node and the header of an SMBIOS structure.\<close>

definition EFI_DEVICE_PATH_PROTOCOL_members :: "(nat \<times> nat) list" where
  "EFI_DEVICE_PATH_PROTOCOL_members = [(1, 1), (1, 1), (2, 1)]"

definition EFI_SMBIOS_TABLE_HEADER_members :: "(nat \<times> nat) list" where
  "EFI_SMBIOS_TABLE_HEADER_members = [(1, 1), (1, 1), (2, 2)]"

text \<open>The offsets that the calls of the program read, as the UEFI specification has them.\<close>

lemma protocol_offsets:
  "map (c_offsetof EFI_ACPI_TABLE_PROTOCOL_members) [0, 1] = [0, 8]"
  "c_offsetof EFI_ACPI_SDT_PROTOCOL_members 1 = 8" "c_offsetof EFI_DEVICE_PATH_FROM_TEXT_PROTOCOL_members 1 = 8"
  "c_offsetof EFI_DEVICE_PATH_UTILITIES_PROTOCOL_members 2 = 16" "c_offsetof EFI_SMBIOS_PROTOCOL_members 3 = 24"
  by code_simp+

lemma header_sizes:
  "c_sizeof EFI_DEVICE_PATH_PROTOCOL_members = 4" "c_sizeof EFI_SMBIOS_TABLE_HEADER_members = 4"
  "c_sizeof EFI_DEVICE_PATH_TO_TEXT_PROTOCOL_members = 16" "c_sizeof EFI_SMBIOS_PROTOCOL_members = 40"
  by code_simp+

end
