(* ===== verification/Smbios.thy ===== *)
theory Smbios imports EfiProtocols begin

text \<open>
  Model of what \<open>tablesfix.c\<close> reads from SMBIOS: \<open>dmi_string\<close> (the string of a structure by its
  number), the strings it prints, the recognition of the W510 boards by product name, and the count of
  processors. The SMBIOS protocol (UEFI) is a parameter. \<open>strlen\<close> and the processor loop have no bound of their own
  and are partial functions, \<open>None\<close> for a run that never ends. The lemmas give the results on
  well-formed string sets and handle chains.
\<close>

unbundle bit_operations_syntax

section \<open>Strings of a structure\<close>

partial_function (option) c_strlen :: "memory \<Rightarrow> u64 \<Rightarrow> nat option" where
  "c_strlen m p = (if m p = 0 then Some 0 else Option.bind (c_strlen m (p + 1)) (\<lambda>n. Some (n + 1)))"

text \<open>The loop of \<open>dmi_string\<close>, with the number of strings still to skip (\<open>s - 1\<close>).\<close>

fun dmi_skip :: "memory \<Rightarrow> u64 \<Rightarrow> nat \<Rightarrow> u64 option" where
  "dmi_skip m bp 0 = Some bp"
| "dmi_skip m bp (Suc n) =
     (if m bp = 0 then Some bp
      else case c_strlen m bp of
          None \<Rightarrow> None
        | Some len \<Rightarrow> dmi_skip m (bp + of_nat len + 1) n)"

definition dmi_string :: "memory \<Rightarrow> u64 \<Rightarrow> u8 \<Rightarrow> u64 option" where
  "dmi_string m dm s =
     (if s = 0 \<or> dm = 0 then Some 0
      else case dmi_skip m (dm + ucast (m (dm + 1))) (unat s - 1) of
          None \<Rightarrow> None
        | Some bp \<Rightarrow> Some (if m bp = 0 then 0 else bp))"

section \<open>The product name\<close>

text \<open>\<open>memmem\<close> with a non-NULL result.\<close>

definition memmem :: "bytes \<Rightarrow> bytes \<Rightarrow> bool" where
  "memmem haystack needle =
     list_ex (\<lambda>i. take (length needle) (drop i haystack) = needle) [0..<length haystack + 1]"

definition w510_name :: "memory \<Rightarrow> u64 \<Rightarrow> bool option" where
  "w510_name m p_str =
     (if p_str = 0 then Some False
      else case c_strlen m p_str of
          None \<Rightarrow> None
        | Some n \<Rightarrow>
            Some (memmem (mem_bytes m p_str n) (str ''W510'') \<or> memmem (mem_bytes m p_str n) (str ''PGU-WBY0'')))"

text \<open>The structures of type 0 and 1, packed, as the sizes of their members.\<close>

definition SMBIOS_TABLE_TYPE0_members :: "(nat \<times> nat) list" where
  "SMBIOS_TABLE_TYPE0_members = packed [c_sizeof EFI_SMBIOS_TABLE_HEADER_members, 1, 1, 2, 1, 1, 4, 2, 1, 1, 1, 1, 2]"

definition SMBIOS_TABLE_TYPE1_members :: "(nat \<times> nat) list" where
  "SMBIOS_TABLE_TYPE1_members = packed [c_sizeof EFI_SMBIOS_TABLE_HEADER_members, 1, 1, 1, 1, 16, 1, 1, 1]"

definition dmi_field :: "memory \<Rightarrow> u64 \<Rightarrow> (nat \<times> nat) list \<Rightarrow> nat \<Rightarrow> u8" where
  "dmi_field m smbios_table members i = m (smbios_table + of_nat (c_offsetof members i))"

lemma dmi_fields:
  "dmi_field m dm SMBIOS_TABLE_TYPE0_members 1 = m (dm + 4)" "dmi_field m dm SMBIOS_TABLE_TYPE0_members 2 = m (dm + 5)"
  "dmi_field m dm SMBIOS_TABLE_TYPE0_members 4 = m (dm + 8)" "dmi_field m dm SMBIOS_TABLE_TYPE1_members 1 = m (dm + 4)"
  "dmi_field m dm SMBIOS_TABLE_TYPE1_members 2 = m (dm + 5)"
  by (simp_all add: dmi_field_def SMBIOS_TABLE_TYPE0_members_def SMBIOS_TABLE_TYPE1_members_def packed_def
      header_sizes(2) c_offsetof_def c_align_def Let_def)

text \<open>\<open>type1\<close>: the structure of type 1 that \<open>GetNext\<close> gives, \<open>None\<close> if it fails.\<close>

definition detect_w510 :: "memory \<Rightarrow> u64 option \<Rightarrow> bool option" where
  "detect_w510 m type1 =
     (case type1 of
        None \<Rightarrow> Some False
      | Some smbios_table \<Rightarrow>
          Option.bind (dmi_string m smbios_table (dmi_field m smbios_table SMBIOS_TABLE_TYPE1_members 2)) (w510_name m))"

section \<open>The number of processors\<close>

text \<open>
  \<open>get_next h\<close>: the handle \<open>GetNext\<close> stores when called with the handle \<open>h\<close> for type 4, and
  whether it succeeded with a structure.
\<close>

partial_function (option) count_cpus :: "(u16 \<Rightarrow> u16 \<times> bool) \<Rightarrow> u16 \<Rightarrow> u8 \<Rightarrow> u8 option" where
  "count_cpus get_next smbios_handle cpus =
     (if fst (get_next smbios_handle) = 0xFFFE then Some cpus
      else if \<not> snd (get_next smbios_handle) then Some cpus
      else count_cpus get_next (fst (get_next smbios_handle)) (cpus + 1))"

section \<open>What the program learns\<close>

definition smbios_record :: "smbios_protocol \<Rightarrow> u8 \<Rightarrow> u64 option" where
  "smbios_record smbios smbios_type =
     (case GetNext smbios 0xFFFE smbios_type of
        (ret, smbios_handle, smbios_table) \<Rightarrow> if ret \<noteq> 0 \<or> smbios_table = 0 then None else Some smbios_table)"

text \<open>What \<open>printf\<close> shows for the string of a number: \<open>Some None\<close> for NULL.\<close>

definition show_string :: "memory \<Rightarrow> u64 \<Rightarrow> u8 \<Rightarrow> bytes option option" where
  "show_string m smbios_table s =
     (case dmi_string m smbios_table s of
        None \<Rightarrow> None
      | Some p_str \<Rightarrow>
          if p_str = 0 then Some None else map_option (\<lambda>n. Some (mem_bytes m p_str n)) (c_strlen m p_str))"

fun show_strings :: "memory \<Rightarrow> u64 \<Rightarrow> u8 list \<Rightarrow> bytes option list option" where
  "show_strings m smbios_table [] = Some []"
| "show_strings m smbios_table (s # ss) =
     (case show_string m smbios_table s of
        None \<Rightarrow> None
      | Some line \<Rightarrow> map_option ((#) line) (show_strings m smbios_table ss))"

text \<open>Vendor, BIOS version and release date; manufacturer and product name.\<close>

definition bios_lines :: "memory \<Rightarrow> u64 option \<Rightarrow> bytes option list option" where
  "bios_lines m type0 =
     (case type0 of
        None \<Rightarrow> Some []
      | Some smbios_table \<Rightarrow>
          show_strings m smbios_table (map (dmi_field m smbios_table SMBIOS_TABLE_TYPE0_members) [1, 2, 4]))"

definition system_lines :: "memory \<Rightarrow> u64 option \<Rightarrow> bytes option list option" where
  "system_lines m type1 =
     (case type1 of
        None \<Rightarrow> Some []
      | Some smbios_table \<Rightarrow>
          show_strings m smbios_table (map (dmi_field m smbios_table SMBIOS_TABLE_TYPE1_members) [1, 2]))"

text \<open>The lines printed, \<open>is_w510\<close> and \<open>cpus\<close>.\<close>

definition smbios_info :: "memory \<Rightarrow> smbios_protocol \<Rightarrow> (bytes option list \<times> bool \<times> u8) option" where
  "smbios_info m smbios =
     (case bios_lines m (smbios_record smbios 0) of
        None \<Rightarrow> None
      | Some bios \<Rightarrow>
          (case (system_lines m (smbios_record smbios 1), detect_w510 m (smbios_record smbios 1)) of
             (Some system, Some is_w510) \<Rightarrow>
               map_option (\<lambda>cpus. (bios @ system, is_w510, cpus))
                 (count_cpus (\<lambda>h. case GetNext smbios h 4 of
                    (ret, smbios_handle, smbios_table) \<Rightarrow> (smbios_handle, ret = 0 \<and> smbios_table \<noteq> 0)) 0xFFFE 0)
           | _ \<Rightarrow> None))"

section \<open>Strings found\<close>

text \<open>\<open>string_set m p ss\<close>: the memory holds at \<open>p\<close> the non-empty strings \<open>ss\<close>, each with its
  NUL, and another NUL: the format of the SMBIOS specification.\<close>

definition c_string_at :: "memory \<Rightarrow> u64 \<Rightarrow> bytes \<Rightarrow> bool" where
  "c_string_at m p s \<longleftrightarrow> 0 \<notin> set s \<and> mem_bytes m p (length s + 1) = s @ [0]"

fun string_set :: "memory \<Rightarrow> u64 \<Rightarrow> bytes list \<Rightarrow> bool" where
  "string_set m p [] \<longleftrightarrow> m p = 0"
| "string_set m p (s # ss) \<longleftrightarrow> s \<noteq> [] \<and> c_string_at m p s \<and> string_set m (p + of_nat (length s) + 1) ss"

lemma c_string_at_Nil [simp]: "c_string_at m p [] \<longleftrightarrow> m p = 0"
  by (simp add: c_string_at_def mem_bytes_def)

lemma c_string_at_Cons [simp]: "c_string_at m p (b # s) \<longleftrightarrow> b \<noteq> 0 \<and> m p = b \<and> c_string_at m (p + 1) s"
proof -
  have "mem_bytes m p (length (b # s) + 1) = m p # mem_bytes m (p + 1) (length s + 1)"
    by (simp add: mem_bytes_def upt_conv_Cons map_Suc_upt [symmetric] ac_simps del: upt_Suc)
  then show ?thesis by (auto simp: c_string_at_def)
qed

lemma c_strlen_string: "c_string_at m p s \<Longrightarrow> c_strlen m p = Some (length s)"
proof (induction s arbitrary: p)
  case (Cons b s)
  then show ?case by (subst c_strlen.simps) simp
qed (subst c_strlen.simps, simp)

definition strings_size :: "bytes list \<Rightarrow> nat" where
  "strings_size ss = sum_list (map (\<lambda>s. length s + 1) ss)"

lemma dmi_skip_strings:
  "string_set m p ss \<Longrightarrow>
     \<exists>a k. dmi_skip m p n = Some a \<and> a = p + of_nat k \<and> k \<le> strings_size ss \<and>
       (if n < length ss then c_string_at m a (ss ! n) \<and> m a \<noteq> 0 else m a = 0)"
proof (induction n arbitrary: p ss)
  case 0
  then show ?case by (cases ss; cases "hd ss") (auto intro: exI [of _ 0])
next
  case (Suc n)
  show ?case
  proof (cases ss)
    case Nil
    with Suc.prems show ?thesis by (auto intro: exI [of _ 0])
  next
    case (Cons s rest)
    then have s: "c_strlen m p = Some (length s)" "m p \<noteq> 0" "string_set m (p + of_nat (length s) + 1) rest"
      using Suc.prems by (simp_all add: c_strlen_string) (cases s, simp_all)
    from Suc.IH [OF s(3)] obtain a k where "dmi_skip m (p + of_nat (length s) + 1) n = Some a"
        "a = p + of_nat (length s + 1 + k)" "k \<le> strings_size rest"
        "if n < length rest then c_string_at m a (rest ! n) \<and> m a \<noteq> 0 else m a = 0"
      by (auto simp: ac_simps)
    with s Cons show ?thesis
      by (intro exI [of _ a] exI [of _ "length s + 1 + k"]) (auto simp: strings_size_def)
  qed
qed

lemma unat_lt_256: "unat (b :: u8) < 256"
  using unsigned_less [of b, where 'a = nat] by simp

text \<open>\<open>dmi_strings m dm ss\<close>: a structure at \<open>dm\<close> with the string set \<open>ss\<close>, inside the address space.\<close>

definition dmi_strings :: "memory \<Rightarrow> u64 \<Rightarrow> bytes list \<Rightarrow> bool" where
  "dmi_strings m dm ss \<longleftrightarrow>
     dm \<noteq> 0 \<and> unat dm + 256 + strings_size ss < 2 ^ 64 \<and> string_set m (dm + ucast (m (dm + 1))) ss"

lemma dmi_string_cases:
  assumes "dmi_strings m dm ss"
  shows "\<exists>a. dmi_string m dm s = Some a \<and>
    (if 1 \<le> unat s \<and> unat s \<le> length ss then a \<noteq> 0 \<and> c_string_at m a (ss ! (unat s - 1)) else a = 0)"
proof (cases "s = 0")
  case False
  define p where "p = dm + ucast (m (dm + 1))"
  obtain a k where a: "dmi_skip m p (unat s - 1) = Some a" "a = p + of_nat k" "k \<le> strings_size ss"
      "if unat s - 1 < length ss then c_string_at m a (ss ! (unat s - 1)) \<and> m a \<noteq> 0 else m a = 0"
    using assms dmi_skip_strings [of m p ss "unat s - 1"] by (auto simp: dmi_strings_def p_def)
  have "0 < unat dm" "unat (ucast (m (dm + 1)) :: u64) < 256"
    using assms unat_lt_256 [of "m (dm + 1)"] by (simp_all add: dmi_strings_def unat_gt_0 unsigned_ucast_eq take_bit_nat_eq_self)
  then have "unat a \<noteq> 0"
    using assms a(2,3) by (simp add: p_def dmi_strings_def unat_word_ariths unat_add_of_nat)
  moreover have "0 < unat s" using False by (simp add: unat_gt_0)
  then have "unat s - 1 < length ss \<longleftrightarrow> unat s \<le> length ss" "1 \<le> unat s" by auto
  ultimately show ?thesis
    using a assms False by (auto simp: dmi_string_def dmi_strings_def p_def split: if_splits)
qed (simp add: dmi_string_def)

lemma c_string_bytes: "c_string_at m a s \<Longrightarrow> mem_bytes m a (length s) = s"
  unfolding c_string_at_def
  by (metis (no_types) append_eq_append_conv length_append_singleton length_mem_bytes Suc_eq_plus1
      mem_bytes_def upt_Suc_append map_append le0)

text \<open>What is printed for a string number: the string, or NULL when the structure has none of that number.\<close>

definition numbered_string :: "bytes list \<Rightarrow> u8 \<Rightarrow> bytes option" where
  "numbered_string ss s = (if 1 \<le> unat s \<and> unat s \<le> length ss then Some (ss ! (unat s - 1)) else None)"

lemma show_strings_eq:
  assumes "dmi_strings m dm ss"
  shows "show_strings m dm ns = Some (map (numbered_string ss) ns)"
proof -
  have "show_string m dm s = Some (numbered_string ss s)" for s
  proof -
    obtain a where "dmi_string m dm s = Some a"
        "if 1 \<le> unat s \<and> unat s \<le> length ss then a \<noteq> 0 \<and> c_string_at m a (ss ! (unat s - 1)) else a = 0"
      using dmi_string_cases [OF assms] by blast
    then show ?thesis
      using c_string_bytes c_strlen_string by (auto simp: show_string_def numbered_string_def split: if_splits)
  qed
  then show ?thesis by (induction ns) simp_all
qed

lemma memmem_iff: "memmem hay needle \<longleftrightarrow> (\<exists>pre post. hay = pre @ needle @ post)"
proof
  assume "memmem hay needle"
  then obtain i where "take (length needle) (drop i hay) = needle" by (auto simp: memmem_def list_ex_iff)
  then have "hay = take i hay @ needle @ drop (length needle) (drop i hay)"
    by (metis append_take_drop_id)
  then show "\<exists>pre post. hay = pre @ needle @ post" by blast
next
  assume "\<exists>pre post. hay = pre @ needle @ post"
  then obtain pre post where "hay = pre @ needle @ post" by blast
  then show "memmem hay needle"
    by (auto simp: memmem_def list_ex_iff intro!: bexI [of _ "length pre"])
qed

section \<open>Processor handles\<close>

text \<open>\<open>type4_chain next h hs\<close>: enumeration from \<open>h\<close> gives the structures with the handles \<open>hs\<close>
  and then ends or fails.\<close>

fun type4_chain :: "(u16 \<Rightarrow> u16 \<times> bool) \<Rightarrow> u16 \<Rightarrow> u16 list \<Rightarrow> bool" where
  "type4_chain next h [] \<longleftrightarrow> fst (next h) = 0xFFFE \<or> \<not> snd (next h)"
| "type4_chain next h (h' # hs) \<longleftrightarrow> next h = (h', True) \<and> h' \<noteq> 0xFFFE \<and> type4_chain next h' hs"

lemma count_cpus_chain: "type4_chain next h hs \<Longrightarrow> count_cpus next h c = Some (c + of_nat (length hs))"
proof (induction hs arbitrary: h c)
  case (Cons h' hs)
  then show ?case by (subst count_cpus.simps) (simp add: ac_simps)
qed (subst count_cpus.simps, auto)

lemma count_cpus_returns: "count_cpus next h c = Some r \<Longrightarrow> \<exists>hs. type4_chain next h hs"
proof (rule count_cpus.raw_induct [where P = "\<lambda>next h c r. \<exists>hs. type4_chain next h hs"])
  fix count :: "(u16 \<Rightarrow> u16 \<times> bool) \<Rightarrow> u16 \<Rightarrow> u8 \<Rightarrow> u8 option" and nxt h c r
  assume IH: "\<And>nxt h c r. count nxt h c = Some r \<Longrightarrow> \<exists>hs. type4_chain nxt h hs"
    and eq: "(if fst (nxt h) = 0xFFFE then Some c else if \<not> snd (nxt h) then Some c
      else count nxt (fst (nxt h)) (c + 1)) = Some r"
  show "\<exists>hs. type4_chain nxt h hs"
  proof (cases "fst (nxt h) = 0xFFFE \<or> \<not> snd (nxt h)")
    case True
    then show ?thesis by (intro exI [of _ "[]"]) simp
  next
    case False
    then have "count nxt (fst (nxt h)) (c + 1) = Some r" using eq by simp
    from IH [OF this] obtain hs where "type4_chain nxt (fst (nxt h)) hs" by blast
    with False show ?thesis by (intro exI [of _ "fst (nxt h) # hs"]) (simp add: prod_eq_iff)
  qed
qed

section \<open>Properties\<close>

text \<open>
  On a structure followed by a well-formed string set, \<open>dmi_string\<close> returns NULL for the number 0
  and for a number above the number of strings, and else the address of the string of that number
  (counted from 1), whatever the strings contain; it always terminates there.
\<close>

theorem dmi_string_correct:
  assumes "dmi_strings m dm ss"
  shows "\<exists>a. dmi_string m dm s = Some a \<and>
    (if 1 \<le> unat s \<and> unat s \<le> length ss then a \<noteq> 0 \<and> c_string_at m a (ss ! (unat s - 1)) else a = 0)"
  by (rule dmi_string_cases [OF assms])

text \<open>A type 1 structure of 27 bytes at 0x1000 with the strings \<open>Huawei\<close> and \<open>PGU-WBY0 B\<close>.\<close>

definition dmi_example :: memory where
  "dmi_example = mem_write (mem_write (\<lambda>a. 0) 0x1000 [1, 27, 0, 0, 1, 2]) 0x101b
     (str ''Huawei'' @ [0] @ str ''PGU-WBY0 B'' @ [0, 0])"

lemma dmi_example_strings:
  "dmi_strings dmi_example 0x1000 [str ''Huawei'', str ''PGU-WBY0 B'']"
  by (simp add: dmi_strings_def strings_size_def dmi_example_def mem_write_def str_def)

theorem dmi_string_correct_witness:
  "\<exists>a. dmi_string dmi_example 0x1000 2 = Some a \<and> c_string_at dmi_example a (str ''PGU-WBY0 B'')"
  using dmi_string_correct [OF dmi_example_strings, of 2] by auto

text \<open>
  The board is taken for a W510 exactly when the product name of the type 1 structure exists and
  contains \<open>W510\<close> or \<open>PGU-WBY0\<close>.
\<close>

theorem detect_w510_correct:
  assumes "dmi_strings m dm ss" and "n = unat (m (dm + 5))"
  shows "detect_w510 m (Some dm) = Some (1 \<le> n \<and> n \<le> length ss \<and>
    (\<exists>pre post. ss ! (n - 1) = pre @ str ''W510'' @ post \<or> ss ! (n - 1) = pre @ str ''PGU-WBY0'' @ post))"
proof -
  let ?s = "m (dm + 5)"
  have name: "w510_name m a = Some (a \<noteq> 0 \<and> (memmem s (str ''W510'') \<or> memmem s (str ''PGU-WBY0'')))"
    if "c_string_at m a s" for a s
  proof -
    have "mem_bytes m a (length s) = s" by (rule c_string_bytes [OF that])
    then show ?thesis using c_strlen_string [OF that] by (simp add: w510_name_def)
  qed
  show ?thesis
  proof (cases "1 \<le> n \<and> n \<le> length ss")
    case False
    then have "dmi_string m dm ?s = Some 0"
      using dmi_string_cases [OF assms(1), of ?s] assms(2) by auto
    then show ?thesis using False by (auto simp: detect_w510_def dmi_fields w510_name_def)
  next
    case True
    then obtain a where "dmi_string m dm ?s = Some a" "c_string_at m a (ss ! (n - 1))" "a \<noteq> 0"
      using dmi_string_cases [OF assms(1), of ?s] assms(2) by auto
    then show ?thesis
      using True name [of a "ss ! (n - 1)"]
      by (simp add: detect_w510_def dmi_fields memmem_iff) blast
  qed
qed

theorem detect_w510_correct_witness:
  "detect_w510 dmi_example (Some 0x1000) = Some True"
proof -
  have n: "2 = unat (dmi_example (0x1000 + 5))"
    by (simp add: dmi_example_def mem_write_def str_def)
  have "str ''PGU-WBY0 B'' = [] @ str ''PGU-WBY0'' @ str '' B''" by (simp add: str_def)
  then show ?thesis using detect_w510_correct [OF dmi_example_strings n] by force
qed

text \<open>
  The processor count returns exactly when the enumeration from the handle 0xFFFE reaches an end or
  a failure, and it is then the number of structures enumerated before that, modulo 256 (the counter
  is a \<open>uint8_t\<close>).
\<close>

theorem count_cpus_exact:
  "count_cpus next 0xFFFE 0 = Some r \<longleftrightarrow>
     (\<exists>hs. type4_chain next 0xFFFE hs \<and> unat r = length hs mod 256)"
proof -
  have "unat (of_nat n :: u8) = n mod 256" for n by (simp add: unat_of_nat take_bit_eq_mod)
  then have "r = of_nat n \<longleftrightarrow> unat r = n mod 256" for n by (metis word_unat_eq_iff)
  then show ?thesis
    using count_cpus_chain [where h = "0xFFFE" and c = 0] count_cpus_returns [where h = "0xFFFE" and c = 0]
    by (metis add_0 option.inject)
qed

end
