(* ===== verification/TablesFix.thy ===== *)
theory TablesFix imports DsdtFix AcpiPatch Gop Smbios begin

text \<open>
  Model of \<open>main\<close> and \<open>chainload_bootmgr\<close> of \<open>tablesfix.c\<close>: the scan of the firmware's XSDT
  for the tables that already exist, the five steps with their skip conditions, and the start of the
  Windows boot manager. What the UEFI services answer is a parameter; a protocol is found by its GUID and used
  through the address that the firmware stored. Effects on the firmware are the
  list of the events a run causes; \<open>None\<close> is a run that does not end or that is undefined in a
  component it calls. The lemmas say exactly when each table is installed or removed.
\<close>

unbundle bit_operations_syntax

section \<open>The tables the firmware has\<close>

definition EFI_ACPI_2_0_ROOT_SYSTEM_DESCRIPTION_POINTER_REVISION :: u8 where
  "EFI_ACPI_2_0_ROOT_SYSTEM_DESCRIPTION_POINTER_REVISION = 0x02"

definition rsdp_members :: "(nat \<times> nat) list" where
  "rsdp_members = packed [8, 1, 6, 1, 4, 4, 8, 1, 3]"

definition rsdp_Revision :: "memory \<Rightarrow> u64 \<Rightarrow> u8" where
  "rsdp_Revision m rsdp = m (rsdp + of_nat (c_offsetof rsdp_members 3))"

definition rsdp_XsdtAddress :: "memory \<Rightarrow> u64 \<Rightarrow> u64" where
  "rsdp_XsdtAddress m rsdp = load64 m (rsdp + of_nat (c_offsetof rsdp_members 6))"

definition sdt_Signature :: "memory \<Rightarrow> u64 \<Rightarrow> u32" where
  "sdt_Signature m sdt = load32 m sdt"

definition sdt_Length :: "memory \<Rightarrow> u64 \<Rightarrow> u32" where
  "sdt_Length m sdt = load32 m (sdt + of_nat (c_offsetof acpi_header_members 1))"

lemma table_accessors:
  "rsdp_Revision m rsdp = m (rsdp + 15)" "rsdp_XsdtAddress m rsdp = load64 m (rsdp + 24)"
  "sdt_Length m sdt = load32 m (sdt + 4)"
  by (simp_all add: rsdp_Revision_def rsdp_XsdtAddress_def sdt_Length_def rsdp_members_def
      acpi_header_members_def packed_def c_offsetof_def c_align_def Let_def)

record acpi_flags =
  has_pcct :: bool
  has_spcr :: bool
  has_dbg2 :: bool

definition note_table :: "memory \<Rightarrow> u64 \<Rightarrow> acpi_flags \<Rightarrow> acpi_flags" where
  "note_table m sdt flags =
     (if sdt_Signature m sdt = 0x54434350 then flags\<lparr>has_pcct := True\<rparr>
      else if sdt_Signature m sdt = 0x32474244 then flags\<lparr>has_dbg2 := True\<rparr>
      else if sdt_Signature m sdt = 0x52435053 then flags\<lparr>has_spcr := True\<rparr>
      else flags)"

text \<open>The \<open>j\<close>-th table pointer after the header of the XSDT.\<close>

definition xsdt_entry :: "memory \<Rightarrow> u64 \<Rightarrow> nat \<Rightarrow> u64" where
  "xsdt_entry m xsdt j = load64 m (xsdt + of_nat sizeof_acpi_header + 8 * of_nat j)"

definition scan_entry ::
  "memory \<Rightarrow> bytes \<Rightarrow> bytes \<Rightarrow> config_entry \<Rightarrow> acpi_flags \<Rightarrow> acpi_flags" where
  "scan_entry m acpi_guid acpi2_guid p_table flags =
     (if VendorGuid p_table \<noteq> acpi_guid \<and> VendorGuid p_table \<noteq> acpi2_guid then flags
      else if mem_bytes m (VendorTable p_table) 8 \<noteq> str ''RSD PTR '' then flags
      else
        let rsdp = VendorTable p_table; xsdt = rsdp_XsdtAddress m rsdp in
        if rsdp_Revision m rsdp < EFI_ACPI_2_0_ROOT_SYSTEM_DESCRIPTION_POINTER_REVISION then flags
        else if mem_bytes m xsdt 4 \<noteq> str ''XSDT'' then flags
        else if unat (sdt_Length m xsdt) < sizeof_acpi_header then flags
        else fold (\<lambda>j. note_table m (xsdt_entry m xsdt j))
               [0..<(unat (sdt_Length m xsdt) - sizeof_acpi_header) div 8] flags)"

definition scan_config :: "memory \<Rightarrow> bytes \<Rightarrow> bytes \<Rightarrow> config_entry list \<Rightarrow> acpi_flags" where
  "scan_config m acpi_guid acpi2_guid config =
     fold (scan_entry m acpi_guid acpi2_guid) config
       \<lparr>has_pcct = False, has_spcr = False, has_dbg2 = False\<rparr>"

section \<open>Events and steps\<close>

datatype event =
    SetVideoMode nat
  | UninstallTable u64
  | InstallTable bytes
  | LoadImage u64
  | StartImage u64

datatype step_result = SKIPPED string | FAILED | OK

definition outcome :: "int \<Rightarrow> step_result" where
  "outcome ret = (if ret \<noteq> 0 then FAILED else OK)"

section \<open>Starting the boot manager\<close>

text \<open>The path with a backslash before each component.\<close>

definition efi_path :: "string list \<Rightarrow> string" where
  "efi_path parts = concat (map (\<lambda>s. CHR 0x5c # s) parts)"

definition try_paths :: "string list" where
  "try_paths =
     [efi_path [''EFI'', ''Microsoft'', ''Boot'', ''bootmgfw.efi''],
      efi_path [''EFI'', ''Microsoft'', ''Boot'', ''cdboot_noprompt.efi''],
      efi_path [''EFI'', ''Microsoft'', ''Boot'', ''bootmgr.efi'']]"

text \<open>
  The files, the status and the device path of the boot device that \<open>OpenProtocol\<close> gives, the protocols behind an
  address, the status and the handle of \<open>LoadImage\<close> for a device path, and the status of \<open>StartImage\<close>.
\<close>

record chain_env =
  file_exists :: "string \<Rightarrow> bool"
  BS_OpenProtocol :: "u64 \<times> u64"
  from_text_at :: "u64 \<Rightarrow> device_path_from_text_protocol"
  utilities_at :: "u64 \<Rightarrow> device_path_utilities_protocol"
  BS_LoadImage :: "u64 \<Rightarrow> u64 \<times> u64"
  BS_StartImage :: "u64 \<Rightarrow> u64"

definition boot_path :: "locate_service \<Rightarrow> chain_env \<Rightarrow> string \<Rightarrow> u64 \<Rightarrow> u64" where
  "boot_path locate env path dev_node =
     (let dpftp = snd (locate EFI_DEVICE_PATH_FROM_TEXT_PROTOCOL_GUID);
          dpup = snd (locate EFI_DEVICE_PATH_UTILITIES_PROTOCOL_GUID);
          dev_path = ConvertTextToDevicePath (from_text_at env dpftp) path
      in if dev_path = 0 then 0 else AppendDevicePath (utilities_at env dpup) dev_node dev_path)"

definition chainload_bootmgr :: "locate_service \<Rightarrow> chain_env \<Rightarrow> int \<times> event list" where
  "chainload_bootmgr locate env =
     (case find (file_exists env) try_paths of
        None \<Rightarrow> (1, [])
      | Some path \<Rightarrow>
          if fst (locate EFI_DEVICE_PATH_FROM_TEXT_PROTOCOL_GUID) \<noteq> 0 then (1, [])
          else if fst (locate EFI_DEVICE_PATH_TO_TEXT_PROTOCOL_GUID) \<noteq> 0 then (1, [])
          else if fst (locate EFI_DEVICE_PATH_UTILITIES_PROTOCOL_GUID) \<noteq> 0 then (1, [])
          else let (ret, dev_node) = BS_OpenProtocol env in
            if ret \<noteq> 0 then (1, [])
            else let dev_path = boot_path locate env path dev_node in
              if dev_path = 0 then (1, [])
              else let (ret, handle) = BS_LoadImage env dev_path in
                if ret \<noteq> 0 then (1, [LoadImage dev_path])
                else if BS_StartImage env handle \<noteq> 0 then (1, [LoadImage dev_path, StartImage handle])
                else (0, [LoadImage dev_path, StartImage handle]))"

section \<open>The program\<close>

text \<open>
  \<open>efi_error\<close> is the macro \<open>EFI_ERROR\<close>; \<open>gop_guid\<close> and the two ACPI GUIDs are constants of the UEFI headers; the
  protocols are those behind an address.
\<close>

record 'n main_env =
  main_argv :: "string list"
  LocateProtocol :: locate_service
  efi_error :: "u64 \<Rightarrow> bool"
  gop_guid :: efi_guid
  acpi_guid :: bytes
  acpi2_guid :: bytes
  gop_at :: "u64 \<Rightarrow> efi_gop"
  smbios_at :: "u64 \<Rightarrow> smbios_protocol"
  acpi_table_at :: "u64 \<Rightarrow> acpi_table_protocol"
  acpi_sdt_at :: "u64 \<Rightarrow> acpi_sdt_protocol"
  main_fix :: "'n fix_env"
  main_chain :: chain_env

definition resolution_step :: "'n main_env \<Rightarrow> event list" where
  "resolution_step env =
     (let (ret, gop) = LocateProtocol env (gop_guid env) in
      if efi_error env ret \<or> gop = 0 then []
      else case snd (set_fhd (gop_at env gop)) of None \<Rightarrow> [] | Some mode \<Rightarrow> [SetVideoMode mode])"

text \<open>\<open>is_w510\<close> and \<open>cpus\<close>.\<close>

definition smbios_step :: "'n main_env \<Rightarrow> (bool \<times> u8) option" where
  "smbios_step env =
     (let (ret, smbios) = LocateProtocol env EFI_SMBIOS_PROTOCOL_GUID in
      if ret \<noteq> 0 \<or> smbios = 0 then Some (False, 0)
      else map_option snd (smbios_info (fix_memory (main_fix env)) (smbios_at env smbios)))"

text \<open>The two ACPI protocols: the program looks at the interface pointers only, the statuses are printed.\<close>

definition acpi_table :: "'n main_env \<Rightarrow> u64" where
  "acpi_table env = snd (LocateProtocol env EFI_ACPI_TABLE_PROTOCOL_GUID)"

definition acpi_sdt :: "'n main_env \<Rightarrow> u64" where
  "acpi_sdt env = snd (LocateProtocol env EFI_ACPI_SDT_PROTOCOL_GUID)"

definition main_install_ok :: "'n main_env \<Rightarrow> bytes \<Rightarrow> bool" where
  "main_install_ok env table \<longleftrightarrow> InstallAcpiTable (acpi_table_at env (acpi_table env)) table = 0"

definition main_uninstall_ok :: "'n main_env \<Rightarrow> u64 \<Rightarrow> bool" where
  "main_uninstall_ok env key \<longleftrightarrow> UninstallAcpiTable (acpi_table_at env (acpi_table env)) key = 0"

text \<open>The signature and the key of a table by its index, as long as \<open>GetAcpiTable\<close> succeeds.\<close>

definition main_get_table :: "'n main_env \<Rightarrow> nat \<Rightarrow> (u32 \<times> u64) option" where
  "main_get_table env i =
     (case GetAcpiTable (acpi_sdt_at env (acpi_sdt env)) i of
        (ret, pTable, key) \<Rightarrow>
          if ret \<noteq> 0 then None else Some (sdt_Signature (fix_memory (main_fix env)) pTable, key))"

definition pcct_step :: "'n main_env \<Rightarrow> acpi_flags \<Rightarrow> u8 \<Rightarrow> step_result \<times> event list" where
  "pcct_step env flags cpus =
     (if cpus > 1 then (SKIPPED ''have more cpus'', [])
      else if \<not> has_pcct flags then (SKIPPED ''not exist'', [])
      else if acpi_table env = 0 then (SKIPPED ''cannot get ACPI Protocol'', [])
      else if acpi_sdt env = 0 then (SKIPPED ''cannot get ACPI SDT Protocol'', [])
      else let (ret, keys) = uinstall_pcct (main_get_table env) (main_uninstall_ok env)
           in (outcome ret, map UninstallTable keys))"

definition dbg2_step :: "'n main_env \<Rightarrow> acpi_flags \<Rightarrow> bool \<Rightarrow> step_result \<times> event list" where
  "dbg2_step env flags is_w510 =
     (if has_dbg2 flags then (SKIPPED ''already have DBG2'', [])
      else if is_w510 then (SKIPPED ''not work for W510'', [])
      else if acpi_table env = 0 then (SKIPPED ''cannot get ACPI Protocol'', [])
      else let (ret, tables) = install_dbg2 (fix_midr (main_fix env)) (main_install_ok env)
           in (outcome ret, map InstallTable tables))"

definition spcr_step :: "'n main_env \<Rightarrow> acpi_flags \<Rightarrow> bool \<Rightarrow> step_result \<times> event list" where
  "spcr_step env flags is_w510 =
     (if has_spcr flags then (SKIPPED ''already have SPCR'', [])
      else if is_w510 then (SKIPPED ''not work for W510'', [])
      else if acpi_table env = 0 then (SKIPPED ''cannot get ACPI Protocol'', [])
      else let (ret, tables) = install_spcr (fix_midr (main_fix env)) (main_install_ok env)
           in (outcome ret, map InstallTable tables))"

definition dsdt_step :: "'n main_env \<Rightarrow> (step_result \<times> event list) option" where
  "dsdt_step env =
     (if acpi_table env = 0 then Some (SKIPPED ''cannot get ACPI Protocol'', [])
      else map_option (\<lambda>(ret, tables). (outcome ret, map InstallTable tables))
             (fix_dsdt ((main_fix env)\<lparr>install_ok := main_install_ok env\<rparr>)))"

definition chainload_step :: "'n main_env \<Rightarrow> event list" where
  "chainload_step env =
     (let argv = main_argv env in
      if length argv = 0 \<or> (length argv > 1 \<and> argv ! 1 = ''chainload'')
      then snd (chainload_bootmgr (LocateProtocol env) (main_chain env)) else [])"

text \<open>The results of the four patch steps and all the events in order; \<open>main\<close> always returns 0.\<close>

definition tablesfix_main :: "'n main_env \<Rightarrow> (step_result list \<times> event list) option" where
  "tablesfix_main env =
     (case smbios_step env of
        None \<Rightarrow> None
      | Some (is_w510, cpus) \<Rightarrow>
          let flags = scan_config (fix_memory (main_fix env)) (acpi_guid env) (acpi2_guid env)
                        (fix_config (main_fix env));
              (pcct, ev1) = pcct_step env flags cpus;
              (dbg2, ev2) = dbg2_step env flags is_w510;
              (spcr, ev3) = spcr_step env flags is_w510
          in case dsdt_step env of
               None \<Rightarrow> None
             | Some (dsdt, ev4) \<Rightarrow>
                 Some ([pcct, dbg2, spcr, dsdt],
                   resolution_step env @ ev1 @ ev2 @ ev3 @ ev4 @ chainload_step env))"

section \<open>What the scan finds\<close>

text \<open>The addresses of the tables a configuration entry leads to: those of the XSDT of a valid RSDP.\<close>

definition entry_tables :: "memory \<Rightarrow> bytes \<Rightarrow> bytes \<Rightarrow> config_entry \<Rightarrow> u64 list" where
  "entry_tables m g1 g2 entry =
     (let rsdp = VendorTable entry; xsdt = rsdp_XsdtAddress m rsdp; n = unat (sdt_Length m xsdt) in
      if VendorGuid entry \<in> {g1, g2} \<and> mem_bytes m rsdp 8 = str ''RSD PTR '' \<and> rsdp_Revision m rsdp \<ge> 2 \<and>
         mem_bytes m xsdt 4 = str ''XSDT'' \<and> n \<ge> 36
      then map (xsdt_entry m xsdt) [0..<(n - 36) div 8] else [])"

definition acpi_tables :: "memory \<Rightarrow> bytes \<Rightarrow> bytes \<Rightarrow> config_entry list \<Rightarrow> u64 list" where
  "acpi_tables m g1 g2 config = concat (map (entry_tables m g1 g2) config)"

lemma scan_entry_tables: "scan_entry m g1 g2 entry flags = fold (note_table m) (entry_tables m g1 g2 entry) flags"
  by (auto simp: scan_entry_def entry_tables_def Let_def fold_map comp_def not_less
      EFI_ACPI_2_0_ROOT_SYSTEM_DESCRIPTION_POINTER_REVISION_def)

lemma scan_config_tables:
  "scan_config m g1 g2 config = fold (note_table m) (acpi_tables m g1 g2 config)
     \<lparr>has_pcct = False, has_spcr = False, has_dbg2 = False\<rparr>"
proof -
  have "fold (scan_entry m g1 g2) config flags = fold (note_table m) (acpi_tables m g1 g2 config) flags" for flags
    by (induction config arbitrary: flags) (simp_all add: acpi_tables_def scan_entry_tables)
  then show ?thesis by (simp add: scan_config_def)
qed

lemma note_tables_flags:
  "has_pcct (fold (note_table m) ts flags) \<longleftrightarrow> has_pcct flags \<or> 0x54434350 \<in> sdt_Signature m ` set ts"
  "has_dbg2 (fold (note_table m) ts flags) \<longleftrightarrow> has_dbg2 flags \<or> 0x32474244 \<in> sdt_Signature m ` set ts"
  "has_spcr (fold (note_table m) ts flags) \<longleftrightarrow> has_spcr flags \<or> 0x52435053 \<in> sdt_Signature m ` set ts"
  by (induction ts arbitrary: flags) (auto simp: note_table_def)

lemma scan_config_flags:
  "has_pcct (scan_config m g1 g2 config) \<longleftrightarrow> 0x54434350 \<in> sdt_Signature m ` set (acpi_tables m g1 g2 config)"
  "has_dbg2 (scan_config m g1 g2 config) \<longleftrightarrow> 0x32474244 \<in> sdt_Signature m ` set (acpi_tables m g1 g2 config)"
  "has_spcr (scan_config m g1 g2 config) \<longleftrightarrow> 0x52435053 \<in> sdt_Signature m ` set (acpi_tables m g1 g2 config)"
  by (simp_all add: scan_config_tables note_tables_flags)

section \<open>The tables a run installs\<close>

lemma ssdt_table_signature: "ssdt_table ok fresh root = Some (t, ret) \<Longrightarrow> table_signature t = 0x54445353"
proof -
  assume "ssdt_table ok fresh root = Some (t, ret)"
  then obtain buf body where buf: "buf_write (fresh (unat (of_nat sizeof_acpi_header + aml_node_size root))) 0
      (header_bytes (ssdt_header (aml_node_size root))) = Some buf" and t: "t = take sizeof_acpi_header buf @ body"
    by (auto simp: ssdt_table_def Let_def split: option.splits if_splits)
  have "take 36 buf = header_bytes (ssdt_header (aml_node_size root))"
    using buf_write_SomeD [OF buf] length_header_bytes [OF header_ok_ssdt] by simp
  then show ?thesis
    by (simp add: t) (simp add: ssdt_header_def)
qed

lemma fix_dsdt_tables:
  "fix_dsdt env = Some (ret, tables) \<Longrightarrow> length tables \<le> 1 \<and> (\<forall>t \<in> set tables. table_signature t = 0x54445353)"
  by (auto simp: fix_dsdt_def install_ssdt_def ssdt_table_signature split: option.splits prod.splits if_splits)

fun tables_of :: "u32 \<Rightarrow> event list \<Rightarrow> bytes list" where
  "tables_of sig [] = []"
| "tables_of sig (InstallTable t # evs) = (if table_signature t = sig then t # tables_of sig evs else tables_of sig evs)"
| "tables_of sig (e # evs) = tables_of sig evs"

lemma tables_of_append [simp]: "tables_of sig (xs @ ys) = tables_of sig xs @ tables_of sig ys"
  by (induction sig xs rule: tables_of.induct) simp_all

lemma tables_of_install [simp]: "tables_of sig (map InstallTable ts) = filter (\<lambda>t. table_signature t = sig) ts"
  by (induction ts) simp_all

lemma tables_of_uninstall [simp]: "tables_of sig (map UninstallTable ks) = []"
  by (induction ks) simp_all

text \<open>What the chain loader does, if anything: one image is loaded, and started when that succeeded.\<close>

lemma chainload_events:
  "snd (chainload_bootmgr locate env) = [] \<or>
     (\<exists>path dev_node ret handle. find (file_exists env) try_paths = Some path \<and> BS_OpenProtocol env = (0, dev_node) \<and>
        BS_LoadImage env (boot_path locate env path dev_node) = (ret, handle) \<and>
        snd (chainload_bootmgr locate env) =
          (if ret = 0 then [LoadImage (boot_path locate env path dev_node), StartImage handle]
           else [LoadImage (boot_path locate env path dev_node)]))"
  by (cases "find (file_exists env) try_paths"; cases "BS_OpenProtocol env")
    (auto simp: chainload_bootmgr_def Let_def split: prod.splits)

lemma chainload_step_events:
  "chainload_step env = [] \<or>
     (\<exists>path dev_node ret handle. find (file_exists (main_chain env)) try_paths = Some path \<and>
        BS_OpenProtocol (main_chain env) = (0, dev_node) \<and>
        BS_LoadImage (main_chain env) (boot_path (LocateProtocol env) (main_chain env) path dev_node) = (ret, handle) \<and>
        (main_argv env = [] \<or> (length (main_argv env) > 1 \<and> main_argv env ! 1 = ''chainload'')) \<and>
        chainload_step env =
          (if ret = 0 then [LoadImage (boot_path (LocateProtocol env) (main_chain env) path dev_node), StartImage handle]
           else [LoadImage (boot_path (LocateProtocol env) (main_chain env) path dev_node)]))"
  using chainload_events [of "LocateProtocol env" "main_chain env"] by (simp add: chainload_step_def Let_def)

lemma no_tables [simp]:
  "tables_of sig (resolution_step env) = []" "tables_of sig (chainload_step env) = []"
  using chainload_step_events [of env]
  by (auto simp: resolution_step_def Let_def split: option.splits prod.splits)

lemma static_signatures: "table_signature Dbg2 = 0x32474244" "table_signature Spcr = 0x52435053"
  unfolding Dbg2_image Spcr_image by code_simp+

text \<open>Whether the machine is the one the static tables describe.\<close>

definition is_hi1620 :: "'n main_env \<Rightarrow> bool" where
  "is_hi1620 env \<longleftrightarrow> fix_midr (main_fix env) AND 0xFFFFFFFF = 0x481fd010"

definition signatures :: "'n main_env \<Rightarrow> u32 set" where
  "signatures env = sdt_Signature (fix_memory (main_fix env)) `
     set (acpi_tables (fix_memory (main_fix env)) (acpi_guid env) (acpi2_guid env) (fix_config (main_fix env)))"

lemma step_tables:
  "tables_of sig (snd (pcct_step env flags cpus)) = []"
  "tables_of sig (snd (dbg2_step env flags w510)) =
     (if \<not> has_dbg2 flags \<and> \<not> w510 \<and> acpi_table env \<noteq> 0 \<and> is_hi1620 env \<and> sig = 0x32474244 then [Dbg2] else [])"
  "tables_of sig (snd (spcr_step env flags w510)) =
     (if \<not> has_spcr flags \<and> \<not> w510 \<and> acpi_table env \<noteq> 0 \<and> is_hi1620 env \<and> sig = 0x52435053 then [Spcr] else [])"
  by (simp_all add: pcct_step_def dbg2_step_def spcr_step_def install_dbg2_def install_spcr_def is_hi1620_def
      static_signatures split: prod.splits)

lemma dsdt_step_tables:
  assumes "dsdt_step env = Some (r, ev)"
  shows "sig \<noteq> 0x54445353 \<Longrightarrow> tables_of sig ev = []" "length (tables_of 0x54445353 ev) \<le> 1"
    and "acpi_table env = 0 \<Longrightarrow> ev = []"
proof -
  from assms consider "ev = []" | ret ts where "acpi_table env \<noteq> 0" "ev = map InstallTable ts"
      "fix_dsdt ((main_fix env)\<lparr>install_ok := main_install_ok env\<rparr>) = Some (ret, ts)"
    by (auto simp: dsdt_step_def split: if_splits)
  then have "(sig \<noteq> 0x54445353 \<longrightarrow> tables_of sig ev = []) \<and> length (tables_of 0x54445353 ev) \<le> 1 \<and>
      (acpi_table env = 0 \<longrightarrow> ev = [])"
  proof cases
    case (2 ret ts)
    then show ?thesis using fix_dsdt_tables [OF 2(3)] by (auto simp: filter_empty_conv)
  qed simp
  then show "sig \<noteq> 0x54445353 \<Longrightarrow> tables_of sig ev = []" "length (tables_of 0x54445353 ev) \<le> 1"
    "acpi_table env = 0 \<Longrightarrow> ev = []" by auto
qed

lemma run_steps:
  assumes "tablesfix_main env = Some (results, events)" "smbios_step env = Some (is_w510, cpus)"
  shows "\<exists>flags r ev. dsdt_step env = Some (r, ev) \<and>
    events = resolution_step env @ snd (pcct_step env flags cpus) @ snd (dbg2_step env flags is_w510)
      @ snd (spcr_step env flags is_w510) @ ev @ chainload_step env \<and>
    results = [fst (pcct_step env flags cpus), fst (dbg2_step env flags is_w510), fst (spcr_step env flags is_w510), r] \<and>
    (has_dbg2 flags \<longleftrightarrow> 0x32474244 \<in> signatures env) \<and> (has_spcr flags \<longleftrightarrow> 0x52435053 \<in> signatures env) \<and>
    (has_pcct flags \<longleftrightarrow> 0x54434350 \<in> signatures env)"
proof -
  define flags where "flags = scan_config (fix_memory (main_fix env)) (acpi_guid env) (acpi2_guid env)
    (fix_config (main_fix env))"
  have "(has_dbg2 flags \<longleftrightarrow> 0x32474244 \<in> signatures env) \<and> (has_spcr flags \<longleftrightarrow> 0x52435053 \<in> signatures env) \<and>
    (has_pcct flags \<longleftrightarrow> 0x54434350 \<in> signatures env)"
    by (simp add: flags_def signatures_def scan_config_flags)
  with assms show ?thesis
    by (intro exI [of _ flags])
      (auto simp: tablesfix_main_def Let_def flags_def [symmetric] split: option.splits prod.splits)
qed

lemma run_tables:
  assumes "tablesfix_main env = Some (results, events)" "smbios_step env = Some (is_w510, cpus)"
  shows "tables_of 0x32474244 events =
      (if 0x32474244 \<notin> signatures env \<and> \<not> is_w510 \<and> acpi_table env \<noteq> 0 \<and> is_hi1620 env then [Dbg2] else []) \<and>
    tables_of 0x52435053 events =
      (if 0x52435053 \<notin> signatures env \<and> \<not> is_w510 \<and> acpi_table env \<noteq> 0 \<and> is_hi1620 env then [Spcr] else []) \<and>
    length (tables_of 0x54445353 events) \<le> 1 \<and>
    (sig \<notin> {0x32474244, 0x52435053, 0x54445353} \<longrightarrow> tables_of sig events = [])"
proof -
  obtain flags r ev where "dsdt_step env = Some (r, ev)"
    "events = resolution_step env @ snd (pcct_step env flags cpus) @ snd (dbg2_step env flags is_w510)
      @ snd (spcr_step env flags is_w510) @ ev @ chainload_step env"
    "has_dbg2 flags \<longleftrightarrow> 0x32474244 \<in> signatures env" "has_spcr flags \<longleftrightarrow> 0x52435053 \<in> signatures env"
    using run_steps [OF assms] by blast
  then show ?thesis
    using dsdt_step_tables [of env r ev] by (simp add: step_tables)
qed

text \<open>
  C17. In every run, DBG2 is installed exactly when the firmware's tables contain none, the board is not
  a W510, the ACPI protocol exists and the CPU is the Hi1620, and then once and unchanged; SPCR likewise
  with its own signature; at most one SSDT is installed, and a table with any other signature never.
\<close>

theorem tablesfix_installs:
  assumes "tablesfix_main env = Some (results, events)" "smbios_step env = Some (is_w510, cpus)"
  shows "tables_of 0x32474244 events =
      (if 0x32474244 \<notin> signatures env \<and> \<not> is_w510 \<and> acpi_table env \<noteq> 0 \<and> is_hi1620 env then [Dbg2] else []) \<and>
    tables_of 0x52435053 events =
      (if 0x52435053 \<notin> signatures env \<and> \<not> is_w510 \<and> acpi_table env \<noteq> 0 \<and> is_hi1620 env then [Spcr] else []) \<and>
    length (tables_of 0x54445353 events) \<le> 1 \<and>
    (sig \<notin> {0x32474244, 0x52435053, 0x54445353} \<longrightarrow> tables_of sig events = [])"
  by (rule run_tables [OF assms])

text \<open>A Hi1620 without any ACPI table and with a namespace that cannot be loaded.\<close>

definition test_locate :: locate_service where
  "test_locate guid =
     (if guid \<in> {EFI_ACPI_TABLE_PROTOCOL_GUID, EFI_ACPI_SDT_PROTOCOL_GUID, EFI_DEVICE_PATH_FROM_TEXT_PROTOCOL_GUID,
           EFI_DEVICE_PATH_TO_TEXT_PROTOCOL_GUID, EFI_DEVICE_PATH_UTILITIES_PROTOCOL_GUID}
      then (0, 0x10) else (14, 0))"

definition test_chain :: chain_env where
  "test_chain = \<lparr>file_exists = (\<lambda>p. last p = CHR ''i''), BS_OpenProtocol = (0, 0x500),
     from_text_at = (\<lambda>_. \<lparr>ConvertTextToDevicePath = (\<lambda>path. 0x600 + of_nat (length path))\<rparr>),
     utilities_at = (\<lambda>_. \<lparr>AppendDevicePath = (\<lambda>p q. p + q)\<rparr>),
     BS_LoadImage = (\<lambda>p. (0, p + 1)), BS_StartImage = (\<lambda>h. 0)\<rparr>"

definition test_main :: "nat main_env" where
  "test_main =
     \<lparr>main_argv = [''tablesfix.efi'', ''chainload''], LocateProtocol = test_locate, efi_error = (\<lambda>st. st \<noteq> 0),
      gop_guid = \<lparr>Data1 = 0x9042a9de, Data2 = 0, Data3 = 0, Data4 = replicate 8 0\<rparr>,
      acpi_guid = replicate 16 1, acpi2_guid = replicate 16 2,
      gop_at = (\<lambda>_. \<lparr>MaxMode = 1, QueryMode = (\<lambda>_. None), SetMode_ok = (\<lambda>_. True), PixelBitMask = 2\<rparr>),
      smbios_at = (\<lambda>_. \<lparr>GetNext = (\<lambda>h t. if t = 1 then (0, 1, 0x1000) else (14, 0xFFFE, 0))\<rparr>),
      acpi_table_at = (\<lambda>_. \<lparr>InstallAcpiTable = (\<lambda>t. 0), UninstallAcpiTable = (\<lambda>k. 0)\<rparr>),
      acpi_sdt_at = (\<lambda>_. \<lparr>GetAcpiTable = (\<lambda>i. if i = 0 then (0, 0x300, 7) else (14, 0, 0))\<rparr>),
      main_fix = test_fix\<lparr>fix_midr := 0x481fd010, load_ok := False\<rparr>, main_chain = test_chain\<rparr>"

lemma test_locate_eq:
  "test_locate EFI_ACPI_TABLE_PROTOCOL_GUID = (0, 0x10)" "test_locate EFI_ACPI_SDT_PROTOCOL_GUID = (0, 0x10)"
  "test_locate EFI_DEVICE_PATH_FROM_TEXT_PROTOCOL_GUID = (0, 0x10)"
  "test_locate EFI_DEVICE_PATH_TO_TEXT_PROTOCOL_GUID = (0, 0x10)"
  "test_locate EFI_DEVICE_PATH_UTILITIES_PROTOCOL_GUID = (0, 0x10)" "test_locate EFI_SMBIOS_PROTOCOL_GUID = (14, 0)"
  by (simp_all add: test_locate_def) (simp add: protocol_guids)

lemmas test_main_simps = test_main_def test_locate_eq acpi_table_def acpi_sdt_def

lemma test_main_smbios: "smbios_step test_main = Some (False, 0)"
  by (simp add: smbios_step_def test_main_simps)

lemma test_main_signatures: "signatures test_main = {}"
  by (simp add: signatures_def test_main_def test_fix_def acpi_tables_def)

lemma online_ddrcs_install [simp]: "online_ddrcs (env\<lparr>install_ok := f\<rparr>) = online_ddrcs env"
  by (simp add: online_ddrcs_def cong: if_cong)

lemma dsdt_step_load_fails:
  "acpi_table env \<noteq> 0 \<Longrightarrow> online_ddrcs (main_fix env) = Some online \<Longrightarrow> \<not> load_ok (main_fix env) \<Longrightarrow>
     dsdt_step env = Some (FAILED, [])"
  by (simp add: dsdt_step_def fix_dsdt_def outcome_def)

lemma test_main_run: "tablesfix_main test_main \<noteq> None"
proof -
  have "online_ddrcs (main_fix test_main) = Some (replicate 16 0)" by code_simp
  then have "dsdt_step test_main = Some (FAILED, [])"
    by (rule dsdt_step_load_fails [rotated]) (simp_all add: test_main_simps)
  then show ?thesis
    by (simp add: tablesfix_main_def test_main_smbios Let_def split: prod.splits)
qed

theorem tablesfix_installs_witness:
  "\<exists>results events. tablesfix_main test_main = Some (results, events) \<and>
     tables_of 0x32474244 events = [Dbg2] \<and> tables_of 0x52435053 events = [Spcr]"
proof -
  obtain results events where run: "tablesfix_main test_main = Some (results, events)"
    using test_main_run by auto
  have "acpi_table test_main \<noteq> 0" "is_hi1620 test_main" by (simp_all add: test_main_simps is_hi1620_def)
  then show ?thesis
    using tablesfix_installs [OF run test_main_smbios, of 0] run test_main_signatures by simp
qed

fun uninstalled_keys :: "event list \<Rightarrow> u64 list" where
  "uninstalled_keys [] = []"
| "uninstalled_keys (UninstallTable k # evs) = k # uninstalled_keys evs"
| "uninstalled_keys (e # evs) = uninstalled_keys evs"

lemma uninstalled_keys_append [simp]: "uninstalled_keys (xs @ ys) = uninstalled_keys xs @ uninstalled_keys ys"
  by (induction xs rule: uninstalled_keys.induct) simp_all

lemma uninstalled_keys_map [simp]:
  "uninstalled_keys (map UninstallTable ks) = ks" "uninstalled_keys (map InstallTable ts) = []"
  by (induction ks, simp_all) (induction ts, simp_all)

lemma step_uninstalls:
  "uninstalled_keys (resolution_step env) = []" "uninstalled_keys (chainload_step env) = []"
  "uninstalled_keys (snd (dbg2_step env flags w510)) = []" "uninstalled_keys (snd (spcr_step env flags w510)) = []"
  "dsdt_step env = Some (r, ev) \<Longrightarrow> uninstalled_keys ev = []"
  using chainload_step_events [of env]
  by (auto simp: resolution_step_def dbg2_step_def spcr_step_def dsdt_step_def Let_def
      split: option.splits prod.splits if_splits)

text \<open>
  C18. A run uninstalls a table exactly when at most one processor was counted, the firmware's tables
  contain PCCT, and both ACPI protocols exist: the key of the first PCCT that the enumeration reaches,
  once, and no other.
\<close>

theorem tablesfix_uninstalls:
  assumes "tablesfix_main env = Some (results, events)" "smbios_step env = Some (is_w510, cpus)"
  shows "set (uninstalled_keys events) =
      (if unat cpus \<le> 1 \<and> 0x54434350 \<in> signatures env \<and> acpi_table env \<noteq> 0 \<and> acpi_sdt env \<noteq> 0
       then {key. \<exists>i<256. main_get_table env i = Some (0x54434350, key) \<and> listed_before (main_get_table env) i}
       else {}) \<and>
    length (uninstalled_keys events) \<le> 1"
proof -
  obtain flags r ev where run: "dsdt_step env = Some (r, ev)"
    "events = resolution_step env @ snd (pcct_step env flags cpus) @ snd (dbg2_step env flags is_w510)
      @ snd (spcr_step env flags is_w510) @ ev @ chainload_step env"
    "has_pcct flags \<longleftrightarrow> 0x54434350 \<in> signatures env"
    using run_steps [OF assms] by blast
  then have "uninstalled_keys events = uninstalled_keys (snd (pcct_step env flags cpus))"
    by (simp add: step_uninstalls)
  moreover have "cpus > 1 \<longleftrightarrow> \<not> unat cpus \<le> 1" by (simp add: word_less_nat_alt not_le)
  ultimately show ?thesis
    using pcct_first [of "main_get_table env" "main_uninstall_ok env"] run(3)
    by (cases "uinstall_pcct (main_get_table env) (main_uninstall_ok env)") (simp add: pcct_step_def)
qed

text \<open>The same machine with an RSDP at 0x100 that leads to an XSDT with a PCCT.\<close>

definition acpi_example :: memory where
  "acpi_example = mem_write (mem_write (mem_write (mem_write (mem_write (mem_write (\<lambda>a. 0)
     0x100 (str ''RSD PTR '')) 0x10f [2]) 0x118 [0, 2]) 0x200 (str ''XSDT'' @ [44])) 0x224 [0, 3])
     0x300 (str ''PCCT'')"

definition test_main_pcct :: "nat main_env" where
  "test_main_pcct = test_main
     \<lparr>main_fix := test_fix\<lparr>load_ok := False, fix_memory := acpi_example,
        fix_config := [\<lparr>VendorGuid = replicate 16 2, VendorTable = 0x100\<rparr>]\<rparr>\<rparr>"

lemma pcct_example_signatures: "signatures test_main_pcct = {0x54434350}"
proof -
  have "mem_bytes acpi_example 0x100 8 = str ''RSD PTR ''" "mem_bytes acpi_example 0x200 4 = str ''XSDT''"
    "acpi_example 0x10f = 2" "load64 acpi_example 0x118 = (0x200 :: u64)" "load32 acpi_example 0x204 = (44 :: u32)"
    "load64 acpi_example 0x224 = (0x300 :: u64)" "load32 acpi_example 0x300 = (0x54434350 :: u32)"
    by (simp_all add: acpi_example_def mem_eval str_def)
  moreover from this have "entry_tables acpi_example (replicate 16 1) (replicate 16 2)
      \<lparr>VendorGuid = replicate 16 2, VendorTable = 0x100\<rparr> = [0x300]"
    by (simp add: entry_tables_def table_accessors xsdt_entry_def Let_def)
  ultimately show ?thesis
    by (simp add: signatures_def acpi_tables_def sdt_Signature_def test_main_pcct_def test_main_def)
qed

lemma pcct_example_run: "smbios_step test_main_pcct = Some (False, 0)" "tablesfix_main test_main_pcct \<noteq> None"
proof -
  show smbios: "smbios_step test_main_pcct = Some (False, 0)"
    by (simp add: smbios_step_def test_main_simps test_main_pcct_def)
  have "online_ddrcs (main_fix test_main_pcct) = Some (replicate 16 0)" by code_simp
  then have "dsdt_step test_main_pcct = Some (FAILED, [])"
    by (rule dsdt_step_load_fails [rotated]) (simp_all add: test_main_simps test_main_pcct_def)
  then show "tablesfix_main test_main_pcct \<noteq> None"
    by (simp add: tablesfix_main_def smbios Let_def split: prod.splits)
qed

theorem tablesfix_uninstalls_witness:
  "\<exists>results events. tablesfix_main test_main_pcct = Some (results, events) \<and> set (uninstalled_keys events) = {7}"
proof -
  obtain results events where run: "tablesfix_main test_main_pcct = Some (results, events)"
    using pcct_example_run by auto
  have "load32 acpi_example 0x300 = (0x54434350 :: u32)" by (simp add: acpi_example_def mem_eval str_def)
  then have "main_get_table test_main_pcct i = (if i = 0 then Some (0x54434350, 7) else None)" for i
    by (simp add: main_get_table_def sdt_Signature_def test_main_pcct_def test_main_simps)
  then have "{key. \<exists>i<256. main_get_table test_main_pcct i = Some (0x54434350, key)
      \<and> listed_before (main_get_table test_main_pcct) i} = {7}"
    by (auto simp: listed_before_def split: if_splits intro!: exI [of _ 0])
  moreover have "acpi_table test_main_pcct \<noteq> 0" "acpi_sdt test_main_pcct \<noteq> 0"
    by (simp_all add: test_main_pcct_def test_main_simps)
  ultimately show ?thesis
    using tablesfix_uninstalls [OF run pcct_example_run(1)] run pcct_example_signatures by simp
qed

section \<open>The order of a run\<close>

text \<open>The events of a run: those of the steps, none of which loads or starts an image, and then the chain loader's.\<close>

definition patching :: "event list \<Rightarrow> bool" where
  "patching evs \<longleftrightarrow> (\<forall>a. LoadImage a \<notin> set evs \<and> StartImage a \<notin> set evs)"

lemma patching_simps [simp]:
  "patching []" "patching (xs @ ys) \<longleftrightarrow> patching xs \<and> patching ys"
  "patching (map InstallTable ts)" "patching (map UninstallTable ks)" "patching [SetVideoMode mode]"
  by (auto simp: patching_def)

lemma step_patching:
  "patching (resolution_step env)" "patching (snd (pcct_step env flags cpus))"
  "patching (snd (dbg2_step env flags w510))" "patching (snd (spcr_step env flags w510))"
  by (simp_all add: resolution_step_def pcct_step_def dbg2_step_def spcr_step_def split: option.split prod.split)

lemma dsdt_step_patching: "dsdt_step env = Some (r, ev) \<Longrightarrow> patching ev"
  by (auto simp: dsdt_step_def split: if_splits)

lemma smbios_returned: "tablesfix_main env = Some (results, events) \<Longrightarrow> \<exists>w cpus. smbios_step env = Some (w, cpus)"
  by (cases "smbios_step env") (auto simp: tablesfix_main_def)

lemma run_order:
  assumes "tablesfix_main env = Some (results, events)"
  shows "\<exists>patches. events = patches @ chainload_step env \<and> patching patches"
proof -
  obtain w cpus where smbios: "smbios_step env = Some (w, cpus)" using smbios_returned [OF assms] by blast
  obtain flags r ev where "dsdt_step env = Some (r, ev)" and
    "events = resolution_step env @ snd (pcct_step env flags cpus) @ snd (dbg2_step env flags w)
      @ snd (spcr_step env flags w) @ ev @ chainload_step env"
    using run_steps [OF assms smbios] by blast
  then show ?thesis
    by (intro exI [of _ "resolution_step env @ snd (pcct_step env flags cpus) @ snd (dbg2_step env flags w)
      @ snd (spcr_step env flags w) @ ev"]) (simp add: step_patching dsdt_step_patching)
qed

text \<open>
  C19. In a run that starts an image, the start is the last event and the only one: it follows the load of the same
  image, which succeeded, everything else is done before, and the program was asked to (by the argument
  \<open>chainload\<close>, or by the absence of arguments). The image is the first existing path of the list, appended to the
  device that the program was loaded from.
\<close>

theorem chainload_order:
  assumes "tablesfix_main env = Some (results, events)" "StartImage handle \<in> set events"
  shows "\<exists>patches path dev_node dev_path.
    events = patches @ [LoadImage dev_path, StartImage handle] \<and> patching patches \<and>
    find (file_exists (main_chain env)) try_paths = Some path \<and> BS_OpenProtocol (main_chain env) = (0, dev_node) \<and>
    dev_path = boot_path (LocateProtocol env) (main_chain env) path dev_node \<and>
    BS_LoadImage (main_chain env) dev_path = (0, handle) \<and>
    (main_argv env = [] \<or> (length (main_argv env) > 1 \<and> main_argv env ! 1 = ''chainload''))"
proof -
  obtain patches where p: "events = patches @ chainload_step env" "patching patches"
    using run_order [OF assms(1)] by blast
  then have "StartImage handle \<in> set (chainload_step env)" using assms(2) by (auto simp: patching_def)
  then show ?thesis
    using chainload_step_events [of env] p by (auto split: if_splits)
qed

lemma test_run_starts: "chainload_step test_main = [LoadImage 0xb20, StartImage 0xb21]"
  by code_simp

theorem chainload_order_witness:
  "\<exists>results events. tablesfix_main test_main = Some (results, events) \<and>
     (\<exists>patches. events = patches @ [LoadImage 0xb20, StartImage 0xb21] \<and> patching patches)"
proof -
  obtain results events where run: "tablesfix_main test_main = Some (results, events)"
    using test_main_run by auto
  moreover have "StartImage 0xb21 \<in> set events"
    using run_order [OF run] by (auto simp: test_run_starts)
  ultimately show ?thesis
    using chainload_order [OF run] run_order [OF run] by (auto simp: test_run_starts)
qed

text \<open>
  On a machine whose SMBIOS gives a type 1 structure with a well-formed set of strings, of which the product
  name contains \<open>W510\<close> or \<open>PGU-WBY0\<close>, a run installs neither DBG2 nor SPCR, whatever tables and protocols the
  firmware has.
\<close>

theorem w510_left_alone:
  assumes "tablesfix_main env = Some (results, events)"
    and "LocateProtocol env EFI_SMBIOS_PROTOCOL_GUID = (0, smbios)" "smbios \<noteq> 0"
    and "smbios_record (smbios_at env smbios) 1 = Some dm" "dmi_strings (fix_memory (main_fix env)) dm ss"
    and "n = unat (fix_memory (main_fix env) (dm + 5))" "1 \<le> n" "n \<le> length ss"
    and "ss ! (n - 1) = pre @ name @ post" "name \<in> {str ''W510'', str ''PGU-WBY0''}"
  shows "tables_of 0x32474244 events = [] \<and> tables_of 0x52435053 events = []"
proof -
  have "detect_w510 (fix_memory (main_fix env)) (Some dm) = Some True"
    using detect_w510_correct [OF assms(5,6)] assms(7-10) by auto
  moreover obtain w cpus where smbios: "smbios_step env = Some (w, cpus)"
    using smbios_returned [OF assms(1)] by blast
  ultimately have "w"
    using assms(2-4) by (auto simp: smbios_step_def smbios_info_def split: option.splits)
  then show ?thesis using run_tables [OF assms(1) smbios] by simp
qed

text \<open>The Hi1620 again, now with the SMBIOS of \<open>dmi_example\<close>, whose product is \<open>PGU-WBY0 B\<close>.\<close>

definition test_main_w510 :: "nat main_env" where
  "test_main_w510 = test_main
     \<lparr>LocateProtocol := test_locate(EFI_SMBIOS_PROTOCOL_GUID := (0, 0x40)),
      main_fix := test_fix\<lparr>fix_midr := 0x481fd010, load_ok := False, fix_memory := dmi_example\<rparr>\<rparr>"

lemma test_main_w510_record: "smbios_record (smbios_at test_main_w510 0x40) 1 = Some 0x1000"
  "smbios_record (smbios_at test_main_w510 0x40) 0 = None"
  by (simp_all add: smbios_record_def test_main_w510_def test_main_def)

lemma test_main_w510_run: "tablesfix_main test_main_w510 \<noteq> None"
proof -
  have mem: "fix_memory (main_fix test_main_w510) = dmi_example" by (simp add: test_main_w510_def)
  have "count_cpus (\<lambda>h. case GetNext (smbios_at test_main_w510 0x40) h 4 of
      (ret, smbios_handle, smbios_table) \<Rightarrow> (smbios_handle, ret = 0 \<and> smbios_table \<noteq> 0)) 0xFFFE 0 = Some 0"
    by (subst count_cpus.simps) (simp add: test_main_w510_def test_main_def)
  moreover have "LocateProtocol test_main_w510 EFI_SMBIOS_PROTOCOL_GUID = (0, 0x40)" by (simp add: test_main_w510_def)
  ultimately have smbios: "smbios_step test_main_w510 = Some (True, 0)"
    using detect_w510_correct_witness
    by (simp add: smbios_step_def smbios_info_def mem test_main_w510_record bios_lines_def system_lines_def
        show_strings_eq [OF dmi_example_strings] del: show_strings.simps)
  have "online_ddrcs (main_fix test_main_w510) = Some (replicate 16 0)"
    by (simp add: online_ddrcs_def hob_get_online_ddrcs_def test_main_w510_def test_fix_def MAX_SOCKET_def MAX_CHANNEL_def)
  then have "dsdt_step test_main_w510 = Some (FAILED, [])"
    by (rule dsdt_step_load_fails [rotated])
      (simp_all add: test_main_w510_def test_main_simps test_locate_def protocol_guids)
  then show ?thesis using smbios by (auto simp: tablesfix_main_def Let_def split: prod.splits)
qed

theorem w510_left_alone_witness:
  "\<exists>results events. tablesfix_main test_main_w510 = Some (results, events) \<and>
     tables_of 0x32474244 events = [] \<and> tables_of 0x52435053 events = []"
proof -
  obtain results events where run: "tablesfix_main test_main_w510 = Some (results, events)"
    using test_main_w510_run by auto
  have n: "2 = unat (dmi_example (0x1000 + 5))" by (simp add: dmi_example_def mem_write_def str_def)
  have mem: "fix_memory (main_fix test_main_w510) = dmi_example"
    "LocateProtocol test_main_w510 EFI_SMBIOS_PROTOCOL_GUID = (0, 0x40)" by (simp_all add: test_main_w510_def)
  have "[str ''Huawei'', str ''PGU-WBY0 B''] ! (2 - 1) = [] @ str ''PGU-WBY0'' @ str '' B''" by (simp add: str_def)
  from w510_left_alone [OF run mem(2) _ test_main_w510_record(1) _ _ _ _ this, unfolded mem, OF _ dmi_example_strings n]
  show ?thesis using run by simp
qed

text \<open>
  C17. When the firmware stores no interface for the ACPI table protocol, the four patch steps are all skipped, no
  table is installed or removed, and the run still goes on to the boot manager.
\<close>

theorem no_acpi_protocol:
  assumes "tablesfix_main env = Some (results, events)" "snd (LocateProtocol env EFI_ACPI_TABLE_PROTOCOL_GUID) = 0"
  shows "list_all (\<lambda>r. \<exists>reason. r = SKIPPED reason) results \<and> uninstalled_keys events = [] \<and>
    (\<forall>sig. tables_of sig events = []) \<and> events = resolution_step env @ chainload_step env"
proof -
  have none: "acpi_table env = 0" using assms(2) by (simp add: acpi_table_def)
  obtain w cpus where smbios: "smbios_step env = Some (w, cpus)"
    using smbios_returned [OF assms(1)] by blast
  obtain flags r ev where "dsdt_step env = Some (r, ev)"
    "events = resolution_step env @ snd (pcct_step env flags cpus) @ snd (dbg2_step env flags w)
      @ snd (spcr_step env flags w) @ ev @ chainload_step env"
    "results = [fst (pcct_step env flags cpus), fst (dbg2_step env flags w), fst (spcr_step env flags w), r]"
    using run_steps [OF assms(1) smbios] by blast
  then show ?thesis
    using none by (auto simp: pcct_step_def dbg2_step_def spcr_step_def dsdt_step_def step_uninstalls)
qed

theorem no_acpi_protocol_witness:
  "\<exists>results. tablesfix_main (test_main\<lparr>LocateProtocol := (\<lambda>_. (14, 0)), main_argv := [''tablesfix.efi'']\<rparr>)
     = Some (results, []) \<and> list_all (\<lambda>r. \<exists>reason. r = SKIPPED reason) results"
proof -
  let ?env = "test_main\<lparr>LocateProtocol := (\<lambda>_. (14, 0)), main_argv := [''tablesfix.efi'']\<rparr>"
  have "smbios_step ?env = Some (False, 0)" "acpi_table ?env = 0" by (simp_all add: smbios_step_def acpi_table_def)
  then have "tablesfix_main ?env \<noteq> None" by (simp add: tablesfix_main_def dsdt_step_def Let_def split: prod.splits)
  then obtain results events where run: "tablesfix_main ?env = Some (results, events)" by auto
  moreover have "resolution_step ?env = []" "chainload_step ?env = []"
    by (simp_all add: resolution_step_def chainload_step_def test_main_def)
  ultimately show ?thesis using no_acpi_protocol [OF run] by simp
qed

end
