(* ===== verification/AmlTyping.thy ===== *)
theory AmlTyping imports SsdtTree begin

text \<open>
  The grammar of the AML that \<open>aml.c\<close> can write: which kind of term a node is (\<open>aml_typed\<close>, the rules of the
  ACPI specification for the opcodes that \<open>aml.h\<close> names) and a reader of whole term lists (\<open>read_terms\<close>). A
  well-typed tree is serialized to bytes that read back as the tree; the trees of \<open>fix_dsdt\<close> are well typed when
  their allocations succeed, and are not when the allocation of a data node fails.
\<close>

unbundle bit_operations_syntax

section \<open>The kinds of term\<close>

datatype aml_kind = Name_String | Byte_Data | Term_Arg | Term_Obj | Term_List

text \<open>The value of a Name: \<open>ZeroOp\<close>, or a string with its prefix and its NUL.\<close>

fun data_object :: "bytes \<Rightarrow> bool" where
  "data_object [] \<longleftrightarrow> False"
| "data_object (b # bs) \<longleftrightarrow> (if b = 0x0d then bs \<noteq> [] \<and> last bs = 0 \<and> 0 \<notin> set (butlast bs) else b = 0 \<and> bs = [])"

inductive aml_typed :: "aml_node \<Rightarrow> aml_kind \<Rightarrow> bool" where
  name: "devpath_ok s \<Longrightarrow> aml_typed (aml_DATA s) Name_String"
| byte: "aml_typed (aml_DATA [v]) Byte_Data"
| zero: "aml_typed (aml_NODE AML_OPCODE_ZeroOp []) Term_Arg"
| named: "length seg = 4 \<Longrightarrow> data_object d \<Longrightarrow> aml_typed (aml_DATA ([0x08] @ seg @ d)) Term_Obj"
| external: "aml_typed n Name_String \<Longrightarrow> aml_typed t Byte_Data \<Longrightarrow> aml_typed c Byte_Data \<Longrightarrow>
    aml_typed (aml_NODE AML_OPCODE_ExternalOp [n, t, c]) Term_Obj"
| scope: "aml_typed n Name_String \<Longrightarrow> \<forall>t \<in> set ts. aml_typed t Term_Obj \<Longrightarrow>
    aml_typed (aml_NODE AML_OPCODE_ScopeOp (n # ts)) Term_Obj"
| cond: "aml_typed p Term_Arg \<Longrightarrow> \<forall>t \<in> set ts. aml_typed t Term_Obj \<Longrightarrow>
    aml_typed (aml_NODE AML_OPCODE_IfOp (p # ts)) Term_Obj"
| root: "\<forall>t \<in> set ts. aml_typed t Term_Obj \<Longrightarrow> aml_typed (aml_NODE AML_OPCODE__ROOT ts) Term_List"

inductive_cases typed_nameE: "aml_typed n Name_String"
inductive_cases typed_byteE: "aml_typed n Byte_Data"
inductive_cases typed_argE: "aml_typed n Term_Arg"
inductive_cases typed_listE: "aml_typed n Term_List"
inductive_simps typed_NULL [simp]: "aml_typed aml_NULL k"
inductive_simps typed_DATA: "aml_typed (aml_DATA d) k"
inductive_simps typed_NODE: "aml_typed (aml_NODE op kids) k"

section \<open>The reader\<close>

text \<open>The value of a Name at the start of the bytes, and what follows.\<close>

definition split_data :: "bytes \<Rightarrow> (bytes \<times> bytes) option" where
  "split_data bs =
     (if bs = [] then None
      else if hd bs = 0x0d then
        (let s = takeWhile (\<lambda>b. b \<noteq> 0) bs in
         if length s < length bs then Some (s @ [0], drop (length s + 1) bs) else None)
      else if hd bs = 0 then Some ([0], tl bs) else None)"

fun read_terms :: "nat \<Rightarrow> bytes \<Rightarrow> aml_node list option" where
  "read_terms fuel [] = Some []"
| "read_terms 0 (b # bs) = None"
| "read_terms (Suc fuel) (b # bs) =
     (if b = 0x08 then
        if length bs < 4 then None
        else case split_data (drop 4 bs) of
            None \<Rightarrow> None
          | Some (d, rest) \<Rightarrow> map_option ((#) (aml_DATA ([0x08] @ take 4 bs @ d))) (read_terms fuel rest)
      else if b = 0x15 then
        case parse_name bs of
            None \<Rightarrow> None
          | Some (n, rest) \<Rightarrow>
              if length rest < 2 then None
              else map_option ((#) (aml_NODE AML_OPCODE_ExternalOp [aml_DATA n, aml_DATA [rest ! 0], aml_DATA [rest ! 1]]))
                     (read_terms fuel (drop 2 rest))
      else if b = 0x10 then
        case split_pkg bs of
            None \<Rightarrow> None
          | Some (body, rest) \<Rightarrow>
              (case parse_name body of
                 None \<Rightarrow> None
               | Some (n, inner) \<Rightarrow>
                   (case read_terms fuel inner of
                      None \<Rightarrow> None
                    | Some ts \<Rightarrow>
                        map_option ((#) (aml_NODE AML_OPCODE_ScopeOp (aml_DATA n # ts))) (read_terms fuel rest)))
      else if b = 0xa0 then
        case split_pkg bs of
            None \<Rightarrow> None
          | Some (body, rest) \<Rightarrow>
              if take 1 body \<noteq> [0] then None
              else (case read_terms fuel (drop 1 body) of
                      None \<Rightarrow> None
                    | Some ts \<Rightarrow>
                        map_option ((#) (aml_NODE AML_OPCODE_IfOp (aml_NODE AML_OPCODE_ZeroOp [] # ts)))
                          (read_terms fuel rest))
      else None)"

section \<open>Well-typed trees read back\<close>

lemma data_objectE:
  assumes "data_object d"
  obtains "d = [0]" | s where "d = 0x0d # s @ [0]" "0 \<notin> set s"
proof (cases d)
  case (Cons b bs)
  show thesis
  proof (cases "b = 0x0d")
    case True
    then have "bs \<noteq> []" "last bs = 0" "0 \<notin> set (butlast bs)" using assms Cons by auto
    then have "bs = butlast bs @ [0]" "0 \<notin> set (butlast bs)" using append_butlast_last_id [of bs] by auto
    then show thesis using that(2) [of "butlast bs"] Cons True by simp
  qed (use assms Cons that(1) in simp)
qed (use assms in simp)

lemma split_data_append: "data_object d \<Longrightarrow> split_data (d @ rest) = Some (d, rest)"
proof (erule data_objectE)
  fix s :: bytes
  assume d: "d = 0x0d # s @ [0]" and s: "0 \<notin> set s"
  then have "takeWhile (\<lambda>b. b \<noteq> 0) (s @ 0 # rest) = s" by (subst takeWhile_append2) auto
  then show ?thesis by (simp add: split_data_def d)
qed (simp add: split_data_def)

lemma typed_name_enc: "aml_typed n Name_String \<Longrightarrow> \<exists>s. n = aml_DATA s \<and> aml_enc n = Some s \<and> devpath_ok s"
  by (erule typed_nameE) simp

lemma typed_byte_enc: "aml_typed n Byte_Data \<Longrightarrow> \<exists>b. n = aml_DATA [b] \<and> aml_enc n = Some [b]"
  by (erule typed_byteE) simp

lemma typed_arg_enc: "aml_typed n Term_Arg \<Longrightarrow> n = aml_NODE AML_OPCODE_ZeroOp [] \<and> aml_enc n = Some [0]"
  by (erule typed_argE) (simp add: enc_simps)

text \<open>\<open>reads t bs\<close>: the term \<open>t\<close> is encoded as \<open>bs\<close>, and is read from there whatever terms follow.\<close>

definition reads :: "aml_node \<Rightarrow> bytes \<Rightarrow> bool" where
  "reads t bs \<longleftrightarrow> aml_enc t = Some bs \<and> bs \<noteq> [] \<and>
     (length bs < 2 ^ 28 \<longrightarrow> (\<forall>fuel rest ts. length (bs @ rest) \<le> fuel \<longrightarrow>
        (\<forall>f. length rest \<le> f \<longrightarrow> read_terms f rest = Some ts) \<longrightarrow> read_terms fuel (bs @ rest) = Some (t # ts)))"

lemma reads_list:
  assumes "\<forall>t \<in> set ts. \<exists>bs. reads t bs"
  shows "\<exists>bs. aml_enc_list ts = Some bs \<and>
    (length bs < 2 ^ 28 \<longrightarrow> (\<forall>fuel. length bs \<le> fuel \<longrightarrow> read_terms fuel bs = Some ts))"
  using assms
proof (induction ts)
  case (Cons t ts)
  then obtain b bs where b: "reads t b" and bs: "aml_enc_list ts = Some bs"
      "length bs < 2 ^ 28 \<longrightarrow> (\<forall>fuel. length bs \<le> fuel \<longrightarrow> read_terms fuel bs = Some ts)" by auto
  have "read_terms fuel (b @ bs) = Some (t # ts)" if "length (b @ bs) < 2 ^ 28" "length (b @ bs) \<le> fuel" for fuel
    using b bs(2) that unfolding reads_def by auto
  then show ?case using b bs(1) by (auto simp: reads_def)
qed simp

lemma pkg_length:
  assumes "length (pkg body) < 2 ^ 28"
  shows "length body + 4 < 2 ^ 28" "length body < length (pkg body)"
proof -
  have len: "length (pkg body) = pkg_width (length body) + length body"
    using length_aml_pkglength [of "length body"] assms by (simp add: pkg_def)
  show "length body + 4 < 2 ^ 28"
  proof (cases "length body + 3 < 2 ^ 20")
    case False
    then have "pkg_width (length body) = 4" by (simp add: pkg_width_def)
    then show ?thesis using len assms by simp
  qed simp
  show "length body < length (pkg body)" using len by (simp add: pkg_width_def)
qed

text \<open>A term in a package: how the reader goes on after splitting the package off.\<close>

lemma reads_pkg:
  assumes enc: "aml_enc t = Some ([opb] @ pkg body)"
    and read: "\<And>fuel rest ts. length body < 2 ^ 28 \<Longrightarrow> length body \<le> fuel \<Longrightarrow>
      read_terms fuel rest = Some ts \<Longrightarrow> split_pkg (pkg body @ rest) = Some (body, rest) \<Longrightarrow>
      read_terms (Suc fuel) (opb # pkg body @ rest) = Some (t # ts)"
  shows "\<exists>bs. reads t bs"
proof (intro exI)
  have "read_terms fuel (([opb] @ pkg body) @ rest) = Some (t # ts)"
    if small: "length ([opb] @ pkg body) < 2 ^ 28" and fuel: "length (([opb] @ pkg body) @ rest) \<le> fuel"
      and rest: "\<forall>f. length rest \<le> f \<longrightarrow> read_terms f rest = Some ts" for fuel rest ts
  proof -
    from fuel obtain f where f: "fuel = Suc f" "length (pkg body @ rest) \<le> f" by (cases fuel) auto
    have "length body + 4 < 2 ^ 28" "length body < length (pkg body)" using pkg_length [of body] small by simp_all
    then have "read_terms (Suc f) (opb # pkg body @ rest) = Some (t # ts)"
      using f(2) rest split_pkg_pkg by (intro read) auto
    then show ?thesis by (simp add: f(1))
  qed
  then show "reads t ([opb] @ pkg body)" unfolding reads_def using enc by blast
qed

lemma typed_obj_reads: "aml_typed t k \<Longrightarrow> k = Term_Obj \<Longrightarrow> \<exists>bs. reads t bs"
proof (induction rule: aml_typed.induct)
  case (named seg d)
  have "reads (aml_DATA ([0x08] @ seg @ d)) ([0x08] @ seg @ d)"
    unfolding reads_def
  proof (intro conjI impI allI)
    fix fuel rest ts
    assume "length (([0x08] @ seg @ d) @ rest) \<le> fuel" and rest: "\<forall>f. length rest \<le> f \<longrightarrow> read_terms f rest = Some ts"
    then obtain f where f: "fuel = Suc f" "length rest \<le> f" by (cases fuel) auto
    then show "read_terms fuel (([0x08] @ seg @ d) @ rest) = Some (aml_DATA ([0x08] @ seg @ d) # ts)"
      using rest split_data_append [OF named.hyps(2), of rest] named.hyps(1) by simp
  qed simp_all
  then show ?case by blast
next
  case (external n t c)
  then obtain s b1 b2 where s: "n = aml_DATA s" "devpath_ok s" "t = aml_DATA [b1]" "c = aml_DATA [b2]"
    using typed_name_enc typed_byte_enc by metis
  let ?t = "aml_NODE AML_OPCODE_ExternalOp [n, t, c]"
  have "reads ?t ([0x15] @ s @ [b1, b2])"
    unfolding reads_def
  proof (intro conjI impI allI)
    show "aml_enc ?t = Some ([0x15] @ s @ [b1, b2])" by (simp add: s enc_simps)
    fix fuel rest ts
    assume "length (([0x15] @ s @ [b1, b2]) @ rest) \<le> fuel"
      and rest: "\<forall>f. length rest \<le> f \<longrightarrow> read_terms f rest = Some ts"
    then obtain f where f: "fuel = Suc f" "length rest \<le> f" by (cases fuel) auto
    then show "read_terms fuel (([0x15] @ s @ [b1, b2]) @ rest) = Some (?t # ts)"
      using rest parse_name_append [OF s(2), of "[b1, b2] @ rest"] by (simp add: s)
  qed simp
  then show ?case by blast
next
  case (scope n ts)
  then obtain s where s: "n = aml_DATA s" "devpath_ok s" using typed_name_enc by metis
  obtain inner where inner: "aml_enc_list ts = Some inner"
      "length inner < 2 ^ 28 \<longrightarrow> (\<forall>fuel. length inner \<le> fuel \<longrightarrow> read_terms fuel inner = Some ts)"
    using reads_list [of ts] scope.IH(2) by auto
  have "aml_enc (aml_NODE AML_OPCODE_ScopeOp (n # ts)) = Some ([0x10] @ pkg (s @ inner))"
    by (simp add: s inner enc_simps pkg_def)
  then show ?case
    by (rule reads_pkg) (use inner(2) parse_name_append [OF s(2)] in \<open>simp add: s\<close>)
next
  case (cond p ts)
  then have p: "p = aml_NODE AML_OPCODE_ZeroOp []" "aml_enc p = Some [0]" using typed_arg_enc by blast+
  obtain inner where inner: "aml_enc_list ts = Some inner"
      "length inner < 2 ^ 28 \<longrightarrow> (\<forall>fuel. length inner \<le> fuel \<longrightarrow> read_terms fuel inner = Some ts)"
    using reads_list [of ts] cond.IH(2) by auto
  have "aml_enc (aml_NODE AML_OPCODE_IfOp (p # ts)) = Some ([0xa0] @ pkg ([0] @ inner))"
    using p(2) by (simp add: aml_enc.simps(3) [of AML_OPCODE_IfOp] inner pkg_def) (simp add: aml_opcode_defs)
  then show ?case
    by (rule reads_pkg) (use inner(2) in \<open>simp add: p(1)\<close>)
qed simp_all

text \<open>A well-typed tree of less than 256 MiB is serialized without error to bytes that read back as the tree.\<close>

lemma typed_list_reads:
  assumes "aml_typed (aml_NODE op ts) Term_List"
  shows "\<exists>bs. aml_enc (aml_NODE op ts) = Some bs \<and> (length bs < 2 ^ 28 \<longrightarrow> read_terms (length bs) bs = Some ts)"
proof -
  have "op = AML_OPCODE__ROOT" "\<forall>t \<in> set ts. aml_typed t Term_Obj"
    using assms by (auto elim: typed_listE)
  then obtain bs where "aml_enc_list ts = Some bs" "length bs < 2 ^ 28 \<longrightarrow> read_terms (length bs) bs = Some ts"
    using reads_list [of ts] typed_obj_reads by blast
  then show ?thesis using \<open>op = _\<close> by (simp add: enc_simps)
qed

section \<open>The trees of fix_dsdt\<close>

text \<open>\<open>all_ok alloc_ok k k'\<close>: none of the allocations from the \<open>k\<close>-th up to the \<open>k'\<close>-th, exclusive, fails.\<close>

definition all_ok :: "(nat \<Rightarrow> bool) \<Rightarrow> nat \<Rightarrow> nat \<Rightarrow> bool" where
  "all_ok alloc_ok k k' \<longleftrightarrow> (\<forall>j. k \<le> j \<longrightarrow> j < k' \<longrightarrow> alloc_ok j)"

lemma all_ok_refl [simp]: "all_ok alloc_ok k k"
  by (simp add: all_ok_def)

lemma all_ok_Suc: "k \<le> n \<Longrightarrow> all_ok alloc_ok k (Suc n) \<longleftrightarrow> all_ok alloc_ok k n \<and> alloc_ok n"
  by (auto simp: all_ok_def less_Suc_eq)

lemma all_ok_first [simp]: "\<not> alloc_ok k \<Longrightarrow> 0 < n \<Longrightarrow> \<not> all_ok alloc_ok k (k + n)"
  by (auto simp: all_ok_def)

lemma all_ok_trans: "k \<le> m \<Longrightarrow> m \<le> n \<Longrightarrow> all_ok alloc_ok k n \<longleftrightarrow> all_ok alloc_ok k m \<and> all_ok alloc_ok m n"
  unfolding all_ok_def by (meson dual_order.trans not_le order_less_le_trans)

text \<open>\<open>typed_iff_ok r k alloc_ok n\<close>: a tree built from the \<open>k\<close>-th allocation on, with \<open>n\<close> of them, none of them checked.\<close>

definition typed_iff_ok :: "(aml_node \<times> nat) option \<Rightarrow> aml_kind \<Rightarrow> (nat \<Rightarrow> bool) \<Rightarrow> nat \<Rightarrow> nat \<Rightarrow> bool" where
  "typed_iff_ok r kind alloc_ok k n \<longleftrightarrow>
     (case r of None \<Rightarrow> \<not> all_ok alloc_ok k (k + n)
      | Some (t, k') \<Rightarrow> k' = k + n \<and> (aml_typed t kind \<longleftrightarrow> all_ok alloc_ok k k'))"

lemma alloc_fails [simp]: "aml_alloc_node False op n = aml_NULL"
  by (simp add: aml_alloc_node_def)

lemma data_fails [simp]: "aml_data_node False src sz = Some aml_NULL"
  by (simp add: aml_data_node_def)

lemma set_child_NULL [simp]: "set_child aml_NULL i c = None"
  by (simp add: set_child_def)

lemma typed_simps:
  "aml_typed (aml_NODE AML_OPCODE_ExternalOp [a, b, c]) Term_Obj \<longleftrightarrow>
     aml_typed a Name_String \<and> aml_typed b Byte_Data \<and> aml_typed c Byte_Data"
  "aml_typed (aml_NODE AML_OPCODE_ScopeOp (a # ts)) Term_Obj \<longleftrightarrow>
     aml_typed a Name_String \<and> (\<forall>t \<in> set ts. aml_typed t Term_Obj)"
  "aml_typed (aml_NODE AML_OPCODE_IfOp (a # ts)) Term_Obj \<longleftrightarrow>
     aml_typed a Term_Arg \<and> (\<forall>t \<in> set ts. aml_typed t Term_Obj)"
  "aml_typed (aml_NODE AML_OPCODE__ROOT ts) Term_List \<longleftrightarrow> (\<forall>t \<in> set ts. aml_typed t Term_Obj)"
  "aml_typed (aml_DATA s) Name_String \<longleftrightarrow> devpath_ok s" "aml_typed (aml_DATA [v]) Byte_Data"
  "aml_typed (aml_NODE AML_OPCODE_ZeroOp []) Term_Arg"
  by (auto simp: typed_NODE typed_DATA aml_opcode_defs)

lemma typed_named: "length seg = 4 \<Longrightarrow> data_object d \<Longrightarrow> aml_typed (aml_DATA (8 # seg @ d)) Term_Obj"
  using aml_typed.named [of seg d] by simp

lemma hex_digit_nz: "d < 16 \<Longrightarrow> hex_digit d \<noteq> 0"
proof -
  assume "d < 16"
  then have "d \<in> set [0..<16]" by simp
  then show ?thesis by (auto simp: hex_digit_def upt_rec)
qed

lemma typed_sta: "aml_typed (aml_DATA ([8] @ str ''_STA'' @ [0])) Term_Obj"
  using typed_named [of "str ''_STA''" "[0]"] by simp

lemma typed_hid: "aml_typed (aml_DATA ([8] @ str ''_HID'' @ [0x0d] @ str ''DIXY'' @ hex4 n @ [0])) Term_Obj"
proof -
  have "0 \<notin> set (hex4 n)" by (auto simp: hex4_def hex_digit_nz dest: sym)
  then have "data_object ([0x0d] @ str ''DIXY'' @ hex4 n @ [0])"
    by (simp add: str_def butlast_append)
  then show ?thesis using typed_named [of "str ''_HID''"] by simp
qed

lemma external_node_typed:
  "devpath_ok name \<Longrightarrow> typed_iff_ok (external_node alloc_ok k name) Term_Obj alloc_ok k 4"
  using devpath_ok_length [of name]
  by (cases "alloc_ok k"; cases "alloc_ok (k + 1)"; cases "alloc_ok (k + 2)"; cases "alloc_ok (Suc (k + 2))")
    (simp_all add: typed_iff_ok_def external_node_def node_build_simps all_ok_Suc typed_simps)

lemma hid_scope_node_typed:
  "devpath_ok name \<Longrightarrow> typed_iff_ok (hid_scope_node alloc_ok k junk name n) Term_Obj alloc_ok k 3"
  using devpath_ok_length [of name] typed_hid [of n]
  by (cases "alloc_ok k"; cases "alloc_ok (k + 1)"; cases "alloc_ok (k + 2)")
    (simp_all add: typed_iff_ok_def hid_scope_node_def hid_buffer_def node_build_simps all_ok_Suc typed_simps)

lemma sta_scope_node_typed:
  "devpath_ok name \<Longrightarrow> typed_iff_ok (sta_scope_node alloc_ok k name) Term_Obj alloc_ok k 3"
  using devpath_ok_length [of name] typed_sta
  by (cases "alloc_ok k"; cases "alloc_ok (k + 1)"; cases "alloc_ok (k + 2)")
    (simp_all add: typed_iff_ok_def sta_scope_node_def node_build_simps all_ok_Suc typed_simps)

text \<open>
  A loop over the names, in terms of \<open>store_from\<close>: it stores a tree for every name, and all of them are well typed
  exactly when no allocation failed.
\<close>

definition stored_iff_ok ::
    "(aml_node \<times> u16 \<times> nat) option \<Rightarrow> aml_node \<times> u16 \<Rightarrow> nat \<Rightarrow> (nat \<Rightarrow> bool) \<Rightarrow> nat \<Rightarrow> nat \<Rightarrow> bool" where
  "stored_iff_ok r s len alloc_ok k n \<longleftrightarrow>
     (\<forall>node i k'. r = Some (node, i, k') \<longrightarrow> k' = k + n \<and>
        (\<exists>cs. length cs = len \<and> store_from cs s = Some (node, i) \<and>
           ((\<forall>t \<in> set cs. aml_typed t Term_Obj) \<longleftrightarrow> all_ok alloc_ok k k')))"

lemma stored_Nil [simp]: "stored_iff_ok (Some (node, i, k)) (node, i) 0 alloc_ok k 0"
  by (auto simp: stored_iff_ok_def intro: exI [of _ "[]"])

lemma stored_step:
  assumes "typed_iff_ok r Term_Obj alloc_ok k a"
    and "\<And>t node'. set_child node i t = Some node' \<Longrightarrow>
      stored_iff_ok (next node' (k + a)) (node', i + 1) len alloc_ok (k + a) n"
  shows "stored_iff_ok (case r of None \<Rightarrow> None | Some (t, k) \<Rightarrow>
      (case set_child node i t of None \<Rightarrow> None | Some node \<Rightarrow> next node k)) (node, i) (Suc len) alloc_ok k (a + n)"
  unfolding stored_iff_ok_def
proof (intro allI impI)
  fix node'' i' k'
  assume "(case r of None \<Rightarrow> None | Some (t, k) \<Rightarrow>
      (case set_child node i t of None \<Rightarrow> None | Some node \<Rightarrow> next node k)) = Some (node'', i', k')"
  then obtain t node' where t: "r = Some (t, k + a)" "set_child node i t = Some node'"
      "next node' (k + a) = Some (node'', i', k')" "aml_typed t Term_Obj \<longleftrightarrow> all_ok alloc_ok k (k + a)"
    using assms(1) by (auto simp: typed_iff_ok_def split: option.splits)
  obtain cs where cs: "k' = k + a + n" "length cs = len" "store_from cs (node', i + 1) = Some (node'', i')"
      "(\<forall>t \<in> set cs. aml_typed t Term_Obj) \<longleftrightarrow> all_ok alloc_ok (k + a) k'"
    using assms(2) [OF t(2)] t(3) unfolding stored_iff_ok_def by blast
  have "(\<forall>t \<in> set (t # cs). aml_typed t Term_Obj) \<longleftrightarrow> all_ok alloc_ok k k'"
    using t(4) cs(1,4) all_ok_trans [of k "k + a" k' alloc_ok] by simp
  then show "k' = k + (a + n) \<and> (\<exists>cs. length cs = Suc len \<and> store_from cs (node, i) = Some (node'', i') \<and>
      ((\<forall>t \<in> set cs. aml_typed t Term_Obj) \<longleftrightarrow> all_ok alloc_ok k k'))"
    using t(2) cs(1-3) by (intro conjI exI [of _ "t # cs"]) simp_all
qed

lemma stored_append:
  assumes "stored_iff_ok r s len alloc_ok k n"
    and "\<And>node i. stored_iff_ok (f (node, i, k + n)) (node, i) len' alloc_ok (k + n) n'"
  shows "stored_iff_ok (Option.bind r f) s (len + len') alloc_ok k (n + n')"
  unfolding stored_iff_ok_def
proof (intro allI impI)
  fix node i k'
  assume "Option.bind r f = Some (node, i, k')"
  then obtain node1 i1 k1 where r: "r = Some (node1, i1, k1)" "f (node1, i1, k1) = Some (node, i, k')"
    by (auto simp: bind_eq_Some_conv)
  obtain cs where cs: "k1 = k + n" "length cs = len" "store_from cs s = Some (node1, i1)"
      "(\<forall>t \<in> set cs. aml_typed t Term_Obj) \<longleftrightarrow> all_ok alloc_ok k (k + n)"
    using assms(1) r(1) unfolding stored_iff_ok_def by blast
  obtain ds where ds: "k' = k + n + n'" "length ds = len'" "store_from ds (node1, i1) = Some (node, i)"
      "(\<forall>t \<in> set ds. aml_typed t Term_Obj) \<longleftrightarrow> all_ok alloc_ok (k + n) k'"
    using assms(2) [of node1 i1] r(2) unfolding stored_iff_ok_def cs(1) by blast
  have "store_from (cs @ ds) s = Some (node, i)" using cs(3) ds(3) by (simp add: store_from_append [symmetric])
  moreover have "(\<forall>t \<in> set (cs @ ds). aml_typed t Term_Obj) \<longleftrightarrow> all_ok alloc_ok k k'"
    using cs(4) ds(1,4) all_ok_trans [of k "k + n" k' alloc_ok] by auto
  ultimately show "k' = k + (n + n') \<and> (\<exists>cs. length cs = len + len' \<and> store_from cs s = Some (node, i) \<and>
      ((\<forall>t \<in> set cs. aml_typed t Term_Obj) \<longleftrightarrow> all_ok alloc_ok k k'))"
    using cs(1,2) ds(1,2) by (intro conjI exI [of _ "cs @ ds"]) simp_all
qed

lemma add_externals_stored:
  "\<forall>name \<in> set names. devpath_ok name \<Longrightarrow>
     stored_iff_ok (add_externals alloc_ok names (node, i, k)) (node, i) (length names) alloc_ok k (4 * length names)"
proof (induction names arbitrary: node i k)
  case (Cons name names)
  then show ?case
    using stored_step [OF external_node_typed [of name], of node i "\<lambda>node k. add_externals alloc_ok names (node, i + 1, k)"]
    by simp
qed simp

lemma add_hid_scopes_stored:
  "\<forall>name \<in> set names. devpath_ok name \<Longrightarrow>
     stored_iff_ok (add_hid_scopes alloc_ok junk names h (node, i, k)) (node, i) (length names) alloc_ok k (3 * length names)"
proof (induction names arbitrary: h node i k)
  case (Cons name names)
  then show ?case
    using stored_step [OF hid_scope_node_typed [of name], of node i "\<lambda>node k. add_hid_scopes alloc_ok junk names (h + 1) (node, i + 1, k)"]
    by simp
qed simp

lemma add_sta_scopes_stored:
  "\<forall>name \<in> set names. devpath_ok name \<Longrightarrow>
     stored_iff_ok (add_sta_scopes alloc_ok names (node, i, k)) (node, i) (length names) alloc_ok k (3 * length names)"
proof (induction names arbitrary: node i k)
  case (Cons name names)
  then show ?case
    using stored_step [OF sta_scope_node_typed [of name], of node i "\<lambda>node k. add_sta_scopes alloc_ok names (node, i + 1, k)"]
    by simp
qed simp

text \<open>The two containers: the node holds its first child and then the trees of the loops.\<close>

lemma stored_container:
  assumes "stored_iff_ok r (node1, 1) len alloc_ok k n" "r = Some (node, i, k')"
    and "set_child (aml_alloc_node True op m) 0 x = Some node1" "op \<noteq> AML_OPCODE__DATA" "unat m = len + 1"
  shows "k' = k + n \<and> (\<exists>cs. node = aml_NODE op (x # cs) \<and>
    ((\<forall>t \<in> set cs. aml_typed t Term_Obj) \<longleftrightarrow> all_ok alloc_ok k k'))"
proof -
  have "unat m < 65536" using unsigned_less [of m] by simp
  have "node1 = aml_NODE op (x # replicate len aml_NULL)"
    using assms(3-5) by (simp add: aml_alloc_node_def set_child_def)
  moreover obtain cs where "k' = k + n" "length cs = len" "store_from cs (node1, 1) = Some (node, i)"
      "(\<forall>t \<in> set cs. aml_typed t Term_Obj) \<longleftrightarrow> all_ok alloc_ok k k'"
    using assms(1,2) unfolding stored_iff_ok_def by blast
  ultimately show ?thesis
    using store_from_all [of cs "unat m" op x] assms(5) \<open>unat m < 65536\<close> by auto
qed

lemma if_zero_typed:
  assumes "\<forall>name \<in> set missing \<union> set offline. devpath_ok name"
    and "unat n = length missing + length offline + 1"
    and "if_zero_node alloc_ok k missing offline n = Some (node, k')"
  shows "k' = k + 2 + 4 * (length missing + length offline) \<and> (aml_typed node Term_Obj \<longleftrightarrow> all_ok alloc_ok k k')"
proof -
  let ?zero = "aml_alloc_node (alloc_ok (k + 1)) AML_OPCODE_ZeroOp 0"
  obtain node1 i where first: "alloc_ok k" "set_child (aml_alloc_node True AML_OPCODE_IfOp n) 0 ?zero = Some node1"
    and loops: "Option.bind (add_externals alloc_ok missing (node1, 1, k + 2)) (add_externals alloc_ok offline) = Some (node, i, k')"
    using assms(3) by (cases "alloc_ok k") (auto simp: if_zero_node_def Let_def split: option.splits)
  have "stored_iff_ok (Option.bind (add_externals alloc_ok missing (node1, 1, k + 2)) (add_externals alloc_ok offline))
      (node1, 1) (length missing + length offline) alloc_ok (k + 2) (4 * length missing + 4 * length offline)"
    using assms(1) by (intro stored_append add_externals_stored) simp_all
  then obtain cs where cs: "k' = k + 2 + 4 * (length missing + length offline)" "node = aml_NODE AML_OPCODE_IfOp (?zero # cs)"
      "(\<forall>t \<in> set cs. aml_typed t Term_Obj) \<longleftrightarrow> all_ok alloc_ok (k + 2) k'"
    using stored_container [OF _ loops first(2)] assms(2) by (force simp: aml_opcode_defs)
  have "aml_typed ?zero Term_Arg \<longleftrightarrow> alloc_ok (k + 1)"
    by (cases "alloc_ok (k + 1)") (simp_all add: aml_alloc_node_def typed_simps, simp add: aml_opcode_defs)
  moreover have "all_ok alloc_ok k k' \<longleftrightarrow> alloc_ok (k + 1) \<and> all_ok alloc_ok (k + 2) k'"
    using first(1) all_ok_trans [of k "k + 2" k' alloc_ok] cs(1) by (simp add: all_ok_Suc numeral_2_eq_2)
  ultimately show ?thesis using cs by (simp add: typed_simps)
qed

lemma ssdt_root_typed:
  assumes names: "\<forall>name \<in> set missing \<union> set offline. devpath_ok name" and few: "length missing + length offline < 65535"
    and run: "ssdt_root alloc_ok k junk missing offline = Some (root, k')"
  shows "k' = k + 3 + 7 * (length missing + length offline) \<and> (aml_typed root Term_List \<longleftrightarrow> all_ok alloc_ok k k')"
proof -
  define n where "n = (1 + of_nat (length missing) + of_nat (length offline) :: u16)"
  have "n = of_nat (length missing + length offline + 1)" by (simp add: n_def)
  then have n: "unat n = length missing + length offline + 1"
    using few by (simp add: unat_of_nat take_bit_nat_eq_self del: of_nat_Suc of_nat_add)
  obtain if_zero k1 where if_zero: "if_zero_node alloc_ok (k + 1) missing offline n = Some (if_zero, k1)"
    using run by (auto simp: ssdt_root_def Let_def n_def split: option.splits)
  then obtain root1 i where first: "alloc_ok k" "set_child (aml_alloc_node True AML_OPCODE__ROOT n) 0 if_zero = Some root1"
    and loops: "Option.bind (add_hid_scopes alloc_ok junk missing 1 (root1, 1, k1)) (add_sta_scopes alloc_ok offline) = Some (root, i, k')"
    using run by (cases "alloc_ok k") (auto simp: ssdt_root_def Let_def n_def split: option.splits)
  have "stored_iff_ok (Option.bind (add_hid_scopes alloc_ok junk missing 1 (root1, 1, k1)) (add_sta_scopes alloc_ok offline))
      (root1, 1) (length missing + length offline) alloc_ok k1 (3 * length missing + 3 * length offline)"
    using names by (intro stored_append add_hid_scopes_stored add_sta_scopes_stored) simp_all
  then obtain cs where cs: "k' = k1 + 3 * (length missing + length offline)" "root = aml_NODE AML_OPCODE__ROOT (if_zero # cs)"
      "(\<forall>t \<in> set cs. aml_typed t Term_Obj) \<longleftrightarrow> all_ok alloc_ok k1 k'"
    using stored_container [OF _ loops first(2)] n by (force simp: aml_opcode_defs)
  have k1: "k1 = k + 3 + 4 * (length missing + length offline)"
      "aml_typed if_zero Term_Obj \<longleftrightarrow> all_ok alloc_ok (k + 1) k1"
    using if_zero_typed [OF names n if_zero] by simp_all
  have "all_ok alloc_ok k k' \<longleftrightarrow> all_ok alloc_ok (k + 1) k1 \<and> all_ok alloc_ok k1 k'"
    using first(1) all_ok_trans [of k "k + 1" k' alloc_ok] all_ok_trans [of "k + 1" k1 k' alloc_ok] k1(1) cs(1)
    by (simp add: all_ok_Suc)
  then show ?thesis using cs k1 by (simp add: typed_simps)
qed

section \<open>Properties\<close>

text \<open>
  C9. Type soundness: a tree that follows the grammar (a root of term objects, scopes and conditions with a name or
  a predicate in front of their terms, externals with a name and two bytes) and whose encoding is below 256 MiB is
  serialized without error into a buffer of its size, and a reader of the grammar gets the same tree back from the
  bytes, so that no two well-typed trees have the same bytes.
\<close>

theorem aml_typed_reads_back:
  assumes "aml_typed root Term_List" "length (the (aml_enc root)) < 2 ^ 28" "length buf = unat (aml_node_size root)"
  shows "\<exists>bs. aml_node_serialize buf 0 root = Some (bs, 0) \<and>
    map_option (aml_NODE AML_OPCODE__ROOT) (read_terms (length bs) bs) = Some root"
proof -
  obtain ts where root: "root = aml_NODE AML_OPCODE__ROOT ts" using assms(1) by (rule typed_listE)
  obtain bs where enc: "aml_enc root = Some bs" "read_terms (length bs) bs = Some ts"
    using typed_list_reads [of AML_OPCODE__ROOT ts] assms(1,2) by (auto simp: root)
  then have "length bs < aml_size_limit" "length bs < 2 ^ 28" using assms(2) by (simp_all add: aml_size_limit_def)
  moreover have "aml_node_size root = of_nat (length bs)"
    using calculation by (intro aml_size_correct(1) [OF enc(1)])
  then have "length buf = length bs" using assms(3) unat_of_nat_u64 [of "length bs"] calculation by simp
  ultimately have "aml_node_serialize buf 0 root = Some (bs, 0)"
    using aml_serialize_correct(1) [OF enc(1), of 0 buf] by (simp add: buf_write_def)
  then show ?thesis using enc(2) by (simp add: root)
qed

definition wifi :: bytes where
  "wifi = [0x5c, 0x2e] @ str ''_SB_WIFI''"

lemma wifi_ok: "devpath_ok wifi"
  by (simp add: devpath_ok_def parse_name_def wifi_def str_def)

theorem aml_typed_reads_back_witness:
  "\<exists>bs. aml_node_serialize (replicate 18 0) 0 (aml_NODE AML_OPCODE__ROOT [sta_tree wifi]) = Some (bs, 0) \<and>
     map_option (aml_NODE AML_OPCODE__ROOT) (read_terms (length bs) bs) = Some (aml_NODE AML_OPCODE__ROOT [sta_tree wifi])"
proof -
  let ?root = "aml_NODE AML_OPCODE__ROOT [sta_tree wifi]"
  have "aml_typed (sta_tree wifi) Term_Obj"
    using wifi_ok typed_sta by (simp add: sta_tree_def typed_simps)
  then have typed: "aml_typed ?root Term_List" by (simp add: typed_simps)
  have "length (the (aml_enc ?root)) = 18" "unat (aml_node_size ?root) = 18" by code_simp+
  then show ?thesis by (intro aml_typed_reads_back [OF typed]) simp_all
qed

text \<open>
  C10. The results of the allocations are not checked: when one of a container fails the null pointer is written to,
  when one of a name or a value fails the tree has a hole. For fewer than 65535 devices, a tree that is finished was
  built by 3 and another 7 allocations for each device, and it is well typed exactly when all of them succeeded; with
  no failure it is finished.
\<close>

theorem ssdt_allocations_unchecked:
  assumes "\<forall>name \<in> set missing \<union> set offline. devpath_ok name" "length missing + length offline < 65535"
  shows "case ssdt_root alloc_ok k junk missing offline of
      None \<Rightarrow> \<exists>j. \<not> alloc_ok j
    | Some (root, k') \<Rightarrow> k' = k + 3 + 7 * (length missing + length offline) \<and>
        (aml_typed root Term_List \<longleftrightarrow> (\<forall>j \<in> {k..<k'}. alloc_ok j))"
proof (cases "ssdt_root alloc_ok k junk missing offline")
  case None
  have "length name < 65536" if "name \<in> set missing \<union> set offline" for name
    using devpath_ok_length [of name] assms(1) that by auto
  then show ?thesis using ssdt_root_eq [of alloc_ok missing offline k junk] assms(2) None by auto
next
  case (Some r)
  then show ?thesis
    using ssdt_root_typed [OF assms, of alloc_ok k junk "fst r" "snd r"] by (auto simp: all_ok_def split: prod.split)
qed

text \<open>
  One offline controller, and the allocation of the name of its scope fails: the run goes on, the size and
  serialization passes report nothing, and the reader rejects the bytes.
\<close>

theorem ssdt_allocations_unchecked_witness:
  "\<exists>root buf. ssdt_root (\<lambda>j. j \<noteq> 8) 0 0 [] [wifi] = Some (root, 10) \<and> \<not> aml_typed root Term_List \<and>
     aml_node_serialize (replicate (unat (aml_node_size root)) 0) 0 root = Some (buf, 0) \<and>
     read_terms (length buf) buf = None"
proof -
  define root where "root = fst (the (ssdt_root (\<lambda>j. j \<noteq> 8) 0 0 [] [wifi]))"
  have run: "ssdt_root (\<lambda>j. j \<noteq> 8) 0 0 [] [wifi] = Some (root, 10)"
    unfolding root_def by code_simp
  have "\<not> aml_typed root Term_List"
    using ssdt_allocations_unchecked [of "[]" "[wifi]" "\<lambda>j. j \<noteq> 8" 0 0] wifi_ok run by auto
  moreover define buf where "buf = fst (the (aml_node_serialize (replicate (unat (aml_node_size root)) 0) 0 root))"
  have "aml_node_serialize (replicate (unat (aml_node_size root)) 0) 0 root = Some (buf, 0)"
    unfolding buf_def root_def by code_simp
  moreover have "read_terms (length buf) buf = None" unfolding buf_def root_def by code_simp
  ultimately show ?thesis using run by blast
qed

end
