(* ===== verification/AmlTest.thy ===== *)
theory AmlTest imports AmlTyping begin

text \<open>
  Model of \<open>main\<close> of \<open>aml_test.c\<close>: it builds the SSDT of one board by hand, serializes it and writes it to a file
  behind a header whose length and checksum are constants of the program. The lemmas show that the constants fit the
  tree, that the file reads back as the tree, and which failures go unnoticed.
\<close>

unbundle bit_operations_syntax

section \<open>The tree\<close>

definition test_scope :: "(nat \<Rightarrow> bool) \<Rightarrow> nat \<Rightarrow> bytes \<Rightarrow> bytes \<Rightarrow> u16 \<Rightarrow> (aml_node \<times> nat) option" where
  "test_scope alloc_ok k name definition sz =
     set_data_children alloc_ok [name_node name, (definition, sz)] 0
       (aml_alloc_node (alloc_ok k) AML_OPCODE_ScopeOp 2, k + 1)"

text \<open>\<open>ext1\<close> to \<open>scope3\<close>, the \<open>If\<close> and the root, with the outcomes of the allocations as in \<open>ssdt_root\<close>.\<close>

fun store_children :: "aml_node \<Rightarrow> u16 \<Rightarrow> aml_node list \<Rightarrow> aml_node option" where
  "store_children node i [] = Some node"
| "store_children node i (c # cs) = Option.bind (set_child node i c) (\<lambda>node. store_children node (i + 1) cs)"

definition aml_test_tree :: "(nat \<Rightarrow> bool) \<Rightarrow> (aml_node \<times> nat) option" where
  "aml_test_tree alloc_ok =
     (let com1 = [0x5c, 0x2f, 3] @ str ''_SB_I2C0COM1'';
          com2 = [0x5c, 0x2f, 3] @ str ''_SB_SPI0COM2'';
          wifi = [0x5c, 0x2e] @ str ''_SB_WIFI'';
          hid = (\<lambda>s. [8] @ str ''_HID'' @ [0x0d] @ str s @ [0, 0])
      in Option.bind (external_node alloc_ok 0 com1) (\<lambda>(ext1, k).
         Option.bind (external_node alloc_ok k com2) (\<lambda>(ext2, k).
         Option.bind (external_node alloc_ok k wifi) (\<lambda>(ext3, k).
         Option.bind (store_children (aml_alloc_node (alloc_ok k) AML_OPCODE_IfOp 4) 0
           [aml_alloc_node (alloc_ok (k + 1)) AML_OPCODE_ZeroOp 0, ext1, ext2, ext3]) (\<lambda>if_node.
         Option.bind (test_scope alloc_ok (k + 2) com1 (hid ''DIXY0001'') 15) (\<lambda>(scope1, k).
         Option.bind (test_scope alloc_ok k com2 (hid ''DIXY0002'') 15) (\<lambda>(scope2, k).
         Option.bind (test_scope alloc_ok k wifi ([8] @ str ''_STA'' @ [0, 0]) 6) (\<lambda>(scope3, k).
         Option.bind (store_children (aml_alloc_node (alloc_ok k) AML_OPCODE__ROOT 4) 0
           [if_node, scope1, scope2, scope3]) (\<lambda>root.
         Some (root, k + 1))))))))))"

section \<open>The program\<close>

text \<open>
  What the C library answers: the outcomes of \<open>malloc\<close>, what a fresh block of a size holds, whether \<open>open\<close> gives a
  descriptor, and how many bytes the first and the second \<open>write\<close> take.
\<close>

record aml_test_env =
  test_alloc_ok :: "nat \<Rightarrow> bool"
  test_fresh :: "nat \<Rightarrow> bytes"
  test_open_ok :: bool
  write_header :: nat
  write_body :: nat

definition test_header :: bytes where
  "test_header =
     [0x53, 0x53, 0x44, 0x54, 0xaa, 0x00, 0x00, 0x00, 0x02, 0xeb, 0x44, 0x49,
      0x58, 0x59, 0x45, 0x53, 0x44, 0x49, 0x58, 0x59, 0x45, 0x53, 0x30, 0x32,
      0x00, 0x00, 0x00, 0x00, 0x49, 0x4e, 0x54, 0x4c, 0x28, 0x06, 0x23, 0x20]"

text \<open>The exit code and the contents of \<open>w510_repro.aml\<close>, if it was created.\<close>

definition aml_test_main :: "aml_test_env \<Rightarrow> (int \<times> bytes option) option" where
  "aml_test_main env =
     (case aml_test_tree (test_alloc_ok env) of
        None \<Rightarrow> None
      | Some (root, k) \<Rightarrow>
          let sz = aml_node_size root in
          if \<not> test_alloc_ok env k then Some (1, None)
          else if \<not> test_open_ok env then Some (1, None)
          else (case aml_node_serialize (test_fresh env (unat sz)) 0 root of
                  None \<Rightarrow> None
                | Some (buffer, ret) \<Rightarrow>
                    if ret < 0 then Some (1, Some [])
                    else Some (0, Some (take (write_header env) test_header
                                     @ take (write_body env) (take (unat sz) buffer)))))"

section \<open>The tree that is built\<close>

lemma aml_test_tree_eq: "\<forall>k. alloc_ok k \<Longrightarrow> aml_test_tree alloc_ok = Some (aml_test_root, 24)"
proof -
  assume ok: "\<forall>k. alloc_ok k"
  then have "alloc_ok = (\<lambda>_. True)" by auto
  moreover have "aml_test_tree (\<lambda>_. True) = Some (aml_test_root, 24)" by code_simp
  ultimately show ?thesis by simp
qed

lemma aml_test_typed: "aml_typed aml_test_root Term_List"
proof -
  have names: "devpath_ok ([0x5c, 0x2f, 3] @ str ''_SB_I2C0COM1'')" "devpath_ok ([0x5c, 0x2f, 3] @ str ''_SB_SPI0COM2'')"
    "devpath_ok ([0x5c, 0x2e] @ str ''_SB_WIFI'')"
    by (simp_all add: devpath_ok_def parse_name_def str_def)
  have "data_object ([0x0d] @ str ''DIXY0001'' @ [0])" "data_object ([0x0d] @ str ''DIXY0002'' @ [0])" "data_object [0]"
    by (simp_all add: str_def)
  then have "aml_typed (aml_DATA ([8] @ str ''_HID'' @ [0x0d] @ str ''DIXY0001'' @ [0])) Term_Obj"
    "aml_typed (aml_DATA ([8] @ str ''_HID'' @ [0x0d] @ str ''DIXY0002'' @ [0])) Term_Obj"
    "aml_typed (aml_DATA ([8] @ str ''_STA'' @ [0])) Term_Obj"
    using typed_named [of "str ''_HID''"] typed_named [of "str ''_STA''" "[0]"] by simp_all
  then show ?thesis using names by (simp add: aml_test_root_def Let_def typed_simps)
qed

definition aml_test_body :: bytes where
  "aml_test_body = the (aml_enc aml_test_root)"

lemma aml_test_body: "length aml_test_body = 134" "aml_enc aml_test_root = Some aml_test_body"
  by code_simp+

lemma aml_test_size: "unat (aml_node_size aml_test_root) = 134"
  by code_simp

lemma aml_test_table:
  "sum_list (test_header @ aml_test_body) = 0" "le_word (slice 4 4 (test_header @ aml_test_body)) = (170 :: u32)"
  by code_simp+

section \<open>Properties\<close>

text \<open>
  C11. The program of \<open>aml_test.c\<close>, when no allocation fails and the file can be created: it ends with 0, and what it
  writes is a table of 170 bytes whose header announces 170 bytes, whose bytes add up to 0 modulo 256, and whose body
  reads back as the tree of \<open>main\<close>; of the header and of the body the file has as much as the system took, which
  the exit code does not tell.
\<close>

theorem aml_test_main_correct:
  assumes "\<forall>k. test_alloc_ok env k" "\<forall>n. length (test_fresh env n) = n" "test_open_ok env"
  shows "\<exists>body. aml_test_main env = Some (0, Some (take (write_header env) test_header @ take (write_body env) body)) \<and>
    length (test_header @ body) = 170 \<and> le_word (slice 4 4 (test_header @ body)) = (170 :: u32) \<and>
    sum_list (test_header @ body) = 0 \<and>
    map_option (aml_NODE AML_OPCODE__ROOT) (read_terms (length body) body) = Some aml_test_root"
proof (intro exI conjI)
  have "buf_write (test_fresh env 134) 0 aml_test_body = Some aml_test_body"
    using assms(2) aml_test_body(1) by (simp add: buf_write_def)
  then have ser: "aml_node_serialize (test_fresh env 134) 0 aml_test_root = Some (aml_test_body, 0)"
    using aml_serialize_correct(1) [OF aml_test_body(2), of 0 "test_fresh env 134"] aml_test_body(1)
    by (simp add: aml_size_limit_def)
  then show "aml_test_main env =
      Some (0, Some (take (write_header env) test_header @ take (write_body env) aml_test_body))"
    using assms aml_test_body(1) by (simp add: aml_test_main_def aml_test_tree_eq aml_test_size)
  show "length (test_header @ aml_test_body) = 170" using aml_test_body(1) by (simp add: test_header_def)
  show "map_option (aml_NODE AML_OPCODE__ROOT) (read_terms (length aml_test_body) aml_test_body) = Some aml_test_root"
  proof -
    obtain ts where "aml_test_root = aml_NODE AML_OPCODE__ROOT ts" using aml_test_typed by (rule typed_listE)
    then show ?thesis
      using typed_list_reads [of AML_OPCODE__ROOT ts] aml_test_typed aml_test_body by auto
  qed
qed (rule aml_test_table)+

theorem aml_test_main_correct_witness:
  "\<exists>body. aml_test_main \<lparr>test_alloc_ok = (\<lambda>_. True), test_fresh = (\<lambda>n. replicate n 0), test_open_ok = True,
       write_header = 36, write_body = 0\<rparr> = Some (0, Some test_header) \<and> length (test_header @ body) = 170"
  using aml_test_main_correct [of "\<lparr>test_alloc_ok = (\<lambda>_. True), test_fresh = (\<lambda>n. replicate n 0), test_open_ok = True,
       write_header = 36, write_body = 0\<rparr>"]
  by (auto simp: test_header_def)

end
