(* ===== verification/PatchBl.thy ===== *)
theory PatchBl imports Prelude begin

text \<open>
  Model of \<open>patch_bl.c\<close>: the search for byte patterns, the patch of the EL3 image inside a FIP
  package (\<open>patch_el3\<close>) and the program around it that copies the firmware file. A buffer is the list
  of its bytes, and an access outside of it is \<open>None\<close>. The patch loop is a partial function: \<open>None\<close> is
  also a loop that never ends. The lemmas show that on a well-formed image it ends, having replaced
  exactly the occurrences of the pattern in the original image.
\<close>

unbundle bit_operations_syntax

section \<open>Patterns\<close>

text \<open>The arrays of patterns are lists, which end where the C arrays have the empty pattern.\<close>

record search_pattern =
  sp_pattern :: bytes
  sp_mask :: "bytes option"

definition stub_patterns :: "search_pattern list" where
  "stub_patterns =
     [\<lparr>sp_pattern = str ''Unhandled Interrupt Exception in EL3.'' @ [10], sp_mask = None\<rparr>]"

definition init_pattern :: "search_pattern list" where
  "init_pattern =
     [\<lparr>sp_pattern =
        [0xFF, 0x44, 0x03, 0xD5,
         0x00, 0x00, 0x80, 0xD2,
         0x40, 0x11, 0x1E, 0xD5], sp_mask = None\<rparr>]"

definition stub_text :: bytes where
  "stub_text =
     [0x00, 0x00, 0x90, 0xd2,
      0x00, 0x3c, 0x50, 0xd3,
      0x00, 0xa5, 0x1e, 0xd5,
      0xDF, 0x3F, 0x03, 0xD5,
      0x00, 0x00, 0x80, 0xD2,
      0xc0, 0x03, 0x5f, 0xd6]"

section \<open>The search\<close>

definition masked :: "search_pattern \<Rightarrow> nat \<Rightarrow> u8 \<Rightarrow> u8" where
  "masked p k b = (case sp_mask p of None \<Rightarrow> b | Some msk \<Rightarrow> b AND msk ! k)"

fun match_loop :: "search_pattern \<Rightarrow> bytes \<Rightarrow> nat \<Rightarrow> nat list \<Rightarrow> bool option" where
  "match_loop p buf pos [] = Some True"
| "match_loop p buf pos (k # ks) =
     (if length buf \<le> pos + k then None
      else if masked p k (buf ! (pos + k)) \<noteq> sp_pattern p ! k then Some False
      else match_loop p buf pos ks)"

text \<open>\<open>n\<close> positions from \<open>j\<close> on; the result is the position relative to \<open>base\<close>.\<close>

fun search_loop :: "search_pattern \<Rightarrow> bytes \<Rightarrow> nat \<Rightarrow> nat \<Rightarrow> nat \<Rightarrow> nat option option" where
  "search_loop p buf base 0 j = Some None"
| "search_loop p buf base (Suc n) j =
     (case match_loop p buf (base + j) [0..<length (sp_pattern p)] of
        None \<Rightarrow> None
      | Some True \<Rightarrow> Some (Some j)
      | Some False \<Rightarrow> search_loop p buf base n (j + 1))"

text \<open>\<open>j <= buf_size - p->pattern_size\<close> is a \<open>size_t\<close> comparison: the difference wraps around.\<close>

fun search_pattern_in_buffer :: "search_pattern list \<Rightarrow> bytes \<Rightarrow> nat \<Rightarrow> u64 \<Rightarrow> nat option option" where
  "search_pattern_in_buffer [] buf base buf_size = Some None"
| "search_pattern_in_buffer (p # ps) buf base buf_size =
     (case search_loop p buf base (unat (buf_size - of_nat (length (sp_pattern p))) + 1) 0 of
        None \<Rightarrow> None
      | Some (Some j) \<Rightarrow> Some (Some j)
      | Some None \<Rightarrow> search_pattern_in_buffer ps buf base buf_size)"

section \<open>The patch\<close>

definition FIP_MAGIC :: u64 where "FIP_MAGIC = 0x12345678AA640001"

definition bl31_uuid :: bytes where
  "bl31_uuid = [0x47, 0xD4, 0x08, 0x6D, 0x4C, 0xFE, 0x98, 0x46, 0x9B, 0x95, 0x29, 0x50, 0xCB, 0xBD, 0x5A, 0x00]"

text \<open>The packed structures: a header of 16 bytes, then entries of 40 bytes.\<close>

definition fip_entry_offset :: "nat \<Rightarrow> nat" where "fip_entry_offset i = 16 + 40 * i"

definition read64 :: "bytes \<Rightarrow> nat \<Rightarrow> u64 option" where
  "read64 buf off = map_option le_word (buf_read buf off 8)"

fun find_bl31 :: "bytes \<Rightarrow> nat list \<Rightarrow> nat option option" where
  "find_bl31 buf [] = Some None"
| "find_bl31 buf (i # is) =
     (case buf_read buf (fip_entry_offset i) 16 of
        None \<Rightarrow> None
      | Some uuid \<Rightarrow> if uuid = bl31_uuid then Some (Some (fip_entry_offset i)) else find_bl31 buf is)"

text \<open>The loop over \<open>stub_patterns\<close>, each searched on its own.\<close>

fun find_stub :: "search_pattern list \<Rightarrow> bytes \<Rightarrow> nat \<Rightarrow> u64 \<Rightarrow> nat option option" where
  "find_stub [] buf base sz = Some None"
| "find_stub (p # ps) buf base sz =
     (case search_pattern_in_buffer (p # ps) buf base sz of
        None \<Rightarrow> None
      | Some (Some j) \<Rightarrow> Some (Some j)
      | Some None \<Rightarrow> find_stub ps buf base sz)"

text \<open>C division truncates towards zero; the offsets are positions in the buffer.\<close>

definition c_div :: "int \<Rightarrow> int \<Rightarrow> int" where
  "c_div a b = (if a \<ge> 0 then a div b else - ((- a) div b))"

definition bl_instr :: "nat \<Rightarrow> nat \<Rightarrow> u32" where
  "bl_instr stub_start init_start =
     0x94000000 OR (word_of_int (c_div (int stub_start - (int init_start + 4)) 4) AND 0x3FFFFFF)"

partial_function (option) patch_loop :: "bytes \<Rightarrow> nat \<Rightarrow> u64 \<Rightarrow> nat \<Rightarrow> bool \<Rightarrow> (bytes \<times> bool) option" where
  "patch_loop buf base sz stub_start patched =
     (case search_pattern_in_buffer init_pattern buf base sz of
        None \<Rightarrow> None
      | Some None \<Rightarrow> Some (buf, patched)
      | Some (Some j) \<Rightarrow>
          (case buf_write buf (base + j + 4) (le32 (bl_instr stub_start (base + j))) of
             None \<Rightarrow> None
           | Some buf \<Rightarrow> patch_loop buf base sz stub_start True))"

definition patch_el3 :: "u64 \<Rightarrow> bytes \<Rightarrow> (int \<times> bytes) option" where
  "patch_el3 sz buf =
     (case read64 buf 0 of
        None \<Rightarrow> None
      | Some magic \<Rightarrow>
          if magic \<noteq> FIP_MAGIC then Some (1, buf)
          else case find_bl31 buf [0..<16] of
              None \<Rightarrow> None
            | Some None \<Rightarrow> Some (1, buf)
            | Some (Some entry) \<Rightarrow>
                (case (read64 buf (entry + 16), read64 buf (entry + 24)) of
                   (Some file_offset, Some file_size) \<Rightarrow>
                     let base = unat file_offset in
                     (case find_stub stub_patterns buf base file_size of
                        None \<Rightarrow> None
                      | Some None \<Rightarrow> Some (1, buf)
                      | Some (Some stub) \<Rightarrow>
                          let stub_start = base + (stub + 3) div 4 * 4 in
                          (case patch_loop buf base file_size stub_start False of
                             None \<Rightarrow> None
                           | Some (buf, patched) \<Rightarrow>
                               map_option (Pair 0) (buf_write buf stub_start stub_text)))
                 | _ \<Rightarrow> None))"

section \<open>The search finds the first match\<close>

definition sp_matches :: "search_pattern \<Rightarrow> bytes \<Rightarrow> nat \<Rightarrow> bool" where
  "sp_matches p buf pos =
     list_all (\<lambda>k. masked p k (buf ! (pos + k)) = sp_pattern p ! k) [0..<length (sp_pattern p)]"

lemma match_loop_eq:
  "\<forall>k \<in> set ks. pos + k < length buf \<Longrightarrow>
     match_loop p buf pos ks = Some (list_all (\<lambda>k. masked p k (buf ! (pos + k)) = sp_pattern p ! k) ks)"
  by (induction ks) auto

lemma search_loop_find:
  "0 < n \<Longrightarrow> base + j + n + length (sp_pattern p) \<le> length buf + 1 \<Longrightarrow>
     search_loop p buf base n j = Some (find (\<lambda>j. sp_matches p buf (base + j)) [j..<j + n])"
proof (induction n arbitrary: j)
  case (Suc n)
  have "match_loop p buf (base + j) [0..<length (sp_pattern p)] = Some (sp_matches p buf (base + j))"
    unfolding sp_matches_def by (rule match_loop_eq) (use Suc.prems in auto)
  moreover have "[j..<j + Suc n] = j # [j + 1..<j + 1 + n]" by (simp add: upt_conv_Cons)
  ultimately show ?case
    using Suc.IH [of "j + 1"] Suc.prems by (cases n) (auto split: bool.splits)
qed simp

lemma search_singleton:
  assumes "length (sp_pattern p) \<le> unat sz" "base + unat sz \<le> length buf"
  shows "search_pattern_in_buffer [p] buf base sz =
    Some (find (\<lambda>j. sp_matches p buf (base + j)) [0..<unat sz - length (sp_pattern p) + 1])"
proof -
  let ?n = "length (sp_pattern p)"
  have "?n < 2 ^ 64" using assms(1) unsigned_less [of sz, where 'a = nat] by simp
  then have "unat (sz - of_nat ?n) = unat sz - ?n"
    using assms(1) by (simp add: unat_sub word_le_nat_alt)
  then show ?thesis
    using assms search_loop_find [of "unat sz - ?n + 1" base 0 p buf]
    by (auto split: option.splits)
qed

section \<open>The occurrences of the init pattern\<close>

definition init_bytes :: bytes where
  "init_bytes = [0xFF, 0x44, 0x03, 0xD5, 0x00, 0x00, 0x80, 0xD2, 0x40, 0x11, 0x1E, 0xD5]"

definition is_init :: "bytes \<Rightarrow> nat \<Rightarrow> bool" where
  "is_init buf pos = list_all (\<lambda>k. buf ! (pos + k) = init_bytes ! k) [0..<12]"

lemma is_init_nth: "is_init buf pos \<Longrightarrow> k < 12 \<Longrightarrow> buf ! (pos + k) = init_bytes ! k"
  by (simp add: is_init_def list_all_iff)

lemma is_init_cong: "(\<And>k. k < 12 \<Longrightarrow> buf ! (pos + k) = buf' ! (pos + k)) \<Longrightarrow> is_init buf pos = is_init buf' pos"
  by (simp add: is_init_def list_all_iff)

lemma length_init_bytes [simp]: "length init_bytes = 12"
  by (simp add: init_bytes_def)

lemma init_pattern_matches:
  "init_pattern = [\<lparr>sp_pattern = init_bytes, sp_mask = None\<rparr>]"
  "sp_matches \<lparr>sp_pattern = init_bytes, sp_mask = None\<rparr> buf pos = is_init buf pos"
  by (simp_all add: init_pattern_def init_bytes_def [symmetric] sp_matches_def is_init_def masked_def)

text \<open>
  The first byte of the pattern occurs nowhere else in it, so occurrences do not overlap; the last byte
  of a BL instruction is no byte of the pattern, so writing one makes no new occurrence.
\<close>

lemma init_bytes_first: "0 < k \<Longrightarrow> k < 12 \<Longrightarrow> init_bytes ! k \<noteq> init_bytes ! 0"
proof -
  assume "0 < k" "k < 12"
  then have "k \<in> set [1..<12]" by simp
  moreover have "list_all (\<lambda>k. init_bytes ! k \<noteq> init_bytes ! 0) [1..<12]" by code_simp
  ultimately show ?thesis unfolding list_all_iff by blast
qed

lemma init_bytes_not_bl: "k < 12 \<Longrightarrow> init_bytes ! k AND 0xFC \<noteq> 0x94"
proof -
  assume "k < 12"
  then have "k \<in> set [0..<12]" by simp
  moreover have "list_all (\<lambda>k. init_bytes ! k AND 0xFC \<noteq> 0x94) [0..<12]" by code_simp
  ultimately show ?thesis unfolding list_all_iff by blast
qed

lemma bl_instr_top: "le32 (bl_instr stub m) ! 3 AND 0xFC = 0x94"
proof (rule bit_word_eqI)
  fix i
  assume "i < LENGTH(8)"
  then have "i \<in> {0, 1, 2, 3, 4, 5, 6, 7}" by auto
  then show "bit (le32 (bl_instr stub m) ! 3 AND 0xFC) i = bit (0x94 :: u8) i"
    by (auto simp: bl_instr_def le_bytes_def bit_simps)
qed

lemma occurrences_apart:
  assumes "is_init buf a" "is_init buf b" "a < b"
  shows "a + 12 \<le> b"
proof (rule ccontr)
  assume "\<not> a + 12 \<le> b"
  then have "b - a < 12" "0 < b - a" using assms(3) by auto
  moreover have "buf ! (a + (b - a)) = init_bytes ! 0"
    using is_init_nth [OF assms(2), of 0] assms(3) by simp
  ultimately show False using is_init_nth [OF assms(1), of "b - a"] init_bytes_first by metis
qed

text \<open>Overwriting the instruction in the middle of an occurrence removes it and no other.\<close>

definition put_bl :: "nat \<Rightarrow> nat \<Rightarrow> bytes \<Rightarrow> bytes" where
  "put_bl stub m buf = take (m + 4) buf @ le32 (bl_instr stub m) @ drop (m + 8) buf"

lemma length_put_bl [simp]: "m + 12 \<le> length buf \<Longrightarrow> length (put_bl stub m buf) = length buf"
  by (simp add: put_bl_def)

lemma put_bl_nth:
  "m + 12 \<le> length buf \<Longrightarrow> i < length buf \<Longrightarrow>
     put_bl stub m buf ! i = (if m + 4 \<le> i \<and> i < m + 8 then le32 (bl_instr stub m) ! (i - (m + 4)) else buf ! i)"
  by (auto simp: put_bl_def nth_append)

lemma put_bl_occurrences:
  assumes m: "is_init buf m" "m + 12 \<le> length buf" and b: "b + 12 \<le> length buf"
  shows "is_init (put_bl stub m buf) b \<longleftrightarrow> b \<noteq> m \<and> is_init buf b"
proof -
  let ?buf = "put_bl stub m buf"
  have nth: "?buf ! i = (if m + 4 \<le> i \<and> i < m + 8 then le32 (bl_instr stub m) ! (i - (m + 4)) else buf ! i)"
    if "i < length buf" for i
    by (rule put_bl_nth [OF m(2) that])
  have bl: "?buf ! (m + 7) AND 0xFC = 0x94"
    using nth [of "m + 7"] m(2) bl_instr_top [of stub m] by simp
  have first: "?buf ! m = init_bytes ! 0"
    using nth [of m] m(2) is_init_nth [OF m(1), of 0] by simp
  consider (bl) "b \<le> m + 7" "m + 7 < b + 12" | (left) "b < m" "b + 12 \<le> m + 7" "m + 4 < b + 12"
    | (apart) "b + 12 \<le> m + 4 \<or> m + 8 \<le> b" by linarith
  then show ?thesis
  proof cases
    case bl
    then have k: "m + 7 - b < 12" "b + (m + 7 - b) = m + 7" by auto
    then have "\<not> is_init ?buf b"
      using is_init_nth [of ?buf b "m + 7 - b"] init_bytes_not_bl [OF k(1)] \<open>?buf ! (m + 7) AND 0xFC = 0x94\<close> by auto
    moreover have "\<not> is_init buf b" if "b \<noteq> m"
      using occurrences_apart [OF _ m(1), of b] occurrences_apart [OF m(1), of b] that bl by linarith
    ultimately show ?thesis by blast
  next
    case left
    then have k: "m - b < 12" "0 < m - b" "b + (m - b) = m" by auto
    then have "\<not> is_init ?buf b"
      using is_init_nth [of ?buf b "m - b"] init_bytes_first [OF k(2,1)] first by auto
    moreover have "\<not> is_init buf b" using occurrences_apart [OF _ m(1), of b] left by linarith
    ultimately show ?thesis by blast
  next
    case apart
    then have "is_init ?buf b = is_init buf b"
      using b by (intro is_init_cong) (auto simp: nth)
    moreover have "b \<noteq> m" using apart by auto
    ultimately show ?thesis by blast
  qed
qed

section \<open>The loop patches every occurrence\<close>

definition occurrences :: "bytes \<Rightarrow> nat \<Rightarrow> nat \<Rightarrow> nat list" where
  "occurrences buf base n = filter (is_init buf) [base..<base + n - 11]"

lemma occurrences_iff: "12 \<le> n \<Longrightarrow> m \<in> set (occurrences buf base n) \<longleftrightarrow> base \<le> m \<and> m + 12 \<le> base + n \<and> is_init buf m"
  by (auto simp: occurrences_def)

lemma find_occurrence:
  assumes "12 \<le> n"
  shows "find (\<lambda>j. is_init buf (base + j)) [0..<n - 12 + 1] =
    (case occurrences buf base n of [] \<Rightarrow> None | m # ms \<Rightarrow> Some (m - base))"
proof -
  have "base + n - 11 = Suc (n + base - 12)" using assms by simp
  then have "[base..<base + n - 11] = map (\<lambda>j. base + j) [0..<n - 12 + 1]"
    using assms map_add_upt [of base "n - 12 + 1"] by (simp add: add.commute [of base] del: upt_Suc map_add_upt)
  then have "occurrences buf base n = map (\<lambda>j. base + j) (filter (\<lambda>j. is_init buf (base + j)) [0..<n - 12 + 1])"
    by (simp add: occurrences_def filter_map comp_def del: upt_Suc)
  moreover have "find P xs = (case map (\<lambda>j. base + j) (filter P xs) of [] \<Rightarrow> None | m # ms \<Rightarrow> Some (m - base))"
    for P and xs :: "nat list"
    by (induction xs) auto
  ultimately show ?thesis by metis
qed

lemma occurrences_put_bl:
  assumes "12 \<le> n" "base + n \<le> length buf" "occurrences buf base n = m # ms"
  shows "occurrences (put_bl stub m buf) base n = ms" and "m + 12 \<le> length buf"
proof -
  have m: "base \<le> m" "m + 12 \<le> base + n" "is_init buf m"
    using occurrences_iff [OF assms(1), of m buf base] assms(3) by simp_all
  then show len: "m + 12 \<le> length buf" using assms(2) by simp
  have "occurrences (put_bl stub m buf) base n = filter (\<lambda>b. b \<noteq> m \<and> is_init buf b) [base..<base + n - 11]"
    unfolding occurrences_def
    using put_bl_occurrences [OF m(3) len] assms(2) by (intro filter_cong) auto
  also have "\<dots> = filter (\<lambda>b. b \<noteq> m) (m # ms)"
    using assms(3) by (simp add: occurrences_def filter_filter [symmetric] conj_commute)
  also have "\<dots> = ms"
  proof -
    have "distinct (m # ms)" using assms(3) unfolding occurrences_def by (metis distinct_filter distinct_upt)
    then show ?thesis by (auto simp: filter_id_conv)
  qed
  finally show "occurrences (put_bl stub m buf) base n = ms" .
qed

lemma patch_loop_fold:
  assumes "12 \<le> unat sz" "base + unat sz \<le> length buf"
  shows "patch_loop buf base sz stub patched =
    Some (fold (put_bl stub) (occurrences buf base (unat sz)) buf, patched \<or> occurrences buf base (unat sz) \<noteq> [])"
  using assms
proof (induction "occurrences buf base (unat sz)" arbitrary: buf patched)
  case Nil
  have search: "search_pattern_in_buffer init_pattern buf base sz = Some None"
    using search_singleton [of "\<lparr>sp_pattern = init_bytes, sp_mask = None\<rparr>" sz base buf] Nil
      find_occurrence [of "unat sz" buf base] by (simp add: init_pattern_matches del: upt_Suc)
  show ?case using Nil by (subst patch_loop.simps) (simp add: search)
next
  case (Cons m ms)
  note occ = Cons.hyps(2) [symmetric]
  have m: "base \<le> m" using occurrences_iff [OF Cons.prems(1), of m buf base] occ by simp
  note put = occurrences_put_bl(1) [OF Cons.prems occ, of stub] occurrences_put_bl(2) [OF Cons.prems occ]
  have search: "search_pattern_in_buffer init_pattern buf base sz = Some (Some (m - base))"
    using search_singleton [of "\<lparr>sp_pattern = init_bytes, sp_mask = None\<rparr>" sz base buf] Cons.prems
      find_occurrence [of "unat sz" buf base] occ by (simp add: init_pattern_matches del: upt_Suc)
  have "buf_write buf (m + 4) (le32 (bl_instr stub m)) = Some (put_bl stub m buf)"
    using put(2) by (simp add: buf_write_def put_bl_def ac_simps)
  then have "patch_loop buf base sz stub patched = patch_loop (put_bl stub m buf) base sz stub True"
    using m by (subst patch_loop.simps) (simp add: search)
  also have "\<dots> = Some (fold (put_bl stub) ms (put_bl stub m buf), True)"
    using Cons.hyps(1) [of "put_bl stub m buf" True] put Cons.prems by simp
  finally show ?case by (simp add: occ)
qed

lemma fold_put_bl_length: "\<forall>m \<in> set ms. m + 12 \<le> length buf \<Longrightarrow> length (fold (put_bl stub) ms buf) = length buf"
  by (induction ms arbitrary: buf) simp_all

lemma fold_put_bl_frame:
  "\<forall>m \<in> set ms. m + 12 \<le> length buf \<Longrightarrow> i < length buf \<Longrightarrow> \<forall>m \<in> set ms. \<not> (m + 4 \<le> i \<and> i < m + 8) \<Longrightarrow>
     fold (put_bl stub) ms buf ! i = buf ! i"
  by (induction ms arbitrary: buf) (auto simp: put_bl_nth)

lemma fold_put_bl_content:
  "sorted_wrt (\<lambda>a b. a + 12 \<le> b) ms \<Longrightarrow> \<forall>m \<in> set ms. m + 12 \<le> length buf \<Longrightarrow> m \<in> set ms \<Longrightarrow>
     slice (m + 4) 4 (fold (put_bl stub) ms buf) = le32 (bl_instr stub m)"
proof (induction ms arbitrary: buf)
  case (Cons a ms)
  show ?case
  proof (cases "m = a")
    case True
    let ?buf = "put_bl stub a buf"
    have len: "\<forall>b \<in> set ms. b + 12 \<le> length ?buf" "a + 12 \<le> length buf"
      using Cons.prems by auto
    have "fold (put_bl stub) ms ?buf ! i = ?buf ! i" if "i < a + 12" for i
      using Cons.prems(1) len that by (intro fold_put_bl_frame) auto
    then show ?thesis
      using len(2) True fold_put_bl_length [OF len(1), of stub]
      by (auto simp: list_eq_iff_nth_eq slice_def put_bl_nth)
  next
    case False
    then show ?thesis using Cons by simp
  qed
qed simp

lemma occurrences_sorted: "sorted_wrt (\<lambda>a b. a + 12 \<le> b) (occurrences buf base n)"
proof -
  have "sorted_wrt (<) [base..<base + n - 11]" by simp
  then have "sorted_wrt (<) (occurrences buf base n)" unfolding occurrences_def by (rule sorted_wrt_filter)
  moreover have "is_init buf m" if "m \<in> set (occurrences buf base n)" for m
    using that by (simp add: occurrences_def)
  ultimately show ?thesis
    by (induction "occurrences buf base n" arbitrary: base) (auto intro: occurrences_apart sorted_wrt_mono_rel)
qed

lemma fold_occurrences:
  assumes "12 \<le> n" "base + n \<le> length buf"
  shows "occurrences (fold (put_bl stub) (occurrences buf base n) buf) base n = []"
  using assms
proof (induction "occurrences buf base n" arbitrary: buf)
  case (Cons m ms)
  note occ = Cons.hyps(2) [symmetric]
  note put = occurrences_put_bl(1) [OF Cons.prems occ, of stub] occurrences_put_bl(2) [OF Cons.prems occ]
  show ?case using Cons.hyps(1) [of "put_bl stub m buf"] put Cons.prems occ by simp
qed simp

section \<open>The stub\<close>

definition stub_string :: bytes where
  "stub_string = str ''Unhandled Interrupt Exception in EL3.'' @ [10]"

definition is_stub :: "bytes \<Rightarrow> nat \<Rightarrow> bool" where
  "is_stub buf pos = list_all (\<lambda>k. buf ! (pos + k) = stub_string ! k) [0..<38]"

lemma length_stub_string [simp]: "length stub_string = 38"
  by (simp add: stub_string_def)

lemma length_stub_text [simp]: "length stub_text = 24"
  by (simp add: stub_text_def)

lemma stub_patterns_matches:
  "stub_patterns = [\<lparr>sp_pattern = stub_string, sp_mask = None\<rparr>]"
  "sp_matches \<lparr>sp_pattern = stub_string, sp_mask = None\<rparr> buf pos = is_stub buf pos"
  by (simp_all add: stub_patterns_def stub_string_def [symmetric] sp_matches_def is_stub_def masked_def)

text \<open>No byte of the string is the first or the last one of the init pattern, so they do not overlap.\<close>

lemma stub_string_bytes: "k < 38 \<Longrightarrow> stub_string ! k \<noteq> 0xFF \<and> stub_string ! k \<noteq> 0xD5"
proof -
  assume "k < 38"
  then have "k \<in> set [0..<38]" by simp
  moreover have "list_all (\<lambda>k. stub_string ! k \<noteq> 0xFF \<and> stub_string ! k \<noteq> 0xD5) [0..<38]" by code_simp
  ultimately show ?thesis unfolding list_all_iff by blast
qed

lemma stub_apart:
  assumes "is_init buf m" "is_stub buf s"
  shows "m + 12 \<le> s \<or> s + 38 \<le> m"
proof (rule ccontr)
  assume no: "\<not> (m + 12 \<le> s \<or> s + 38 \<le> m)"
  have string: "s \<le> i \<Longrightarrow> i < s + 38 \<Longrightarrow> buf ! i \<noteq> 0xFF \<and> buf ! i \<noteq> 0xD5" for i
    using assms(2) stub_string_bytes [of "i - s"] by (auto simp: is_stub_def list_all_iff dest: bspec [of _ _ "i - s"])
  have "buf ! m = 0xFF" "buf ! (m + 11) = 0xD5"
    using is_init_nth [OF assms(1), of 0] is_init_nth [OF assms(1), of 11] by (simp_all add: init_bytes_def)
  then show False using string [of m] string [of "m + 11"] no by linarith
qed

text \<open>The stub's code makes no new occurrence of the pattern either.\<close>

lemma stub_text_no_init:
  assumes "is_init buf b" "slice s 24 buf = stub_text" "b < s + 24" "s < b + 12"
  shows False
proof -
  have stub: "buf ! (s + d) = stub_text ! d" if "d < 24" for d
  proof -
    have "s + 24 \<le> length buf" using arg_cong [OF assms(2), of length] by (simp add: slice_def)
    then have "slice s 24 buf ! d = buf ! (s + d)" using that by (simp add: slice_def)
    then show ?thesis using assms(2) by simp
  qed
  show False
  proof (cases "s \<le> b")
    case True
    then have d: "b - s < 24" using assms(3) by auto
    have "list_all (\<lambda>d. stub_text ! d \<noteq> init_bytes ! 0) [0..<24]" by code_simp
    then have "stub_text ! (b - s) \<noteq> init_bytes ! 0" using d by (simp only: list_all_iff) simp
    then show False using stub [OF d] is_init_nth [OF assms(1), of 0] True by simp
  next
    case False
    then have k: "s - b \<in> set [1..<12]" using assms(4) by auto
    have "list_all (\<lambda>k. list_ex (\<lambda>d. k + d < 12 \<and> init_bytes ! (k + d) \<noteq> stub_text ! d) [0, 1, 2]) [1..<12]"
      by code_simp
    then have "\<exists>d \<in> set [0, 1, 2]. s - b + d < 12 \<and> init_bytes ! (s - b + d) \<noteq> stub_text ! d"
      unfolding list_all_iff list_ex_iff using k by (rule bspec)
    then obtain d where d: "d \<in> set [0, 1, 2]" "s - b + d < 12" "init_bytes ! (s - b + d) \<noteq> stub_text ! d"
      by blast
    then have "buf ! (b + (s - b + d)) = init_bytes ! (s - b + d)" using is_init_nth [OF assms(1)] by blast
    moreover have "buf ! (s + d) = stub_text ! d" using d(1) by (intro stub) auto
    ultimately show False using d(3) False by simp
  qed
qed

section \<open>The branch\<close>

text \<open>Decoding a BL of the A64 instruction set: the opcode, and the target relative to its address.\<close>

definition is_bl :: "u32 \<Rightarrow> bool" where "is_bl w \<longleftrightarrow> drop_bit 26 w = 0x25"

definition bl_target :: "nat \<Rightarrow> u32 \<Rightarrow> int" where
  "bl_target pc w = int pc + 4 * signed_take_bit 25 (uint w)"

lemma bl_instr_is_bl: "is_bl (bl_instr stub m)"
  unfolding is_bl_def
proof (rule bit_word_eqI)
  fix i
  assume "i < LENGTH(32)"
  then have "i \<in> set [0..<32]" by simp
  moreover have "list_all (\<lambda>i. bit (0x25 :: u32) i = bit (drop_bit 26 (0x94000000 :: u32)) i \<and>
      \<not> bit (drop_bit 26 (0x3FFFFFF :: u32)) i) [0..<32]" by code_simp
  ultimately show "bit (drop_bit 26 (bl_instr stub m)) i = bit (0x25 :: u32) i"
    unfolding list_all_iff bl_instr_def by (auto simp: bit_simps)
qed

lemma bl_instr_target:
  assumes "4 dvd (int stub - (int m + 4))" "\<bar>int stub - (int m + 4)\<bar> < 2 ^ 27"
  shows "bl_target (m + 4) (bl_instr stub m) = int stub"
proof -
  define q where "q = (int stub - (int m + 4)) div 4"
  have q: "4 * q = int stub - (int m + 4)" using assms(1) by (simp add: q_def)
  have cq: "c_div (int stub - (int m + 4)) 4 = q"
    unfolding q [symmetric] c_div_def using nonzero_mult_div_cancel_left [of 4 "- q"] nonzero_mult_div_cancel_left [of 4 q] by simp
  have "take_bit 26 (uint (bl_instr stub m)) = take_bit 26 q"
  proof (rule bit_eqI)
    fix i
    have "\<not> bit (0x94000000 :: u32) i" if "i < 26"
    proof -
      have "list_all (\<lambda>i. \<not> bit (0x94000000 :: u32) i) [0..<26]" by code_simp
      with that show ?thesis by (simp add: list_all_iff)
    qed
    moreover have "bit (0x3FFFFFF :: u32) i" if "i < 26"
    proof -
      have "list_all (\<lambda>i. bit (0x3FFFFFF :: u32) i) [0..<26]" by code_simp
      with that show ?thesis by (simp add: list_all_iff)
    qed
    ultimately show "bit (take_bit 26 (uint (bl_instr stub m))) i = bit (take_bit 26 q) i"
      by (auto simp: bl_instr_def cq bit_take_bit_iff bit_uint_iff bit_or_iff bit_and_iff bit_word_of_int_iff)
  qed
  then have "signed_take_bit 25 (uint (bl_instr stub m)) = signed_take_bit 25 q"
    by (simp add: signed_take_bit_eq_iff_take_bit_eq)
  also have "\<dots> = q"
  proof (rule signed_take_bit_int_eq_self)
    have "\<bar>4 * q\<bar> < 4 * 33554432" using assms(2) q by simp
    then have "- 33554432 \<le> q" "q < 33554432" by linarith+
    then show "- (2 ^ 25) \<le> q" "q < 2 ^ 25" by simp_all
  qed
  finally show ?thesis using q by (simp add: bl_target_def)
qed

section \<open>The patched image\<close>

text \<open>
  A FIP package whose BL31 image lies inside the buffer and is large enough to hold the stub string.
\<close>

definition bl31_image :: "bytes \<Rightarrow> nat \<Rightarrow> nat \<Rightarrow> bool" where
  "bl31_image buf base n \<longleftrightarrow>
     read64 buf 0 = Some FIP_MAGIC \<and>
     (case find_bl31 buf [0..<16] of
        Some (Some entry) \<Rightarrow> map_option unat (read64 buf (entry + 16)) = Some base \<and>
          map_option unat (read64 buf (entry + 24)) = Some n
      | _ \<Rightarrow> False) \<and>
     38 \<le> n \<and> base + n \<le> length buf"

lemma patch_el3_image:
  assumes "bl31_image buf base n"
  shows "patch_el3 sz buf =
    (case find (\<lambda>j. is_stub buf (base + j)) [0..<n - 37] of
       None \<Rightarrow> Some (1, buf)
     | Some s \<Rightarrow> map_option (Pair 0)
         (buf_write (fold (put_bl (base + (s + 3) div 4 * 4)) (occurrences buf base n) buf)
           (base + (s + 3) div 4 * 4) stub_text))"
proof -
  obtain entry off len where entry: "read64 buf 0 = Some FIP_MAGIC" "find_bl31 buf [0..<16] = Some (Some entry)"
      "read64 buf (entry + 16) = Some off" "read64 buf (entry + 24) = Some len" "unat off = base" "unat len = n"
    using assms by (auto simp: bl31_image_def split: option.splits)
  have n: "38 \<le> unat len" "unat off + unat len \<le> length buf" using assms entry by (auto simp: bl31_image_def)
  have "unat len - 38 + 1 = n - 37" using n entry(6) by simp
  then have "search_pattern_in_buffer stub_patterns buf base len = Some (find (\<lambda>j. is_stub buf (base + j)) [0..<n - 37])"
    using search_singleton [of "\<lparr>sp_pattern = stub_string, sp_mask = None\<rparr>" len base buf] n entry(5)
    by (simp add: stub_patterns_matches del: upt_Suc)
  then have stub: "find_stub stub_patterns buf base len = Some (find (\<lambda>j. is_stub buf (base + j)) [0..<n - 37])"
    by (simp add: stub_patterns_def split: option.splits)
  show ?thesis
    using patch_loop_fold [of len base buf] n entry
    by (simp add: patch_el3_def stub Let_def del: upt_Suc split: option.splits)
qed

text \<open>Where the stub goes: the first 4-aligned offset of the image inside the string.\<close>

definition stub_start :: "nat \<Rightarrow> nat \<Rightarrow> nat" where
  "stub_start base s = base + (s + 3) div 4 * 4"

lemma stub_start_bounds: "base + s \<le> stub_start base s" "stub_start base s + 24 \<le> base + s + 38"
  unfolding stub_start_def by linarith+

lemma patch_el3_effect:
  assumes image: "bl31_image buf base n" and s: "find (\<lambda>j. is_stub buf (base + j)) [0..<n - 37] = Some s"
  defines "stub \<equiv> stub_start base s" and "occ \<equiv> occurrences buf base n"
  shows "\<exists>buf'. patch_el3 sz buf = Some (0, buf') \<and> length buf' = length buf \<and>
    slice stub 24 buf' = stub_text \<and>
    (\<forall>m \<in> set occ. slice (m + 4) 4 buf' = le32 (bl_instr stub m)) \<and>
    occurrences buf' base n = [] \<and>
    (\<forall>i < length buf. buf' ! i = buf ! i \<or> stub \<le> i \<and> i < stub + 24 \<or> (\<exists>m \<in> set occ. m + 4 \<le> i \<and> i < m + 8))"
proof -
  have n: "38 \<le> n" "base + n \<le> length buf" using image by (auto simp: bl31_image_def)
  from s have s': "is_stub buf (base + s)" "s + 37 < n" by (auto simp: find_Some_iff nth_upt)
  have occ: "m \<in> set occ \<longleftrightarrow> base \<le> m \<and> m + 12 \<le> base + n \<and> is_init buf m" for m
    using n(1) by (simp add: occ_def occurrences_iff)
  then have occ_len: "\<forall>m \<in> set occ. m + 12 \<le> length buf" using n(2) by auto
  note bounds = stub_start_bounds [of base s, folded stub_def]
  let ?mid = "fold (put_bl stub) occ buf"
  let ?buf = "take stub ?mid @ stub_text @ drop (stub + 24) ?mid"
  have len: "length ?mid = length buf" by (rule fold_put_bl_length [OF occ_len])
  have stub_len: "stub + 24 \<le> length buf" using bounds(2) s'(2) n(2) by simp
  have run: "patch_el3 sz buf = Some (0, ?buf)"
    using patch_el3_image [OF image, of sz] s stub_len len
    by (simp add: stub_def stub_start_def occ_def buf_write_def)
  have nth: "?buf ! i = (if stub \<le> i \<and> i < stub + 24 then stub_text ! (i - stub) else ?mid ! i)"
    if "i < length buf" for i
    using that stub_len len by (auto simp: nth_append)
  have away: "m + 12 \<le> stub \<or> stub + 24 \<le> m" if "m \<in> set occ" for m
    using stub_apart [OF _ s'(1), of m] that occ bounds by force
  have calls: "\<forall>m \<in> set occ. slice (m + 4) 4 ?buf = le32 (bl_instr stub m)"
  proof
    fix m
    assume m: "m \<in> set occ"
    then have "slice (m + 4) 4 ?mid = le32 (bl_instr stub m)"
      using fold_put_bl_content [OF _ occ_len m, of stub] occurrences_sorted by (simp add: occ_def)
    moreover have "slice (m + 4) 4 ?buf = slice (m + 4) 4 ?mid"
      using away [OF m] occ_len m len stub_len by (auto simp: list_eq_iff_nth_eq slice_def nth ac_simps)
    ultimately show "slice (m + 4) 4 ?buf = le32 (bl_instr stub m)" by simp
  qed
  have text_at: "slice stub 24 ?buf = stub_text"
    using stub_len len by (simp add: slice_def)
  have mid_none: "occurrences ?mid base n = []"
    using fold_occurrences [of n base buf stub] n by (simp add: occ_def)
  have none: "occurrences ?buf base n = []"
  proof (rule ccontr)
    assume "occurrences ?buf base n \<noteq> []"
    then have "hd (occurrences ?buf base n) \<in> set (occurrences ?buf base n)" by (rule hd_in_set)
    then obtain b where "b \<in> set (occurrences ?buf base n)" by blast
    then have b: "base \<le> b" "b + 12 \<le> base + n" "is_init ?buf b"
      using occurrences_iff [of n b ?buf base] n(1) by simp_all
    show False
    proof (cases "b < stub + 24 \<and> stub < b + 12")
      case True
      then show ?thesis using stub_text_no_init [OF b(3) text_at] by simp
    next
      case False
      then have "is_init ?buf b = is_init ?mid b"
        using b n(2) by (intro is_init_cong) (auto simp: nth)
      then show ?thesis using mid_none b occurrences_iff [of n b ?mid base] n(1) by simp
    qed
  qed
  have frame: "\<forall>i < length buf. ?buf ! i = buf ! i \<or> stub \<le> i \<and> i < stub + 24 \<or> (\<exists>m \<in> set occ. m + 4 \<le> i \<and> i < m + 8)"
    using nth fold_put_bl_frame [OF occ_len, of _ stub] by auto
  show ?thesis
    using run len stub_len text_at calls none frame by (intro exI [of _ ?buf]) simp
qed

section \<open>The program\<close>

text \<open>
  The system calls' outcomes: \<open>file_in\<close> the input file (\<open>None\<close>: it does not exist), \<open>fresh\<close> the content
  of the allocated buffer; the limits are those of \<open>transfer\<close> for the one call of \<open>read\<close> and \<open>write\<close> and the two
  of \<open>sendfile\<close>.
\<close>

record patch_env =
  argc :: nat
  file_in :: "bytes option"
  out_exists :: bool
  open_in :: bool
  seek_in :: bool
  stat_in :: bool
  alloc_buf :: bool
  fresh :: bytes
  read_limit :: "nat option"
  open_out :: bool
  seek_start :: bool
  copy1_limit :: "nat option"
  write_limit :: "nat option"
  seek_rest :: bool
  copy2_limit :: "nat option"

definition BL31_START :: nat where "BL31_START = 0xba0000"
definition BL31_SIZE :: nat where "BL31_SIZE = 0x100000"

text \<open>
  \<open>read\<close>, \<open>write\<close> and \<open>sendfile\<close>: the returned number and the bytes that are moved, of those that are there. The
  call fails (\<open>None\<close>) or moves at most the given number of bytes. A count that is negative as a signed number is
  refused.
\<close>

definition transfer :: "nat option \<Rightarrow> int \<Rightarrow> bytes \<Rightarrow> int \<times> bytes" where
  "transfer limit count there =
     (case limit of
        None \<Rightarrow> (-1, [])
      | Some n \<Rightarrow>
          if count < 0 then (-1, [])
          else let moved = take (min n (nat count)) there in (int (length moved), moved))"

text \<open>The returned code and the output file, \<open>None\<close> as long as it is not opened. The outer
  \<open>None\<close> is an undefined run of \<open>patch_el3\<close>.\<close>

definition patch_bl_output :: "patch_env \<Rightarrow> bytes \<Rightarrow> bytes \<Rightarrow> int \<times> bytes option" where
  "patch_bl_output env input buf =
     (if \<not> open_out env then (1, None)
      else if \<not> seek_start env then (1, Some [])
      else let (n1, out1) = transfer (copy1_limit env) (int BL31_START) input in
        if n1 \<noteq> int BL31_START then (1, Some out1)
        else let (n2, out2) = transfer (write_limit env) (int BL31_SIZE) buf in
          if n2 \<noteq> int BL31_SIZE then (1, Some (out1 @ out2))
          else if \<not> seek_rest env then (1, Some (out1 @ out2))
          else let rest = int (length input) - int BL31_START - int BL31_SIZE;
                   (n3, out3) = transfer (copy2_limit env) rest (drop (BL31_START + BL31_SIZE) input)
            in if n3 \<noteq> rest then (1, Some (out1 @ out2 @ out3))
               else (0, Some (out1 @ out2 @ out3)))"

definition patch_bl_main :: "patch_env \<Rightarrow> (int \<times> bytes option) option" where
  "patch_bl_main env =
     (if argc env < 3 then Some (1, None)
      else case file_in env of
          None \<Rightarrow> Some (1, None)
        | Some input \<Rightarrow>
            if out_exists env then Some (1, None)
            else if \<not> open_in env then Some (1, None)
            else if \<not> seek_in env then Some (1, None)
            else if \<not> stat_in env then Some (1, None)
            else if \<not> alloc_buf env then Some (1, None)
            else
              let (n, data) = transfer (read_limit env) (int BL31_SIZE) (drop BL31_START input);
                  buf = data @ drop (length data) (fresh env)
              in if n < 0 then Some (1, None)
                 else case patch_el3 (of_nat BL31_SIZE) buf of
                     None \<Rightarrow> None
                   | Some (ret, buf) \<Rightarrow>
                       if ret \<noteq> 0 then Some (1, None)
                       else Some (patch_bl_output env input buf))"

section \<open>Lengths and regions too short for the pattern\<close>

lemma patch_loop_length: "patch_loop buf base sz stub patched = Some (buf', r) \<Longrightarrow> length buf' = length buf"
proof -
  have "patch_loop buf base sz stub patched = Some y \<Longrightarrow> length (fst y) = length buf" for y
  proof (rule patch_loop.raw_induct [where P = "\<lambda>buf base sz stub patched y. length (fst y) = length buf"])
    fix loop :: "bytes \<Rightarrow> nat \<Rightarrow> u64 \<Rightarrow> nat \<Rightarrow> bool \<Rightarrow> (bytes \<times> bool) option" and b ba z st pa y
    assume IH: "\<And>b ba z st pa y. loop b ba z st pa = Some y \<Longrightarrow> length (fst y) = length b"
      and eq: "(case search_pattern_in_buffer init_pattern b ba z of None \<Rightarrow> None | Some None \<Rightarrow> Some (b, pa)
        | Some (Some j) \<Rightarrow> (case buf_write b (ba + j + 4) (le32 (bl_instr st (ba + j))) of None \<Rightarrow> None
          | Some buf \<Rightarrow> loop buf ba z st True)) = Some y"
    then show "length (fst y) = length b"
      by (auto split: option.splits dest: IH buf_write_length)
  qed
  then show "patch_loop buf base sz stub patched = Some (buf', r) \<Longrightarrow> length buf' = length buf" by fastforce
qed

lemma patch_el3_length: "patch_el3 sz buf = Some (r, buf') \<Longrightarrow> length buf' = length buf"
  by (auto simp: patch_el3_def Let_def split: option.splits if_splits) (metis patch_loop_length buf_write_length)

lemma match_loop_True: "match_loop p buf pos ks = Some True \<Longrightarrow>
    (\<forall>k \<in> set ks. pos + k < length buf) \<and> list_all (\<lambda>k. masked p k (buf ! (pos + k)) = sp_pattern p ! k) ks"
  by (induction ks) (auto split: if_splits)

lemma search_loop_runs_out:
  assumes "sp_pattern p \<noteq> []" "\<forall>j. base + j + length (sp_pattern p) \<le> length buf \<longrightarrow> \<not> sp_matches p buf (base + j)"
  shows "length buf < base + j + n \<Longrightarrow> 0 < n \<Longrightarrow> search_loop p buf base n j = None"
proof (induction n arbitrary: j)
  case (Suc n)
  have "match_loop p buf (base + j) [0..<length (sp_pattern p)] \<noteq> Some True"
  proof
    assume "match_loop p buf (base + j) [0..<length (sp_pattern p)] = Some True"
    from match_loop_True [OF this] have "\<forall>k < length (sp_pattern p). base + j + k < length buf" "sp_matches p buf (base + j)"
      by (auto simp: sp_matches_def)
    moreover from this(1) have "base + j + (length (sp_pattern p) - 1) < length buf"
      using assms(1) by (metis diff_less length_greater_0_conv less_numeral_extra(1))
    ultimately show False using assms by (metis Suc_leI Suc_pred add_Suc_right length_greater_0_conv Suc_diff_1)
  qed
  then consider "match_loop p buf (base + j) [0..<length (sp_pattern p)] = None"
    | "match_loop p buf (base + j) [0..<length (sp_pattern p)] = Some False"
    by (cases "match_loop p buf (base + j) [0..<length (sp_pattern p)]") auto
  then show ?case
  proof cases
    case 2
    have "0 < n"
    proof (rule ccontr)
      assume "\<not> 0 < n"
      then have "length buf \<le> base + j" using Suc.prems by simp
      moreover have "[0..<length (sp_pattern p)] = 0 # [1..<length (sp_pattern p)]"
        using assms(1) by (simp add: upt_conv_Cons)
      ultimately show False using 2 by simp
    qed
    then show ?thesis using 2 Suc.IH [of "j + 1"] Suc.prems by simp
  qed simp
qed simp

section \<open>Properties\<close>

text \<open>
  Searching one pattern in a region of the buffer that is at least as long as the pattern never
  reads outside of it and returns the first position where every (masked) byte agrees with the pattern,
  or nothing when there is none.
\<close>

theorem search_finds_first:
  assumes "length (sp_pattern p) \<le> unat sz" "base + unat sz \<le> length buf"
  shows "search_pattern_in_buffer [p] buf base sz =
    Some (find (\<lambda>j. sp_matches p buf (base + j)) [0..<unat sz - length (sp_pattern p) + 1])"
  by (rule search_singleton [OF assms])

theorem search_finds_first_witness:
  "search_pattern_in_buffer [\<lparr>sp_pattern = [0x40, 7], sp_mask = Some [0xF0, 0xFF]\<rparr>] [1, 0x47, 7, 0x45, 7] 1 4 = Some (Some 0)"
  using search_finds_first [of "\<lparr>sp_pattern = [0x40, 7], sp_mask = Some [0xF0, 0xFF]\<rparr>" 4 1 "[1, 0x47, 7, 0x45, 7]"]
  by (simp add: sp_matches_def masked_def upt_rec)

text \<open>
  C22. On every region of at least 12 bytes (the length of the init sequence) that lies inside the buffer the
  patch loop ends; it turns each occurrence of the init sequence of the original region, in order, into one with a
  branch to the stub, tells whether there was one, and leaves none.
\<close>

theorem patch_loop_terminates:
  assumes "12 \<le> unat sz" "base + unat sz \<le> length buf"
  shows "\<exists>buf'. patch_loop buf base sz stub False = Some (buf', occurrences buf base (unat sz) \<noteq> []) \<and>
    buf' = fold (put_bl stub) (occurrences buf base (unat sz)) buf \<and>
    occurrences buf' base (unat sz) = []"
  using patch_loop_fold [OF assms, of stub False] fold_occurrences [OF assms] by simp

theorem patch_loop_terminates_witness:
  "\<exists>buf'. patch_loop ([1] @ init_bytes @ [2] @ init_bytes) 1 25 40 False = Some (buf', True) \<and>
     occurrences buf' 1 25 = []"
proof -
  have "occurrences ([1] @ init_bytes @ [2] @ init_bytes) 1 25 = [1, 14]" by code_simp
  then show ?thesis
    using patch_loop_terminates [of 25 1 "[1] @ init_bytes @ [2] @ init_bytes" 40] by auto
qed

text \<open>
  C21. On a FIP package with a BL31 image that contains the stub string (first at offset \<open>s\<close>),
  \<open>patch_el3\<close> returns 0; in the resulting buffer the stub's code lies at a 4-aligned offset of the
  image inside the string, every init sequence of the original image has its middle instruction replaced
  by the branch computed for it, no init sequence is left, and all other bytes are unchanged.
\<close>

theorem patch_el3_correct:
  assumes "bl31_image buf base n" "find (\<lambda>j. is_stub buf (base + j)) [0..<n - 37] = Some s"
  shows "\<exists>buf'. patch_el3 sz buf = Some (0, buf') \<and> length buf' = length buf \<and>
    base + s \<le> stub_start base s \<and> stub_start base s + 24 \<le> base + s + 38 \<and>
    slice (stub_start base s) 24 buf' = stub_text \<and>
    (\<forall>m \<in> set (occurrences buf base n). slice (m + 4) 4 buf' = le32 (bl_instr (stub_start base s) m)) \<and>
    occurrences buf' base n = [] \<and>
    (\<forall>i < length buf. buf' ! i = buf ! i \<or> stub_start base s \<le> i \<and> i < stub_start base s + 24 \<or>
       (\<exists>m \<in> set (occurrences buf base n). m + 4 \<le> i \<and> i < m + 8))"
  using patch_el3_effect [OF assms, of sz] stub_start_bounds by blast

text \<open>A package with one entry, the string at offset 3 of the image and two init sequences.\<close>

definition fip_example :: bytes where
  "fip_example = le64 FIP_MAGIC @ le64 0 @ bl31_uuid @ le64 56 @ le64 72 @ le64 0
     @ [9, 9, 9] @ stub_string @ [9, 9, 9] @ init_bytes @ [0, 0, 0, 0] @ init_bytes"

lemma fip_example_image:
  "bl31_image fip_example 56 72" "find (\<lambda>j. is_stub fip_example (56 + j)) [0..<72 - 37] = Some 3"
  "occurrences fip_example 56 72 = [100, 116]"
  by code_simp+

theorem patch_el3_correct_witness:
  "\<exists>buf'. patch_el3 128 fip_example = Some (0, buf') \<and> slice 60 24 buf' = stub_text \<and>
     slice 104 4 buf' = le32 (bl_instr 60 100) \<and> slice 120 4 buf' = le32 (bl_instr 60 116)"
proof -
  have "stub_start 56 3 = 60" by (simp add: stub_start_def)
  then show ?thesis
    using patch_el3_correct [OF fip_example_image(1,2), of 128] fip_example_image(3) by auto
qed

text \<open>
  The instruction written into an init sequence is a BL, and when the sequence is 4-aligned in the
  image, as all A64 code is, and less than 2\<open>^\<close>27 bytes away, its target is exactly the stub.
\<close>

theorem bl_reaches_stub:
  assumes "4 dvd int m - int base" "\<bar>int (stub_start base s) - (int m + 4)\<bar> < 2 ^ 27"
  shows "is_bl (bl_instr (stub_start base s) m) \<and>
    bl_target (m + 4) (bl_instr (stub_start base s) m) = int (stub_start base s)"
proof -
  have "int (stub_start base s) - (int m + 4) = 4 * (int ((s + 3) div 4) - 1) - (int m - int base)"
    by (simp add: stub_start_def)
  also have "4 dvd \<dots>" by (rule dvd_diff [OF dvd_triv_left assms(1)])
  finally have "4 dvd int (stub_start base s) - (int m + 4)" .
  then show ?thesis using bl_instr_is_bl bl_instr_target assms(2) by blast
qed

theorem bl_reaches_stub_witness:
  "is_bl (bl_instr 60 100) \<and> bl_target 104 (bl_instr 60 100) = 60"
  using bl_reaches_stub [of 100 56 3] by (simp add: stub_start_def)

text \<open>
  On a package with a BL31 image \<open>patch_el3\<close> returns 0 exactly when the image contains the stub
  string; an image without any init sequence is reported as patched all the same. With the result 1
  the buffer is unchanged.
\<close>

theorem patch_el3_result:
  assumes "bl31_image buf base n"
  shows "\<exists>r buf'. patch_el3 sz buf = Some (r, buf') \<and>
    (r = 0 \<longleftrightarrow> list_ex (\<lambda>j. is_stub buf (base + j)) [0..<n - 37]) \<and> (r \<noteq> 0 \<longrightarrow> r = 1 \<and> buf' = buf)"
proof (cases "find (\<lambda>j. is_stub buf (base + j)) [0..<n - 37]")
  case None
  then have "\<not> list_ex (\<lambda>j. is_stub buf (base + j)) [0..<n - 37]"
    by (auto simp: find_None_iff list_ex_iff)
  then show ?thesis using patch_el3_image [OF assms, of sz] None by simp
next
  case (Some s)
  then have "list_ex (\<lambda>j. is_stub buf (base + j)) [0..<n - 37]"
    by (auto simp: find_Some_iff list_ex_iff nth_upt)
  then show ?thesis using patch_el3_effect [OF assms Some, of sz] by auto
qed

text \<open>The package without its init sequences.\<close>

definition fip_no_init :: bytes where
  "fip_no_init = take 100 fip_example @ replicate 28 0"

theorem patch_el3_result_witness:
  "occurrences fip_no_init 56 72 = [] \<and> (\<exists>buf'. patch_el3 128 fip_no_init = Some (0, buf'))"
proof -
  have "bl31_image fip_no_init 56 72" "list_ex (\<lambda>j. is_stub fip_no_init (56 + j)) [0..<72 - 37]"
    "occurrences fip_no_init 56 72 = []" by code_simp+
  then show ?thesis using patch_el3_result [of fip_no_init 56 72 128] by blast
qed

text \<open>
  C23. When the region is shorter than the pattern, the size computation wraps around and the search
  reads past the end of the buffer (unless the buffer happens to contain a match).
\<close>

theorem search_short_region_overruns:
  assumes "unat sz < length (sp_pattern p)" "length (sp_pattern p) \<le> 4096"
    and "base \<le> length buf" "length buf < 2 ^ 63"
    and "\<forall>j. base + j + length (sp_pattern p) \<le> length buf \<longrightarrow> \<not> sp_matches p buf (base + j)"
  shows "search_pattern_in_buffer [p] buf base sz = None"
proof -
  let ?n = "length (sp_pattern p)"
  have "unat (sz - of_nat ?n) = 2 ^ 64 + unat sz - ?n"
  proof -
    have "unat (of_nat ?n :: u64) = ?n" using assms(2) by simp
    then show ?thesis using assms(1,2) by (simp add: unat_sub_if')
  qed
  then have "length buf < base + 0 + (unat (sz - of_nat ?n) + 1)"
    using assms(2,4) by simp
  moreover have "sp_pattern p \<noteq> []" using assms(1) by auto
  ultimately have "search_loop p buf base (unat (sz - of_nat ?n) + 1) 0 = None"
    using assms(5) by (intro search_loop_runs_out) auto
  then show ?thesis by simp
qed

theorem search_short_region_overruns_witness:
  "search_pattern_in_buffer init_pattern [1, 2, 3] 1 2 = None"
  using search_short_region_overruns [of 2 "\<lparr>sp_pattern = init_bytes, sp_mask = None\<rparr>" 1 "[1, 2, 3]"]
  by (simp add: init_pattern_matches)

section \<open>The output\<close>

text \<open>The bytes that the program has read and the buffer that it patches.\<close>

definition bl31_data :: "patch_env \<Rightarrow> bytes \<Rightarrow> bytes" where
  "bl31_data env input = snd (transfer (read_limit env) (int BL31_SIZE) (drop BL31_START input))"

definition bl31_buffer :: "patch_env \<Rightarrow> bytes \<Rightarrow> bytes" where
  "bl31_buffer env input = bl31_data env input @ drop (length (bl31_data env input)) (fresh env)"

lemma transfer_complete:
  "fst (transfer limit count bs) = count \<Longrightarrow> 0 \<le> count \<Longrightarrow> snd (transfer limit count bs) = take (nat count) bs"
  by (auto simp: transfer_def Let_def split: option.splits if_splits)

lemma length_transfer: "length (snd (transfer limit count bs)) \<le> min (nat count) (length bs)"
  by (auto simp: transfer_def Let_def split: option.splits)

lemma take_bl31_data: "bl31_data env input = take (length (bl31_data env input)) (drop BL31_START input)"
  by (auto simp: bl31_data_def transfer_def Let_def min_def split: option.splits)

lemma length_bl31_buffer: "length (fresh env) = BL31_SIZE \<Longrightarrow> length (bl31_buffer env input) = BL31_SIZE"
  using length_transfer [of "read_limit env" "int BL31_SIZE" "drop BL31_START input"]
  by (simp add: bl31_buffer_def flip: bl31_data_def)

lemma patch_bl_main_run:
  assumes "file_in env = Some input" "patch_bl_main env = Some (ret, out)"
  shows "out = None \<and> ret = 1 \<or> (\<exists>buf. patch_el3 (of_nat BL31_SIZE) (bl31_buffer env input) = Some (0, buf) \<and>
      (ret, out) = patch_bl_output env input buf)"
  using assms by (auto simp: patch_bl_main_def bl31_buffer_def bl31_data_def Let_def split_beta split: option.splits if_splits)

lemma patch_bl_main_ok:
  assumes "file_in env = Some input" "patch_bl_main env = Some (0, out)"
  obtains buf where "patch_bl_output env input buf = (0, out)"
    "patch_el3 (of_nat BL31_SIZE) (bl31_buffer env input) = Some (0, buf)"
  using patch_bl_main_run [OF assms] by (metis zero_neq_one)

lemma patch_bl_output_ok:
  assumes "patch_bl_output env input buf = (0, out)" "length buf = BL31_SIZE"
  shows "out = Some (take BL31_START input @ buf @ drop (BL31_START + BL31_SIZE) input)"
    and "BL31_START + BL31_SIZE \<le> length input + 1"
proof -
  let ?rest = "int (length input) - int BL31_START - int BL31_SIZE"
  let ?t1 = "transfer (copy1_limit env) (int BL31_START) input" and ?t2 = "transfer (write_limit env) (int BL31_SIZE) buf"
    and ?t3 = "transfer (copy2_limit env) ?rest (drop (BL31_START + BL31_SIZE) input)"
  have n: "fst ?t1 = int BL31_START" "fst ?t2 = int BL31_SIZE" "fst ?t3 = ?rest"
    and out: "out = Some (snd ?t1 @ snd ?t2 @ snd ?t3)"
    using assms(1) by (auto simp: patch_bl_output_def Let_def split_beta split: if_splits)
  have d: "snd ?t1 = take BL31_START input" "snd ?t2 = buf"
    using transfer_complete [OF n(1)] transfer_complete [OF n(2)] assms(2) by simp_all
  show short: "BL31_START + BL31_SIZE \<le> length input + 1"
  proof -
    have "-1 \<le> fst ?t3" by (auto simp: transfer_def Let_def split: option.splits)
    then show ?thesis unfolding n(3) by linarith
  qed
  have "snd ?t3 = drop (BL31_START + BL31_SIZE) input"
  proof (cases "0 \<le> ?rest")
    case True
    then show ?thesis using transfer_complete [OF n(3)] by simp
  next
    case False
    then show ?thesis using length_transfer [of "copy2_limit env" ?rest "drop (BL31_START + BL31_SIZE) input"] by simp
  qed
  then show "out = Some (take BL31_START input @ buf @ drop (BL31_START + BL31_SIZE) input)" by (simp add: out d)
qed

text \<open>Every call succeeds and moves all that is asked for.\<close>

definition enough :: "nat option \<Rightarrow> nat \<Rightarrow> bool" where
  "enough limit count \<longleftrightarrow> (case limit of None \<Rightarrow> False | Some n \<Rightarrow> count \<le> n)"

definition calls_complete :: "patch_env \<Rightarrow> bytes \<Rightarrow> bool" where
  "calls_complete env input \<longleftrightarrow> 3 \<le> argc env \<and> \<not> out_exists env \<and> open_in env \<and> seek_in env \<and> stat_in env
     \<and> alloc_buf env \<and> enough (read_limit env) BL31_SIZE \<and> open_out env \<and> seek_start env
     \<and> enough (copy1_limit env) BL31_START \<and> enough (write_limit env) BL31_SIZE \<and> seek_rest env
     \<and> enough (copy2_limit env) (length input - (BL31_START + BL31_SIZE))"

lemma transfer_enough:
  "enough limit count \<Longrightarrow> transfer limit (int count) bs = (int (length (take count bs)), take count bs)"
  by (auto simp: enough_def transfer_def Let_def min_def split: option.splits)

lemma patch_bl_succeeds:
  assumes "file_in env = Some input" "length (fresh env) = BL31_SIZE" "calls_complete env input"
    and "patch_el3 (of_nat BL31_SIZE) (bl31_buffer env input) = Some (0, buf)"
    and "BL31_START + BL31_SIZE \<le> length input + 1"
  shows "\<exists>out. patch_bl_main env = Some (0, out)"
proof -
  have len: "length buf = BL31_SIZE" using patch_el3_length [OF assms(4)] length_bl31_buffer [OF assms(2)] by simp
  let ?rest = "int (length input) - int BL31_START - int BL31_SIZE"
  have size: "0 < BL31_SIZE" by (simp add: BL31_SIZE_def)
  have "fst (transfer (copy2_limit env) ?rest (drop (BL31_START + BL31_SIZE) input)) = ?rest"
  proof (cases "BL31_START + BL31_SIZE \<le> length input")
    case True
    then have "?rest = int (length input - (BL31_START + BL31_SIZE))" by simp
    then show ?thesis using assms(3) by (simp only: calls_complete_def transfer_enough) simp
  next
    case False
    then have "?rest = -1" using assms(5) by linarith
    then show ?thesis by (simp add: transfer_def split: option.splits)
  qed
  then obtain out where "patch_bl_output env input buf = (0, out)"
    using assms(3,5) len size
    by (simp add: patch_bl_output_def calls_complete_def transfer_enough Let_def split_beta)
  moreover have "patch_bl_main env = Some (patch_bl_output env input buf)"
    using assms(1,3,4) by (simp add: patch_bl_main_def calls_complete_def transfer_enough bl31_buffer_def bl31_data_def Let_def)
  ultimately show ?thesis by simp
qed

lemma patch_bl_main_short:
  assumes "file_in env = Some input" "length (fresh env) = BL31_SIZE" "calls_complete env input"
    and "patch_el3 (of_nat BL31_SIZE) (bl31_buffer env input) = Some (0, buf)"
    and short: "length input + 1 = BL31_START + BL31_SIZE"
  shows "\<exists>output. patch_bl_main env = Some (0, Some output) \<and> length output = BL31_START + BL31_SIZE"
proof -
  obtain out where run: "patch_bl_main env = Some (0, out)"
    using patch_bl_succeeds [OF assms(1-4)] short by auto
  obtain buf' where buf': "patch_bl_output env input buf' = (0, out)"
    "patch_el3 (of_nat BL31_SIZE) (bl31_buffer env input) = Some (0, buf')"
    by (rule patch_bl_main_ok [OF assms(1) run])
  have len: "length buf' = BL31_SIZE"
    using patch_el3_length [OF buf'(2)] length_bl31_buffer [OF assms(2)] by simp
  have "0 < BL31_SIZE" by (simp add: BL31_SIZE_def)
  then have "length (take BL31_START input @ buf' @ drop (BL31_START + BL31_SIZE) input) = BL31_START + BL31_SIZE"
    using short len by auto
  then show ?thesis using run patch_bl_output_ok(1) [OF buf'(1) len] by blast
qed

lemma patch_bl_main_result:
  assumes "file_in env = Some input" "length (fresh env) = BL31_SIZE" "patch_bl_main env = Some (ret, out)"
  shows "(out \<noteq> None \<longrightarrow> (\<exists>buf. patch_el3 (of_nat BL31_SIZE) (bl31_buffer env input) = Some (0, buf)))
    \<and> (ret = 0 \<longrightarrow> BL31_START + BL31_SIZE \<le> length input + 1 \<and>
        (\<exists>buf. patch_el3 (of_nat BL31_SIZE) (bl31_buffer env input) = Some (0, buf) \<and> length buf = BL31_SIZE \<and>
           out = Some (take BL31_START input @ buf @ drop (BL31_START + BL31_SIZE) input)))
    \<and> (ret = 0 \<and> length (bl31_data env input) = BL31_SIZE \<longrightarrow>
        (\<exists>output. out = Some output \<and> length output = length input \<and>
           take BL31_START output = take BL31_START input \<and>
           drop (BL31_START + BL31_SIZE) output = drop (BL31_START + BL31_SIZE) input \<and>
           patch_el3 (of_nat BL31_SIZE) (slice BL31_START BL31_SIZE input) = Some (0, slice BL31_START BL31_SIZE output)))
    \<and> (ret = 0 \<and> length input + 1 = BL31_START + BL31_SIZE \<longrightarrow>
        (\<exists>output. out = Some output \<and> length output = length input + 1))"
proof -
  note run = patch_bl_main_run [OF assms(1,3)]
  have size: "0 < BL31_SIZE" by (simp add: BL31_SIZE_def)
  have ok: "BL31_START + BL31_SIZE \<le> length input + 1 \<and>
      (\<exists>buf. patch_el3 (of_nat BL31_SIZE) (bl31_buffer env input) = Some (0, buf) \<and> length buf = BL31_SIZE \<and>
         out = Some (take BL31_START input @ buf @ drop (BL31_START + BL31_SIZE) input))" if ret: "ret = 0"
  proof -
    obtain buf where buf: "patch_bl_output env input buf = (0, out)"
      "patch_el3 (of_nat BL31_SIZE) (bl31_buffer env input) = Some (0, buf)"
      by (rule patch_bl_main_ok [OF assms(1) assms(3) [unfolded ret]])
    have "length buf = BL31_SIZE" using patch_el3_length [OF buf(2)] length_bl31_buffer [OF assms(2)] by simp
    then show ?thesis using patch_bl_output_ok [OF buf(1)] buf(2) by blast
  qed
  have "\<exists>output. out = Some output \<and> length output = length input \<and>
      take BL31_START output = take BL31_START input \<and>
      drop (BL31_START + BL31_SIZE) output = drop (BL31_START + BL31_SIZE) input \<and>
      patch_el3 (of_nat BL31_SIZE) (slice BL31_START BL31_SIZE input) = Some (0, slice BL31_START BL31_SIZE output)"
    if "ret = 0" and full: "length (bl31_data env input) = BL31_SIZE"
  proof -
    obtain buf where buf: "patch_el3 (of_nat BL31_SIZE) (bl31_buffer env input) = Some (0, buf)" "length buf = BL31_SIZE"
      "out = Some (take BL31_START input @ buf @ drop (BL31_START + BL31_SIZE) input)"
      using ok \<open>ret = 0\<close> by blast
    have data: "bl31_data env input = slice BL31_START BL31_SIZE input"
      using take_bl31_data [of env input] full by (simp add: slice_def)
    then have "bl31_buffer env input = slice BL31_START BL31_SIZE input"
      using full assms(2) by (simp add: bl31_buffer_def)
    moreover have "BL31_START + BL31_SIZE \<le> length input"
      using full data size by (simp add: slice_def)
    then have "length (take BL31_START input) = BL31_START" "BL31_START + BL31_SIZE \<le> length input" by simp_all
    ultimately show ?thesis using buf by (auto simp: slice_middle)
  qed
  moreover have "\<exists>output. out = Some output \<and> length output = length input + 1"
    if "ret = 0" "length input + 1 = BL31_START + BL31_SIZE"
    using ok that size by auto
  ultimately show ?thesis using run ok by blast
qed

text \<open>
  C24. Whatever the system calls do in a run that ends, an output file is only created after a successful patch of
  the buffer, which holds what \<open>read\<close> returned and behind that what the memory held before. When the program
  succeeds, the input has at least 0xca0000 bytes or just one less, and the output is the input's first 0xba0000
  bytes, the patched buffer and the input's bytes from 0xca0000 on. So when \<open>read\<close> returned the whole region, the
  output has the length of the input and equals it outside of the region, which holds what \<open>patch_el3\<close> makes of
  the input's; but when one byte is missing, the count of the last \<open>sendfile\<close> is -1, its failure counts as success,
  and the output is a byte longer than the input. If all calls do all of their work, nothing but a patch that fails
  (or reads past the end of its buffer) or a shorter input keeps the program from ending with success.
\<close>

theorem patch_bl_main_correct:
  assumes "file_in env = Some input" "length (fresh env) = BL31_SIZE"
  shows "(\<forall>ret out. patch_bl_main env = Some (ret, out) \<longrightarrow>
        (out \<noteq> None \<longrightarrow> (\<exists>buf. patch_el3 (of_nat BL31_SIZE) (bl31_buffer env input) = Some (0, buf)))
        \<and> (ret = 0 \<longrightarrow> BL31_START + BL31_SIZE \<le> length input + 1 \<and>
            (\<exists>buf. patch_el3 (of_nat BL31_SIZE) (bl31_buffer env input) = Some (0, buf) \<and> length buf = BL31_SIZE \<and>
               out = Some (take BL31_START input @ buf @ drop (BL31_START + BL31_SIZE) input)))
        \<and> (ret = 0 \<and> length (bl31_data env input) = BL31_SIZE \<longrightarrow>
            (\<exists>output. out = Some output \<and> length output = length input \<and>
               take BL31_START output = take BL31_START input \<and>
               drop (BL31_START + BL31_SIZE) output = drop (BL31_START + BL31_SIZE) input \<and>
               patch_el3 (of_nat BL31_SIZE) (slice BL31_START BL31_SIZE input) = Some (0, slice BL31_START BL31_SIZE output)))
        \<and> (ret = 0 \<and> length input + 1 = BL31_START + BL31_SIZE \<longrightarrow>
            (\<exists>output. out = Some output \<and> length output = length input + 1)))
    \<and> (calls_complete env input \<and> BL31_START + BL31_SIZE \<le> length input + 1 \<and>
        (\<exists>buf. patch_el3 (of_nat BL31_SIZE) (bl31_buffer env input) = Some (0, buf)) \<longrightarrow>
          (\<exists>out. patch_bl_main env = Some (0, out)))"
  using patch_bl_main_result [OF assms] patch_bl_succeeds [OF assms] by blast

text \<open>A firmware file that ends with the BL31 region: the example package followed by zeros.\<close>

definition region_example :: bytes where
  "region_example = fip_example @ replicate (BL31_SIZE - 128) 0"

definition patch_example :: patch_env where
  "patch_example =
     \<lparr>argc = 3, file_in = Some (replicate BL31_START 0 @ region_example), out_exists = False, open_in = True,
      seek_in = True, stat_in = True, alloc_buf = True, fresh = replicate BL31_SIZE 0, read_limit = Some 0x7ffff000,
      open_out = True, seek_start = True, copy1_limit = Some 0x7ffff000, write_limit = Some 0x7ffff000,
      seek_rest = True, copy2_limit = Some 0x7ffff000\<rparr>"

lemma length_fip_example: "length fip_example = 128" by code_simp

lemma length_region_example: "length region_example = BL31_SIZE"
  by (simp add: region_example_def length_fip_example BL31_SIZE_def)

lemma region_example_image:
  "bl31_image region_example 56 72" "find (\<lambda>j. is_stub region_example (56 + j)) [0..<72 - 37] = Some 3"
proof -
  have read: "buf_read region_example off k = buf_read fip_example off k" if "off + k \<le> 128" for off k
    using that by (simp add: buf_read_def slice_def region_example_def length_fip_example BL31_SIZE_def)
  have "find_bl31 fip_example [0] = Some (Some 16)" by code_simp
  then have "find_bl31 region_example [0] = Some (Some 16)"
    using read [of 16 16] by (simp add: fip_entry_offset_def split: option.splits if_splits)
  moreover have "[0..<16] = 0 # [1..<16::nat]" by (simp add: upt_conv_Cons)
  ultimately have entry: "find_bl31 region_example [0..<16] = Some (Some 16)"
    by (auto split: option.splits if_splits)
  have "read64 fip_example 0 = Some FIP_MAGIC" "map_option unat (read64 fip_example 32) = Some 56"
    "map_option unat (read64 fip_example 40) = Some 72" by code_simp+
  then show "bl31_image region_example 56 72"
    using read [of 0 8] read [of 32 8] read [of 40 8]
    by (simp add: bl31_image_def entry read64_def length_region_example BL31_SIZE_def)
  have "is_stub region_example (56 + j) = is_stub fip_example (56 + j)" if "j < 35" for j
    using that by (auto simp: is_stub_def list_all_iff region_example_def nth_append length_fip_example)
  then have "find (\<lambda>j. is_stub region_example (56 + j)) [0..<72 - 37]
      = find (\<lambda>j. is_stub fip_example (56 + j)) [0..<72 - 37]"
    by (intro find_cong) auto
  then show "find (\<lambda>j. is_stub region_example (56 + j)) [0..<72 - 37] = Some 3"
    using fip_example_image(2) by simp
qed

lemma region_example_patched:
  obtains buf where "patch_el3 (of_nat BL31_SIZE) region_example = Some (0, buf)"
  using patch_el3_effect [OF region_example_image, of "of_nat BL31_SIZE"] by blast

lemma patch_example_facts:
  "calls_complete (patch_example\<lparr>file_in := Some input\<rparr>) input \<longleftrightarrow> length input \<le> 0x80c9f000"
  "length (fresh (patch_example\<lparr>file_in := Some input\<rparr>)) = BL31_SIZE"
  "file_in (patch_example\<lparr>file_in := Some input\<rparr>) = Some input"
  by (auto simp: calls_complete_def enough_def patch_example_def BL31_START_def BL31_SIZE_def)

lemma patch_example_data:
  "bl31_data (patch_example\<lparr>file_in := Some input\<rparr>) input = slice BL31_START BL31_SIZE input"
  by (simp add: bl31_data_def transfer_def patch_example_def Let_def slice_def BL31_SIZE_def)

theorem patch_bl_main_correct_witness:
  "\<exists>output. patch_bl_main patch_example = Some (0, Some output) \<and> length output = BL31_START + BL31_SIZE \<and>
     take BL31_START output = replicate BL31_START 0 \<and>
     patch_el3 (of_nat BL31_SIZE) region_example = Some (0, slice BL31_START BL31_SIZE output)"
proof -
  let ?input = "replicate BL31_START 0 @ region_example"
  have env: "patch_example = patch_example\<lparr>file_in := Some ?input\<rparr>" by (simp add: patch_example_def)
  note facts = patch_example_facts [of ?input, folded env] and data = patch_example_data [of ?input, folded env]
  have len: "length ?input = BL31_START + BL31_SIZE" by (simp add: length_region_example)
  have slice: "slice BL31_START BL31_SIZE ?input = region_example"
    using slice_middle [of "replicate BL31_START 0" BL31_START region_example BL31_SIZE "[]"]
    by (simp add: length_region_example)
  have buffer: "bl31_buffer patch_example ?input = region_example"
    by (simp add: bl31_buffer_def data slice facts(2) length_region_example)
  obtain buf where buf: "patch_el3 (of_nat BL31_SIZE) region_example = Some (0, buf)" by (rule region_example_patched)
  have "calls_complete patch_example ?input" unfolding facts(1) len by (simp add: BL31_START_def BL31_SIZE_def)
  moreover have "patch_el3 (of_nat BL31_SIZE) (bl31_buffer patch_example ?input) = Some (0, buf)" by (simp only: buffer buf)
  ultimately obtain out where run: "patch_bl_main patch_example = Some (0, out)"
    using patch_bl_succeeds [OF facts(3,2)] len by (metis le_add1)
  have "length (bl31_data patch_example ?input) = BL31_SIZE" by (simp add: data slice length_region_example)
  then show ?thesis
    using patch_bl_main_correct [OF facts(3,2)] run by (auto simp: slice length_region_example)
qed

text \<open>
  The same file without its last byte: the program says that it has succeeded, and its output is a byte longer than
  the input; the last byte is the one that the memory of the buffer happened to hold.
\<close>

lemma last_byte: "128 < m \<Longrightarrow> drop (m - 1) (fip_example @ replicate (m - 128) 0) = drop (m - 1) (replicate m 0)"
  by (simp add: length_fip_example)

theorem patch_bl_one_byte_short:
  "\<exists>output. patch_bl_main (patch_example\<lparr>file_in := Some (replicate BL31_START 0 @ take (BL31_SIZE - 1) region_example)\<rparr>)
      = Some (0, Some output) \<and> length output = BL31_START + BL31_SIZE"
proof -
  let ?input = "replicate BL31_START 0 @ take (BL31_SIZE - 1) region_example"
  let ?env = "patch_example\<lparr>file_in := Some ?input\<rparr>"
  have size: "0 < BL31_SIZE" by (simp add: BL31_SIZE_def)
  then have len: "length ?input + 1 = BL31_START + BL31_SIZE" by (simp add: length_region_example)
  have "slice BL31_START BL31_SIZE ?input = take (BL31_SIZE - 1) region_example" by (simp add: slice_def)
  moreover have "drop (BL31_SIZE - 1) (fresh ?env) = drop (BL31_SIZE - 1) region_example"
    unfolding region_example_def by (subst last_byte) (simp_all add: patch_example_def BL31_SIZE_def)
  ultimately have buffer: "bl31_buffer ?env ?input = region_example"
    by (simp add: bl31_buffer_def patch_example_data length_region_example append_take_drop_id)
  obtain buf where buf: "patch_el3 (of_nat BL31_SIZE) region_example = Some (0, buf)" by (rule region_example_patched)
  have "length ?input \<le> 0x80c9f000" using len by (simp add: BL31_START_def BL31_SIZE_def)
  then have complete: "calls_complete ?env ?input" by (simp only: patch_example_facts(1))
  have "patch_el3 (of_nat BL31_SIZE) (bl31_buffer ?env ?input) = Some (0, buf)" by (simp only: buffer buf)
  then show ?thesis by (rule patch_bl_main_short [OF patch_example_facts(3,2) complete _ len])
qed

end
