(* ===== verification/TlsfBits.thy ===== *)
theory TlsfBits imports Prelude begin

text \<open>
  The arithmetic of the allocator \<open>tlsf.c\<close> (64-bit build with the generic bit routines): find-last-set
  and find-first-set, alignment, the adjustment of a request and the mapping of a size to its first- and
  second-level list. The lemmas give each its meaning on numbers, and show that a block found from the
  list that \<open>mapping_search\<close> gives, or a later one, is large enough.
\<close>

unbundle bit_operations_syntax

section \<open>Bit routines\<close>

text \<open>One line of \<open>tlsf_fls_generic\<close>: \<open>if (!(word & mask)) { word <<= k; bit -= k; }\<close>\<close>

definition fls_step :: "u32 \<Rightarrow> nat \<Rightarrow> u32 \<times> int \<Rightarrow> u32 \<times> int" where
  "fls_step msk k wb =
     (case wb of (word, nbit) \<Rightarrow> if word AND msk = 0 then (push_bit k word, nbit - int k) else (word, nbit))"

definition tlsf_fls_generic :: "u32 \<Rightarrow> int" where
  "tlsf_fls_generic word =
     (let nbit = (if word = 0 then 31 else 32)
      in snd (fls_step 0x80000000 1 (fls_step 0xc0000000 2 (fls_step 0xf0000000 4
           (fls_step 0xff000000 8 (fls_step 0xffff0000 16 (word, nbit)))))))"

definition tlsf_ffs :: "u32 \<Rightarrow> int" where
  "tlsf_ffs word = tlsf_fls_generic (word AND (NOT word + 1)) - 1"

definition tlsf_fls :: "u32 \<Rightarrow> int" where
  "tlsf_fls word = tlsf_fls_generic word - 1"

definition tlsf_fls_sizet :: "u64 \<Rightarrow> int" where
  "tlsf_fls_sizet sz =
     (let high = ucast (drop_bit 32 sz) :: u32
      in if high \<noteq> 0 then 32 + tlsf_fls high else tlsf_fls (ucast sz AND 0xffffffff))"

section \<open>Constants\<close>

definition SL_INDEX_COUNT_LOG2 :: nat where "SL_INDEX_COUNT_LOG2 = 5"
definition ALIGN_SIZE_LOG2 :: nat where "ALIGN_SIZE_LOG2 = 3"
definition ALIGN_SIZE :: u64 where "ALIGN_SIZE = push_bit ALIGN_SIZE_LOG2 1"
definition FL_INDEX_MAX :: nat where "FL_INDEX_MAX = 32"
definition SL_INDEX_COUNT :: nat where "SL_INDEX_COUNT = 2 ^ SL_INDEX_COUNT_LOG2"
definition FL_INDEX_SHIFT :: nat where "FL_INDEX_SHIFT = SL_INDEX_COUNT_LOG2 + ALIGN_SIZE_LOG2"
definition FL_INDEX_COUNT :: nat where "FL_INDEX_COUNT = FL_INDEX_MAX - FL_INDEX_SHIFT + 1"
definition SMALL_BLOCK_SIZE :: u64 where "SMALL_BLOCK_SIZE = push_bit FL_INDEX_SHIFT 1"
definition block_size_min :: u64 where "block_size_min = 32 - 8"
definition block_size_max :: u64 where "block_size_max = push_bit FL_INDEX_MAX 1"

lemma tlsf_constants:
  "SL_INDEX_COUNT_LOG2 = 5" "ALIGN_SIZE = 8" "SL_INDEX_COUNT = 32" "FL_INDEX_SHIFT = 8"
  "FL_INDEX_COUNT = 25" "SMALL_BLOCK_SIZE = 256" "block_size_min = 24" "block_size_max = 4294967296"
  by (simp_all add: SL_INDEX_COUNT_LOG2_def ALIGN_SIZE_def ALIGN_SIZE_LOG2_def SL_INDEX_COUNT_def
      FL_INDEX_SHIFT_def FL_INDEX_COUNT_def FL_INDEX_MAX_def SMALL_BLOCK_SIZE_def block_size_min_def
      block_size_max_def push_bit_eq_mult)

text \<open>The conditions that the compiler checks, for \<open>int\<close> and \<open>unsigned int\<close> of 32 bits and \<open>size_t\<close> of 64 bits.\<close>

definition tlsf_static_asserts :: bool where
  "tlsf_static_asserts \<longleftrightarrow> LENGTH(32) = 32 \<and> 32 \<le> LENGTH(64) \<and> LENGTH(64) \<le> 64
     \<and> SL_INDEX_COUNT \<le> LENGTH(32) \<and> unat ALIGN_SIZE = unat SMALL_BLOCK_SIZE div SL_INDEX_COUNT"

lemma static_asserts_hold: tlsf_static_asserts
  by (simp add: tlsf_static_asserts_def tlsf_constants)

section \<open>Alignment and requests\<close>

definition align_up :: "u64 \<Rightarrow> u64 \<Rightarrow> u64" where
  "align_up x align = (x + (align - 1)) AND NOT (align - 1)"

definition align_down :: "u64 \<Rightarrow> u64 \<Rightarrow> u64" where
  "align_down x align = x - (x AND (align - 1))"

definition align_ptr :: "u64 \<Rightarrow> u64 \<Rightarrow> u64" where
  "align_ptr ptr align = (ptr + (align - 1)) AND NOT (align - 1)"

definition adjust_request_size :: "u64 \<Rightarrow> u64 \<Rightarrow> u64" where
  "adjust_request_size sz align =
     (if sz \<noteq> 0 then
        let aligned = align_up sz align in
        if aligned < block_size_max then (if aligned > block_size_min then aligned else block_size_min)
        else 0
      else 0)"

section \<open>Size classes\<close>

definition mapping_insert :: "u64 \<Rightarrow> nat \<times> nat" where
  "mapping_insert sz =
     (if sz < SMALL_BLOCK_SIZE then (0, unat sz div (unat SMALL_BLOCK_SIZE div SL_INDEX_COUNT))
      else
        let fl = nat (tlsf_fls_sizet sz);
            sl = unat (drop_bit (fl - SL_INDEX_COUNT_LOG2) sz) XOR (2 ^ SL_INDEX_COUNT_LOG2)
        in (fl - (FL_INDEX_SHIFT - 1), sl))"

text \<open>
  The C code shifts the \<open>int\<close> 1. The shift here is of a 64-bit word; the two agree below \<open>2^36\<close>, and the callers
  only ask for adjusted sizes, which are below \<open>2^32\<close>.
\<close>

definition mapping_search :: "u64 \<Rightarrow> nat \<times> nat" where
  "mapping_search sz =
     mapping_insert
       (if sz \<ge> SMALL_BLOCK_SIZE
        then sz + (push_bit (nat (tlsf_fls_sizet sz) - SL_INDEX_COUNT_LOG2) 1 - 1) else sz)"

section \<open>What the bit routines compute\<close>

text \<open>\<open>log2_of n k\<close>: \<open>k\<close> is the position of the highest set bit of \<open>n\<close>.\<close>

definition log2_of :: "nat \<Rightarrow> nat \<Rightarrow> bool" where
  "log2_of n k \<longleftrightarrow> 2 ^ k \<le> n \<and> n < 2 ^ (k + 1)"

lemma log2_of_unique: "log2_of n a \<Longrightarrow> log2_of n b \<Longrightarrow> a = b"
proof (rule ccontr)
  assume "log2_of n a" "log2_of n b" "a \<noteq> b"
  then consider "a + 1 \<le> b" | "b + 1 \<le> a" by linarith
  then show False
  proof cases
    case 1
    then have "(2::nat) ^ (a + 1) \<le> 2 ^ b" by (rule power_increasing) simp
    then show ?thesis using \<open>log2_of n a\<close> \<open>log2_of n b\<close> unfolding log2_of_def by linarith
  next
    case 2
    then have "(2::nat) ^ (b + 1) \<le> 2 ^ a" by (rule power_increasing) simp
    then show ?thesis using \<open>log2_of n a\<close> \<open>log2_of n b\<close> unfolding log2_of_def by linarith
  qed
qed

text \<open>The state of the scan: \<open>word\<close> is the input shifted left by \<open>32 - bit\<close>, and the chunk looked at is in its
  upper half.\<close>

definition fls_inv :: "nat \<Rightarrow> nat \<Rightarrow> u32 \<times> int \<Rightarrow> bool" where
  "fls_inv n k wb \<longleftrightarrow> (\<exists>b \<le> 32. snd wb = int b \<and> unat (fst wb) = n * 2 ^ (32 - b) \<and> 2 ^ (32 - k) \<le> unat (fst wb) \<and> k \<le> b)"

lemma fls_invI:
  "b \<le> 32 \<Longrightarrow> unat w = n * 2 ^ (32 - b) \<Longrightarrow> 2 ^ (32 - k) \<le> unat w \<Longrightarrow> k \<le> b \<Longrightarrow> fls_inv n k (w, int b)"
  by (auto simp: fls_inv_def)

lemma top_mask_zero:
  "k \<le> 32 \<Longrightarrow> (w :: u32) AND push_bit (32 - k) (mask k) = 0 \<longleftrightarrow> unat w < 2 ^ (32 - k)"
proof -
  assume k: "k \<le> 32"
  have "w AND push_bit (32 - k) (mask k) = push_bit (32 - k) (drop_bit (32 - k) w)"
    using k by (intro bit_word_eqI) (auto simp: bit_simps)
  moreover have "push_bit (32 - k) (drop_bit (32 - k) w) = 0 \<longleftrightarrow> drop_bit (32 - k) w = 0"
  proof
    assume z: "push_bit (32 - k) (drop_bit (32 - k) w) = 0"
    show "drop_bit (32 - k) w = 0"
    proof (rule bit_word_eqI)
      fix i
      assume i: "i < LENGTH(32)"
      have "\<not> bit (push_bit (32 - k) (drop_bit (32 - k) w)) (i + (32 - k))" using z by simp
      then show "bit (drop_bit (32 - k) w) i = bit (0 :: u32) i"
        using k i bit_imp_le_length [of w "32 - k + i"] by (auto simp: bit_simps ac_simps)
    qed
  qed simp
  moreover have "drop_bit (32 - k) w = 0 \<longleftrightarrow> unat (drop_bit (32 - k) w) = 0" by (simp add: unat_eq_0)
  moreover have "unat (drop_bit (32 - k) w) = unat w div 2 ^ (32 - k)"
    by (simp only: unat_drop_bit_eq) (simp only: drop_bit_eq_div)
  ultimately show ?thesis by (simp add: div_eq_0_iff)
qed

lemma fls_step_inv:
  assumes "fls_inv n (2 * k) wb" "2 * k \<le> 32" "0 < k"
  shows "fls_inv n k (fls_step (push_bit (32 - k) (mask k)) k wb)"
proof -
  obtain w b where wb: "wb = (w, int b)" "b \<le> 32" "unat w = n * 2 ^ (32 - b)" "2 ^ (32 - 2 * k) \<le> unat w" "2 * k \<le> b"
    using assms(1) by (cases wb) (auto simp: fls_inv_def)
  show ?thesis
  proof (cases "unat w < 2 ^ (32 - k)")
    case True
    have "unat w * 2 ^ k < 2 ^ (32 - k) * 2 ^ k" using True by simp
    also have "\<dots> = 2 ^ 32" using assms(2) by (simp flip: power_add)
    finally have lt: "unat w * 2 ^ k < 2 ^ 32" .
    then have shifted: "unat (push_bit k w) = unat w * 2 ^ k"
      by (simp only: unsigned_push_bit_eq) (simp add: push_bit_eq_mult take_bit_nat_eq_self)
    have "32 - (b - k) = 32 - b + k" using wb(2,5) by simp
    then have val: "unat (push_bit k w) = n * 2 ^ (32 - (b - k))"
      using shifted wb(3) by (simp only: power_add mult.assoc)
    have "32 - k = 32 - 2 * k + k" using assms(2) by simp
    then have "(2::nat) ^ (32 - k) = 2 ^ (32 - 2 * k) * 2 ^ k" by (simp only: power_add)
    then have large: "2 ^ (32 - k) \<le> unat (push_bit k w)" using wb(4) shifted by simp
    have "fls_inv n k (push_bit k w, int (b - k))"
      by (rule fls_invI [OF _ val large]) (use wb in auto)
    moreover have "fls_step (push_bit (32 - k) (mask k)) k wb = (push_bit k w, int (b - k))"
      using True wb assms(2) top_mask_zero [of k w] by (simp add: fls_step_def of_nat_diff)
    ultimately show ?thesis by simp
  next
    case False
    then have "fls_step (push_bit (32 - k) (mask k)) k wb = (w, int b)"
      using wb assms(2) top_mask_zero [of k w] by (simp add: fls_step_def)
    then show ?thesis using wb False by (simp add: fls_invI)
  qed
qed

lemma tlsf_fls_generic_correct:
  assumes "word \<noteq> 0"
  shows "\<exists>k<32. tlsf_fls_generic word = int k + 1 \<and> log2_of (unat word) k"
proof -
  let ?n = "unat word"
  have masks: "push_bit (32 - 16) (mask 16) = (0xffff0000 :: u32)" "push_bit (32 - 8) (mask 8) = (0xff000000 :: u32)"
    "push_bit (32 - 4) (mask 4) = (0xf0000000 :: u32)" "push_bit (32 - 2) (mask 2) = (0xc0000000 :: u32)"
    "push_bit (32 - 1) (mask 1) = (0x80000000 :: u32)"
    by (simp_all add: mask_numeral push_bit_eq_mult)
  define r where "r = fls_step 0x80000000 1 (fls_step 0xc0000000 2 (fls_step 0xf0000000 4
    (fls_step 0xff000000 8 (fls_step 0xffff0000 16 (word, 32)))))"
  have "0 < ?n" using assms by (simp add: unat_gt_0)
  then have "fls_inv ?n 32 (word, int 32)" by (intro fls_invI) simp_all
  then have "fls_inv ?n 32 (word, 32)" by simp
  then have "fls_inv ?n 16 (fls_step 0xffff0000 16 (word, 32))"
    using fls_step_inv [of ?n 16] masks(1) by simp
  then have "fls_inv ?n 8 (fls_step 0xff000000 8 (fls_step 0xffff0000 16 (word, 32)))"
    using fls_step_inv [of ?n 8] masks(2) by simp
  then have "fls_inv ?n 4 (fls_step 0xf0000000 4 (fls_step 0xff000000 8 (fls_step 0xffff0000 16 (word, 32))))"
    using fls_step_inv [of ?n 4] masks(3) by simp
  then have "fls_inv ?n 2 (fls_step 0xc0000000 2 (fls_step 0xf0000000 4 (fls_step 0xff000000 8
      (fls_step 0xffff0000 16 (word, 32)))))"
    using fls_step_inv [of ?n 2] masks(4) by simp
  then have "fls_inv ?n 1 r"
    unfolding r_def using fls_step_inv [of ?n 1] masks(5) by simp
  then obtain b where b: "b \<le> 32" "1 \<le> b" "snd r = int b" "unat (fst r) = ?n * 2 ^ (32 - b)" "2 ^ 31 \<le> unat (fst r)"
    by (auto simp: fls_inv_def)
  have "?n * 2 ^ (32 - b) < 2 ^ b * 2 ^ (32 - b)"
    using unsigned_less [of "fst r", where 'a = nat] b(1,4) by (simp flip: power_add)
  then have "?n < 2 ^ b" by simp
  moreover have "(2::nat) ^ 31 = 2 ^ (b - 1) * 2 ^ (32 - b)" using b(1,2) by (simp flip: power_add)
  then have "2 ^ (b - 1) * 2 ^ (32 - b) \<le> ?n * 2 ^ (32 - b)" using b(4,5) by simp
  then have "2 ^ (b - 1) \<le> ?n" by simp
  moreover have "tlsf_fls_generic word = int b"
    using assms b(3) by (simp add: tlsf_fls_generic_def r_def)
  ultimately show ?thesis using b(1,2) by (intro exI [of _ "b - 1"]) (simp add: log2_of_def)
qed

lemma tlsf_fls_correct: "word \<noteq> 0 \<Longrightarrow> \<exists>k<32. tlsf_fls word = int k \<and> log2_of (unat word) k"
  using tlsf_fls_generic_correct [of word] by (auto simp: tlsf_fls_def)

lemma tlsf_fls_eq: "log2_of (unat word) k \<Longrightarrow> tlsf_fls word = int k"
proof -
  assume k: "log2_of (unat word) k"
  then have "word \<noteq> 0" by (auto simp: log2_of_def)
  with k show ?thesis using tlsf_fls_correct log2_of_unique by blast
qed

text \<open>\<open>word & (~word + 1)\<close> is the lowest set bit.\<close>

lemma odd_part: "0 < (n :: nat) \<Longrightarrow> \<exists>i q. n = 2 ^ i * (2 * q + 1)"
proof (induction n rule: less_induct)
  case (less n)
  show ?case
  proof (cases "even n")
    case True
    then obtain m where m: "n = 2 * m" by blast
    then have "m < n" "0 < m" using less.prems by auto
    then obtain i q where "m = 2 ^ i * (2 * q + 1)" using less.IH by blast
    with m show ?thesis by (intro exI [of _ "i + 1"] exI [of _ q]) simp
  next
    case False
    then obtain q where "n = 2 * q + 1" by (rule oddE)
    then show ?thesis by (intro exI [of _ 0] exI [of _ q]) simp
  qed
qed

lemma and_minus_int: "((2::int) ^ i * (2 * q + 1)) AND - (2 ^ i * (2 * q + 1)) = 2 ^ i"
proof -
  have minus: "- (2 ^ i * (2 * q + 1)) = push_bit i (1 + 2 * NOT q)"
    by (simp add: push_bit_eq_mult not_int_def algebra_simps)
  have plus: "(2::int) ^ i * (2 * q + 1) = push_bit i (1 + 2 * q)"
    by (simp add: push_bit_eq_mult algebra_simps)
  have "(1 + 2 * q) AND (1 + 2 * NOT q) = 1"
  proof (rule bit_eqI)
    fix j
    show "bit ((1 + 2 * q) AND (1 + 2 * NOT q)) j = bit (1 :: int) j"
      by (auto simp: bit_and_iff even_bit_succ_iff bit_double_iff bit_not_iff bit_1_iff)
  qed
  moreover have "((2::int) ^ i * (2 * q + 1)) AND - (2 ^ i * (2 * q + 1)) = push_bit i ((1 + 2 * q) AND (1 + 2 * NOT q))"
    by (simp only: minus push_bit_and) (simp only: plus)
  ultimately show ?thesis by (simp add: push_bit_eq_mult)
qed

lemma tlsf_ffs_correct:
  assumes "word \<noteq> 0"
  shows "\<exists>i<32. tlsf_ffs word = int i \<and> bit word i \<and> (\<forall>j<i. \<not> bit word j)"
proof -
  have "0 < unat word" using assms by (simp add: unat_gt_0)
  then obtain i q where n: "unat word = 2 ^ i * (2 * q + 1)" using odd_part by blast
  then have int_n: "uint word = 2 ^ i * (2 * int q + 1)"
    by (metis (mono_tags, lifting) of_nat_1 of_nat_add of_nat_mult of_nat_numeral of_nat_power uint_nat)
  have i: "i < 32"
  proof (rule ccontr)
    assume "\<not> i < 32"
    then have "(2::nat) ^ 32 \<le> 2 ^ i" by (intro power_increasing) simp_all
    also have "\<dots> \<le> unat word" by (simp add: n)
    finally show False using unsigned_less [of word, where 'a = nat] by simp
  qed
  have "word AND (NOT word + 1) = word AND - word" by (simp add: minus_eq_not_plus_1)
  also have "\<dots> = of_int (uint word) AND of_int (- uint word)" by simp
  also have "\<dots> = of_int (uint word AND - uint word)" by (simp only: of_int_and_eq)
  also have "\<dots> = 2 ^ i" by (simp add: int_n and_minus_int)
  finally have low: "word AND (NOT word + 1) = 2 ^ i" .
  have "unat (2 ^ i :: u32) = 2 ^ i"
  proof -
    have "(2::nat) ^ i < 2 ^ 32" using i by (intro power_strict_increasing) simp_all
    then show ?thesis using unat_of_nat [of "2 ^ i", where 'a = 32] by (simp add: take_bit_nat_eq_self)
  qed
  then have "log2_of (unat (2 ^ i :: u32)) i" by (simp add: log2_of_def)
  then have "tlsf_ffs word = int i"
    unfolding tlsf_ffs_def low using tlsf_fls_eq [of "2 ^ i" i] by (simp add: tlsf_fls_def)
  moreover have bit: "bit word j = odd (unat word div 2 ^ j)" for j
    by (metis bit_iff_odd bit_unsigned_iff bit_imp_possible_bit possible_bit_word unsigned_word_eqI bit_uint_iff uint_nat bit_of_nat_iff_bit)
  ultimately show ?thesis using i
  proof (intro exI [of _ i] conjI allI impI)
    show "bit word i" unfolding bit n by simp
    fix j
    assume "j < i"
    then have "(2::nat) ^ i = 2 ^ j * (2 * 2 ^ (i - j - 1))" by (simp flip: power_add power_Suc)
    then show "\<not> bit word j" unfolding bit n by simp
  qed simp_all
qed

lemma tlsf_fls_sizet_correct:
  assumes "sz \<noteq> 0"
  shows "\<exists>k<64. tlsf_fls_sizet sz = int k \<and> log2_of (unat sz) k"
proof -
  define high where "high = (ucast (drop_bit 32 sz) :: u32)"
  have lt: "unat sz < 2 ^ 64" using unsigned_less [of sz, where 'a = nat] by simp
  then have "unat sz div 2 ^ 32 < 2 ^ 32" by (simp add: less_mult_imp_div_less)
  moreover have "unat (drop_bit 32 sz) = unat sz div 2 ^ 32"
    by (simp only: unat_drop_bit_eq) (simp only: drop_bit_eq_div)
  ultimately have high: "unat high = unat sz div 2 ^ 32"
    unfolding high_def unsigned_ucast_eq by (simp add: take_bit_nat_eq_self)
  show ?thesis
  proof (cases "high = 0")
    case True
    then have "unat sz div 2 ^ 32 = 0" using high by simp
    then have small: "unat sz < 2 ^ 32" by (simp add: div_eq_0_iff)
    then have "unat (ucast sz AND 0xffffffff :: u32) = unat sz"
      using unat_and_mask [of "ucast sz :: u32" 32]
      by (simp add: mask_numeral unsigned_ucast_eq take_bit_nat_eq_self)
    then have low: "unat (ucast sz AND 0xffffffff :: u32) = unat sz" "(ucast sz AND 0xffffffff :: u32) \<noteq> 0"
      using assms by (metis, metis unat_eq_0)
    then obtain k where "k < 32" "tlsf_fls (ucast sz AND 0xffffffff) = int k" "log2_of (unat sz) k"
      using tlsf_fls_correct by metis
    then show ?thesis
      using True by (intro exI [of _ k]) (simp add: tlsf_fls_sizet_def high_def)
  next
    case False
    then obtain k where k: "k < 32" "tlsf_fls high = int k" "log2_of (unat sz div 2 ^ 32) k"
      using tlsf_fls_correct high by metis
    then have "2 ^ k * 2 ^ 32 \<le> unat sz" "unat sz < 2 ^ (k + 1) * 2 ^ 32"
      by (simp_all add: log2_of_def less_eq_div_iff_mult_less_eq div_less_iff_less_mult)
    then have "log2_of (unat sz) (32 + k)" by (simp add: log2_of_def power_add mult.commute)
    then show ?thesis
      using False k by (intro exI [of _ "32 + k"]) (simp add: tlsf_fls_sizet_def high_def Let_def)
  qed
qed

lemma tlsf_fls_sizet_eq: "log2_of (unat sz) k \<Longrightarrow> tlsf_fls_sizet sz = int k"
proof -
  assume k: "log2_of (unat sz) k"
  then have "sz \<noteq> 0" by (auto simp: log2_of_def)
  with k show ?thesis using tlsf_fls_sizet_correct log2_of_unique by blast
qed

section \<open>Alignment\<close>

lemma unat_and_not_mask: "unat ((x :: u64) AND NOT (mask k)) = unat x div 2 ^ k * 2 ^ k"
proof -
  have "x AND NOT (mask k) = push_bit k (drop_bit k x)"
    by (rule bit_word_eqI) (auto simp: bit_simps)
  then have "x AND NOT (mask k) = x - take_bit k x"
    by (metis add_diff_cancel_right' bits_ident)
  moreover have "unat (take_bit k x) = unat x mod 2 ^ k" by (simp only: unsigned_take_bit_eq) (simp only: take_bit_eq_mod)
  ultimately have "unat (x AND NOT (mask k)) = unat x - unat x mod 2 ^ k"
    by (metis mod_less_eq_dividend unat_sub word_le_nat_alt)
  then show ?thesis by (simp add: minus_mod_eq_div_mult)
qed

lemma align_up_correct:
  assumes "unat x + (2 ^ k - 1) < 2 ^ 64" "k < 64"
  shows "unat (align_up x (2 ^ k)) = (unat x + (2 ^ k - 1)) div 2 ^ k * 2 ^ k"
proof -
  have "(2 ^ k :: u64) - 1 = mask k" by (simp add: mask_eq_exp_minus_1)
  moreover have "unat (mask k :: u64) = 2 ^ k - 1"
  proof -
    have "(mask k :: u64) = of_nat (2 ^ k - 1)" by (simp add: mask_eq_exp_minus_1 of_nat_diff)
    moreover have "(2::nat) ^ k < 2 ^ 64" using assms(2) by (intro power_strict_increasing) simp_all
    ultimately show ?thesis using unat_of_nat_u64 [of "2 ^ k - 1"] by (simp del: of_nat_diff)
  qed
  then have "unat (x + mask k) = unat x + (2 ^ k - 1)"
    using assms(1) by (simp add: unat_word_ariths)
  ultimately show ?thesis by (simp add: align_up_def unat_and_not_mask)
qed

lemma align_up_8: "unat x + 7 < 2 ^ 64 \<Longrightarrow> unat (align_up x 8) = (unat x + 7) div 8 * 8"
  using align_up_correct [of x 3] by simp

text \<open>The adjusted size on numbers: the next multiple of 8, at least 24, and 0 for what cannot be served.\<close>

definition adjusted :: "nat \<Rightarrow> nat" where
  "adjusted n = (let a = (n + 7) div 8 * 8 in if n = 0 \<or> 2 ^ 32 \<le> a then 0 else max 24 a)"

lemma adjust_request_size_correct:
  assumes "unat sz + 7 < 2 ^ 64"
  shows "unat (adjust_request_size sz ALIGN_SIZE) = adjusted (unat sz)"
proof -
  define a where "a = align_up sz 8"
  have a: "unat a = (unat sz + 7) div 8 * 8" using align_up_8 [OF assms] by (simp add: a_def)
  have "adjust_request_size sz ALIGN_SIZE =
      (if sz \<noteq> 0 then if a < 4294967296 then if a > 24 then a else 24 else 0 else 0)"
    by (simp only: adjust_request_size_def tlsf_constants Let_def a_def)
  moreover have "a < 4294967296 \<longleftrightarrow> unat a < 2 ^ 32" "a > 24 \<longleftrightarrow> 24 < unat a" "sz = 0 \<longleftrightarrow> unat sz = 0"
    by (simp_all add: word_less_nat_alt unat_eq_0)
  ultimately show ?thesis
    by (simp add: adjusted_def a Let_def max_def del: power_numeral)
qed

lemma adjusted_props:
  "adjusted n \<noteq> 0 \<Longrightarrow> 8 dvd adjusted n \<and> 24 \<le> adjusted n \<and> n \<le> adjusted n \<and> adjusted n < 2 ^ 32 \<and> adjusted n \<le> max 24 (n + 7)"
  by (auto simp: adjusted_def Let_def max_def split: if_splits)

section \<open>Size classes\<close>

text \<open>Classes in one line, numbered by \<open>32 * fl + sl\<close>; \<open>class_min c\<close> is the least size of class \<open>c\<close>.\<close>

definition class_of :: "nat \<times> nat \<Rightarrow> nat" where
  "class_of fs = 32 * fst fs + snd fs"

definition class_min :: "nat \<Rightarrow> nat" where
  "class_min c = (if c < 32 then 8 * c else 2 ^ (c div 32 + 2) * (32 + c mod 32))"

lemma class_min_large:
  assumes "8 \<le> k" "w < 32"
  shows "class_min (32 * (k - 7) + w) = 2 ^ (k - 5) * (32 + w)"
proof -
  have "(32 * (k - 7) + w) div 32 = k - 7" "(32 * (k - 7) + w) mod 32 = w" "\<not> 32 * (k - 7) + w < 32"
    using assms by simp_all
  moreover have "k - 7 + 2 = k - 5" using assms(1) by simp
  ultimately show ?thesis by (simp only: class_min_def if_False)
qed

lemma class_min_strict: "class_min c < class_min (Suc c)"
proof -
  consider "c < 31" | "c = 31" | "32 \<le> c" "c mod 32 = 31" | "32 \<le> c" "c mod 32 < 31" by fastforce
  then show ?thesis
  proof cases
    case 3
    then have "Suc c mod 32 = 0" "Suc c div 32 = Suc (c div 32)" by (simp_all add: mod_Suc div_Suc)
    then show ?thesis using 3 by (simp add: class_min_def)
  next
    case 4
    then have "Suc c mod 32 = Suc (c mod 32)" "Suc c div 32 = c div 32" by (simp_all add: mod_Suc div_Suc)
    then show ?thesis using 4 by (simp add: class_min_def)
  qed (simp_all add: class_min_def)
qed

lemma class_min_mono: "c \<le> d \<Longrightarrow> class_min c \<le> class_min d"
  using lift_Suc_mono_le [of class_min] class_min_strict by (metis less_imp_le)

lemma xor_32: "32 \<le> v \<Longrightarrow> v < 64 \<Longrightarrow> (v :: nat) XOR 32 = v - 32"
proof -
  assume "32 \<le> v" "v < 64"
  then have "v \<in> set [32..<64]" by (simp only: set_upt atLeastLessThan_iff)
  moreover have "list_all (\<lambda>v. v XOR 32 = v - 32) [32..<64 :: nat]" by code_simp
  ultimately show ?thesis unfolding list_all_iff by blast
qed

lemma mapping_insert_small: "unat sz < 256 \<Longrightarrow> mapping_insert sz = (0, unat sz div 8)"
  by (simp add: mapping_insert_def tlsf_constants word_less_nat_alt)

lemma mapping_insert_large:
  assumes "256 \<le> unat sz" "log2_of (unat sz) k"
  shows "8 \<le> k" "mapping_insert sz = (k - 7, unat sz div 2 ^ (k - 5) - 32)"
    "32 \<le> unat sz div 2 ^ (k - 5)" "unat sz div 2 ^ (k - 5) < 64"
proof -
  show k: "8 \<le> k"
  proof (rule ccontr)
    assume "\<not> 8 \<le> k"
    then have "(2::nat) ^ (k + 1) \<le> 2 ^ 8" by (intro power_increasing) simp_all
    then show False using assms by (simp add: log2_of_def)
  qed
  have "(2::nat) ^ k = 32 * 2 ^ (k - 5)" "(2::nat) ^ (k + 1) = 64 * 2 ^ (k - 5)"
  proof -
    have e: "5 + (k - 5) = k" "6 + (k - 5) = k + 1" using k by simp_all
    show "(2::nat) ^ k = 32 * 2 ^ (k - 5)" "(2::nat) ^ (k + 1) = 64 * 2 ^ (k - 5)"
      using power_add [of "2::nat" 5 "k - 5"] power_add [of "2::nat" 6 "k - 5"] unfolding e by simp_all
  qed
  then show sl: "32 \<le> unat sz div 2 ^ (k - 5)" "unat sz div 2 ^ (k - 5) < 64"
    using assms(2) by (simp_all add: log2_of_def less_eq_div_iff_mult_less_eq div_less_iff_less_mult)
  have "\<not> sz < 256" using assms(1) by (simp add: word_less_nat_alt)
  moreover have "unat (drop_bit (k - 5) sz) = unat sz div 2 ^ (k - 5)"
    by (simp only: unat_drop_bit_eq) (simp only: drop_bit_eq_div)
  ultimately show "mapping_insert sz = (k - 7, unat sz div 2 ^ (k - 5) - 32)"
    using sl by (simp add: mapping_insert_def tlsf_constants tlsf_fls_sizet_eq [OF assms(2)] xor_32 Let_def)
qed

lemma mapping_insert_class:
  assumes "unat sz < 2 ^ 33"
  shows "class_min (class_of (mapping_insert sz)) \<le> unat sz"
    and "unat sz < class_min (class_of (mapping_insert sz) + 1)"
    and "snd (mapping_insert sz) < 32"
    and "fst (mapping_insert sz) < 25 \<longleftrightarrow> unat sz < 2 ^ 32"
proof -
  have "class_min (class_of (mapping_insert sz)) \<le> unat sz \<and> unat sz < class_min (class_of (mapping_insert sz) + 1)
      \<and> snd (mapping_insert sz) < 32 \<and> (fst (mapping_insert sz) < 25 \<longleftrightarrow> unat sz < 2 ^ 32)"
  proof (cases "unat sz < 256")
    case True
    then have c: "class_of (mapping_insert sz) = unat sz div 8" "snd (mapping_insert sz) = unat sz div 8"
        "fst (mapping_insert sz) = 0" "unat sz div 8 < 32"
      by (simp_all add: mapping_insert_small class_of_def)
    have "class_min (unat sz div 8 + 1) = 8 * (unat sz div 8 + 1)"
    proof (cases "unat sz div 8 = 31")
      case False
      then show ?thesis using c(4) by (simp add: class_min_def)
    qed (simp add: class_min_def)
    moreover have "class_min (unat sz div 8) = 8 * (unat sz div 8)" using c(4) by (simp add: class_min_def)
    moreover have "unat sz < 8 * (unat sz div 8 + 1)" "8 * (unat sz div 8) \<le> unat sz"
      using dividend_less_times_div [of 8 "unat sz"] by simp_all
    ultimately show ?thesis using c True by simp
  next
    case False
    then have "sz \<noteq> 0" by auto
    then obtain k where k: "log2_of (unat sz) k" using tlsf_fls_sizet_correct by blast
    define v where "v = unat sz div 2 ^ (k - 5)"
    have large: "8 \<le> k" "mapping_insert sz = (k - 7, v - 32)" "32 \<le> v" "v < 64"
      using mapping_insert_large [OF _ k] False by (simp_all add: v_def)
    define c where "c = class_of (mapping_insert sz)"
    define w where "w = v - 32"
    have w: "v = 32 + w" "w < 32" using large by (simp_all add: w_def)
    have c: "c = 32 * (k - 7) + w" by (simp add: c_def class_of_def large(2) w_def)
    have min_c: "class_min c = 2 ^ (k - 5) * v"
      using w class_min_large [OF large(1) w(2)] c by simp
    have "class_min (c + 1) = 2 ^ (k - 5) * (v + 1)"
    proof (cases "w = 31")
      case True
      have "c + 1 = 32 * (k + 1 - 7) + 0" using c True large(1) by simp
      then have "class_min (c + 1) = 2 ^ (k + 1 - 5) * 32"
        using class_min_large [of "k + 1" 0] large(1) by (simp only:) simp
      moreover have "k + 1 - 5 = Suc (k - 5)" using large(1) by simp
      ultimately show ?thesis using True w(1) by simp
    next
      case False
      then show ?thesis using class_min_large [OF large(1), of "w + 1"] c w by simp
    qed
    moreover have "unat sz < 2 ^ (k - 5) * (v + 1)"
      using dividend_less_times_div [of "2 ^ (k - 5)" "unat sz"] by (simp add: v_def)
    moreover have "2 ^ (k - 5) * v \<le> unat sz" by (simp add: v_def)
    moreover have "k - 7 < 25 \<longleftrightarrow> unat sz < 2 ^ 32"
    proof (cases "k \<le> 31")
      case True
      then have "(2::nat) ^ (k + 1) \<le> 2 ^ 32" by (intro power_increasing) simp_all
      then show ?thesis using True k by (auto simp: log2_of_def)
    next
      case False
      then have "(2::nat) ^ 32 \<le> 2 ^ k" by (intro power_increasing) simp_all
      then show ?thesis using False k by (auto simp: log2_of_def)
    qed
    ultimately show ?thesis using large min_c w by (simp add: c_def)
  qed
  then show "class_min (class_of (mapping_insert sz)) \<le> unat sz" "unat sz < class_min (class_of (mapping_insert sz) + 1)"
    "snd (mapping_insert sz) < 32" "fst (mapping_insert sz) < 25 \<longleftrightarrow> unat sz < 2 ^ 32" by blast+
qed

text \<open>A size not below \<open>sz\<close> is found from the class that \<open>mapping_search sz\<close> gives on, and no smaller one.\<close>

lemma class_of_mono:
  assumes "unat a \<le> unat b" "unat b < 2 ^ 33"
  shows "class_of (mapping_insert a) \<le> class_of (mapping_insert b)"
proof (rule ccontr)
  assume "\<not> ?thesis"
  then have "class_min (class_of (mapping_insert b) + 1) \<le> class_min (class_of (mapping_insert a))"
    by (intro class_min_mono) simp
  then show False
    using mapping_insert_class(1) [of a] mapping_insert_class(2) [OF assms(2)] assms by linarith
qed

lemma mapping_search_fits:
  assumes "8 dvd unat sz" "unat sz < 2 ^ 32" "unat other < 2 ^ 33"
    and "class_of (mapping_search sz) \<le> class_of (mapping_insert other)"
  shows "unat sz \<le> unat other"
proof -
  have "unat sz \<le> class_min (class_of (mapping_search sz))"
  proof (cases "unat sz < 256")
    case True
    then have "mapping_search sz = (0, unat sz div 8)" "unat sz div 8 < 32"
      by (simp_all add: mapping_search_def tlsf_constants mapping_insert_small word_le_nat_alt)
    then show ?thesis using assms(1) by (simp add: class_of_def class_min_def)
  next
    case False
    then have "sz \<noteq> 0" by auto
    then obtain k where k: "k < 64" "log2_of (unat sz) k" using tlsf_fls_sizet_correct by blast
    have "8 \<le> k" using mapping_insert_large(1) [OF _ k(2)] False by simp
    have "k < 32"
    proof (rule ccontr)
      assume "\<not> k < 32"
      then have "(2::nat) ^ 32 \<le> 2 ^ k" by (intro power_increasing) simp_all
      then show False using k(2) assms(2) by (simp add: log2_of_def)
    qed
    define r where "r = (2::nat) ^ (k - 5)"
    have pow: "(2::nat) ^ k = 32 * r" "(2::nat) ^ (k + 1) = 64 * r"
    proof -
      have e: "5 + (k - 5) = k" "6 + (k - 5) = k + 1" using \<open>8 \<le> k\<close> by simp_all
      show "(2::nat) ^ k = 32 * r" "(2::nat) ^ (k + 1) = 64 * r"
        using power_add [of "2::nat" 5 "k - 5"] power_add [of "2::nat" 6 "k - 5"] unfolding e r_def by simp_all
    qed
    have "0 < r" by (simp add: r_def)
    have r: "r \<le> 2 ^ 26" unfolding r_def using \<open>k < 32\<close> by (intro power_increasing) simp_all
    define up where "up = sz + (2 ^ (k - 5) - 1)"
    have "unat (2 ^ (k - 5) - 1 :: u64) = r - 1"
    proof -
      have "(2 ^ (k - 5) - 1 :: u64) = of_nat (r - 1)" using \<open>0 < r\<close> by (simp add: r_def of_nat_diff)
      then show ?thesis using r unat_of_nat_u64 [of "r - 1"] by (simp del: of_nat_diff)
    qed
    then have up: "unat up = unat sz + (r - 1)"
      using assms(2) r by (simp add: up_def unat_word_ariths)
    have search: "mapping_search sz = mapping_insert up"
      using False \<open>8 \<le> k\<close> by (simp add: mapping_search_def tlsf_constants word_le_nat_alt tlsf_fls_sizet_eq [OF k(2)]
          up_def push_bit_eq_mult)
    have up_large: "256 \<le> unat up" "unat up < 2 ^ 33" using False up assms(2) r by simp_all
    show ?thesis
    proof (cases "unat up < 2 ^ (k + 1)")
      case True
      then have "log2_of (unat up) k" using up k(2) by (simp add: log2_of_def)
      note large = mapping_insert_large [OF up_large(1) this]
      define v where "v = unat up div r"
      have v: "mapping_insert up = (k - 7, v - 32)" "32 \<le> v" "v < 64"
        using large by (simp_all add: v_def r_def)
      define c where "c = class_of (mapping_insert up)"
      define w where "w = v - 32"
      have w: "v = 32 + w" "w < 32" using v by (simp_all add: w_def)
      have "c = 32 * (k - 7) + w" by (simp add: c_def class_of_def v(1) w_def)
      then have "class_min c = r * v" using w class_min_large [OF \<open>8 \<le> k\<close> w(2)] by (simp add: r_def)
      moreover have "unat sz \<le> r * v"
      proof -
        have "unat up < r * (v + 1)" using dividend_less_times_div [OF \<open>0 < r\<close>] by (simp add: v_def)
        then have "unat sz + r \<le> r * v + r" using up \<open>0 < r\<close> by simp
        then show ?thesis by simp
      qed
      ultimately show ?thesis by (simp add: search c_def)
    next
      case False
      define q where "q = (of_nat (2 ^ (k + 1)) :: u64)"
      have "(2::nat) ^ (k + 1) \<le> 2 ^ 32" using \<open>k < 32\<close> by (intro power_increasing) simp_all
      then have uq: "unat q = 2 ^ (k + 1)" unfolding q_def by (intro unat_of_nat_u64) simp
      have "log2_of (unat q) (k + 1)" by (simp add: uq log2_of_def)
      moreover have "256 \<le> unat q"
      proof -
        have "(2::nat) ^ 8 \<le> 2 ^ (k + 1)" using \<open>8 \<le> k\<close> by (intro power_increasing) simp_all
        then show ?thesis by (simp add: uq)
      qed
      ultimately have "mapping_insert q = (k - 6, 0)"
      proof -
        assume q: "log2_of (unat q) (k + 1)" "256 \<le> unat q"
        have "k + 1 - 5 = Suc (k - 5)" using \<open>8 \<le> k\<close> by simp
        then have "unat q div 2 ^ (k + 1 - 5) = 32" using pow(2) \<open>0 < r\<close> by (simp add: uq r_def)
        then show ?thesis using mapping_insert_large(2) [OF q(2,1)] by simp
      qed
      then have "class_of (mapping_insert q) = 32 * (k - 6)" by (simp add: class_of_def)
      moreover have "class_min (32 * (k - 6)) = 2 ^ (k + 1)"
      proof -
        have "k - 6 + 2 + 5 = k + 1" using \<open>8 \<le> k\<close> by simp
        then have "(2::nat) ^ (k - 6 + 2) * 2 ^ 5 = 2 ^ (k + 1)" by (metis power_add)
        then show ?thesis using \<open>8 \<le> k\<close> by (simp add: class_min_def)
      qed
      moreover have "class_of (mapping_insert q) \<le> class_of (mapping_insert up)"
        using class_of_mono [of q up] up_large uq False by simp
      ultimately have "2 ^ (k + 1) \<le> class_min (class_of (mapping_insert up))"
        by (metis class_min_mono)
      then show ?thesis using k(2) by (simp add: search log2_of_def)
    qed
  qed
  also have "\<dots> \<le> class_min (class_of (mapping_insert other))" by (rule class_min_mono [OF assms(4)])
  also have "\<dots> \<le> unat other" by (rule mapping_insert_class(1) [OF assms(3)])
  finally show ?thesis .
qed

section \<open>The compiler's bit routines\<close>

text \<open>
  The build uses the first branch of the architecture selection: \<open>__builtin_ffs\<close> (one plus the position of
  the lowest set bit, 0 for 0) and \<open>__builtin_clz\<close> (the number of leading zeros).
\<close>

definition builtin_ffs :: "u32 \<Rightarrow> int" where
  "builtin_ffs word = (case List.find (bit word) [0..<32] of None \<Rightarrow> 0 | Some i \<Rightarrow> int i + 1)"

definition builtin_clz :: "u32 \<Rightarrow> int" where
  "builtin_clz word = int (length (takeWhile (\<lambda>i. \<not> bit word i) (rev [0..<32])))"

definition tlsf_ffs_gnuc :: "u32 \<Rightarrow> int" where
  "tlsf_ffs_gnuc word = builtin_ffs word - 1"

definition tlsf_fls_gnuc :: "u32 \<Rightarrow> int" where
  "tlsf_fls_gnuc word = (if word \<noteq> 0 then 32 - builtin_clz word else 0) - 1"

lemma find_lowest:
  assumes "i < n" "P i" "\<forall>j<i. \<not> P j"
  shows "List.find P [0..<n] = Some i"
  using assms by (auto simp: find_Some_iff intro!: exI [of _ i])

lemma bit_log2_of:
  assumes "log2_of (unat (w :: u32)) k"
  shows "bit w k" "k < i \<Longrightarrow> \<not> bit w i"
proof -
  have bit: "bit w j = odd (unat w div 2 ^ j)" for j
    by (metis bit_iff_odd bit_unsigned_iff bit_imp_possible_bit possible_bit_word unsigned_word_eqI bit_uint_iff uint_nat bit_of_nat_iff_bit)
  have "unat w div 2 ^ k = 1"
    using assms by (intro div_nat_eqI) (simp_all add: log2_of_def)
  then show "bit w k" by (simp add: bit)
  assume "k < i"
  then have "(2::nat) ^ (k + 1) \<le> 2 ^ i" by (intro power_increasing) simp_all
  then have "unat w < 2 ^ i" using assms by (simp add: log2_of_def)
  then show "\<not> bit w i" by (simp add: bit)
qed

lemma rev_upt_split: "k < n \<Longrightarrow> rev [0..<n] = rev [Suc k..<n] @ k # rev [0..<k]"
  using upt_add_eq_append [of 0 k "n - k"] by (simp add: upt_conv_Cons)

lemma builtin_clz_log2: "log2_of (unat w) k \<Longrightarrow> k < 32 \<Longrightarrow> builtin_clz w = 31 - int k"
proof -
  assume k: "log2_of (unat w) k" "k < 32"
  have "takeWhile (\<lambda>i. \<not> bit w i) (rev [Suc k..<32] @ k # rev [0..<k]) = rev [Suc k..<32]"
    using bit_log2_of [OF k(1)] by (subst takeWhile_append2) auto
  then show ?thesis using k(2) by (simp only: builtin_clz_def rev_upt_split [OF k(2)]) simp
qed

text \<open>
  The fallback bit routines of \<open>tlsf.c\<close> agree with the compiler's built-in functions on every 32-bit word,
  zero included, so that the allocator behaves the same whichever branch is compiled.
\<close>

theorem tlsf_scans_agree: "tlsf_ffs word = tlsf_ffs_gnuc word \<and> tlsf_fls word = tlsf_fls_gnuc word"
proof (cases "word = 0")
  case True
  show ?thesis unfolding True by code_simp
next
  case False
  obtain i where "i < 32" "tlsf_ffs word = int i" "bit word i" "\<forall>j<i. \<not> bit word j"
    using tlsf_ffs_correct [OF False] by blast
  then have "tlsf_ffs word = tlsf_ffs_gnuc word"
    using find_lowest [of i 32 "bit word"] by (simp add: tlsf_ffs_gnuc_def builtin_ffs_def)
  moreover obtain k where "k < 32" "tlsf_fls word = int k" "log2_of (unat word) k"
    using tlsf_fls_correct [OF False] by blast
  ultimately show ?thesis using False by (simp add: tlsf_fls_gnuc_def builtin_clz_log2)
qed

lemma mapping_sl_bound: "snd (mapping_insert sz) < 32"
proof (cases "unat sz < 256")
  case True
  then show ?thesis by (simp add: mapping_insert_small)
next
  case False
  then have "sz \<noteq> 0" by auto
  then obtain k where k: "log2_of (unat sz) k" using tlsf_fls_sizet_correct by blast
  show ?thesis using mapping_insert_large [OF _ k] False by simp
qed

section \<open>Properties\<close>

text \<open>
  C39. Good fit: when the list that \<open>mapping_search\<close> gives for an aligned request below the largest size, or any
  later list, holds a block (of less than 8 GiB), the block is at least as large as the request, so the first
  block of the list serves it without a search inside the list.
\<close>

theorem tlsf_good_fit:
  assumes "8 dvd unat request" "unat request < 2 ^ 32" "unat (found :: u64) < 2 ^ 33"
    and "mapping_search request = (fl, sl)" "mapping_insert found = (fl', sl')"
    and "fl < fl' \<or> fl = fl' \<and> sl \<le> sl'"
  shows "unat request \<le> unat found"
proof (rule mapping_search_fits [OF assms(1-3)])
  have "sl < 32" using mapping_sl_bound [of _] assms(4) by (metis mapping_search_def snd_conv)
  then show "class_of (mapping_search request) \<le> class_of (mapping_insert found)"
    using assms(4-6) by (auto simp: class_of_def)
qed

theorem tlsf_good_fit_witness:
  "mapping_search 1000 = (2, 31) \<and> mapping_insert 1008 = (2, 31) \<and> unat (1000 :: u64) \<le> unat (1008 :: u64)"
proof -
  have m: "mapping_search 1000 = (2, 31)" "mapping_insert 1008 = (2, 31)" by code_simp+
  have "(8::nat) dvd unat (1000 :: u64)" by simp
  with m tlsf_good_fit [of 1000 1008 2 31 2 31] show ?thesis by simp
qed

text \<open>
  Size classes: every size below 4 GiB is stored in a list inside the table (25 first-level lists of 32), the
  sizes of a list are exactly an interval, and the lists are ordered by size; a size from 4 GiB on falls outside
  of the table.
\<close>

theorem tlsf_size_class:
  assumes "unat sz < 2 ^ 33" "mapping_insert sz = (fl, sl)"
  shows "(fl < FL_INDEX_COUNT \<longleftrightarrow> unat sz < 2 ^ 32) \<and> sl < SL_INDEX_COUNT
    \<and> class_min (32 * fl + sl) \<le> unat sz \<and> unat sz < class_min (32 * fl + sl + 1)"
  using mapping_insert_class [OF assms(1)] assms(2) by (simp add: tlsf_constants class_of_def)

theorem tlsf_size_class_witness:
  "mapping_insert 4294967295 = (24, 31) \<and> (24 < FL_INDEX_COUNT \<longleftrightarrow> unat (4294967295 :: u64) < 2 ^ 32)"
proof -
  have m: "mapping_insert 4294967295 = (24, 31)" by code_simp
  with tlsf_size_class [of 4294967295 24 31] show ?thesis by simp
qed

text \<open>
  A request is rounded up to a multiple of 8 of at least 24 bytes, and refused (0) when it is 0 or reaches
  4 GiB after rounding; for the last seven sizes below \<open>2^64\<close> the rounding wraps around and the request is
  taken for one of 24 bytes.
\<close>

theorem tlsf_request_size:
  "unat (adjust_request_size sz ALIGN_SIZE)
     = (if unat sz + 7 < 2 ^ 64 then adjusted (unat sz) else 24)"
proof (cases "unat sz + 7 < 2 ^ 64")
  case False
  define d where "d = 2 ^ 64 - unat sz"
  have lt: "unat sz < 2 ^ 64" using unsigned_less [of sz, where 'a = nat] by simp
  then have d: "1 \<le> d" "d \<le> 7" using False by (simp_all add: d_def)
  have "sz = of_nat (2 ^ 64 - d)" using lt by (simp add: d_def)
  also have "\<dots> = - of_nat d" using d by (simp add: of_nat_diff)
  finally have sz: "sz = - of_nat d" .
  have "d \<in> set [1..<8]" using d unfolding set_upt atLeastLessThan_iff by linarith
  moreover have "list_all (\<lambda>d. adjust_request_size (- of_nat d) 8 = 24) [1..<8 :: nat]" by code_simp
  ultimately have "adjust_request_size sz 8 = 24" unfolding list_all_iff sz by blast
  then show ?thesis using False by (simp add: tlsf_constants)
qed (simp add: adjust_request_size_correct)

end
