(* ===== verification/TlsfScans.thy ===== *)
theory TlsfScans imports TlsfBits begin

text \<open>
  The bit routines of \<open>tlsf.c\<close> for the other compilers: each rests on an intrinsic function of the compiler, which is
  a parameter. Under what the intrinsics are documented to compute, all of them agree with the fallback, so that the
  allocator is the same program on every compiler.
\<close>

unbundle bit_operations_syntax

section \<open>The branches\<close>

text \<open>Playstation 3, where \<open>__builtin_clz\<close> is undefined at 0; \<open>reverse\<close> is the lowest set bit.\<close>

definition tlsf_ffs_snc :: "(u32 \<Rightarrow> int) \<Rightarrow> u32 \<Rightarrow> int" where
  "tlsf_ffs_snc clz word = (let reverse = word AND (NOT word + 1); nbit = 32 - clz reverse in nbit - 1)"

text \<open>Visual C++ on x86: the intrinsics give whether a bit is set, and its index.\<close>

definition tlsf_fls_msvc :: "(u32 \<Rightarrow> bool \<times> u32) \<Rightarrow> u32 \<Rightarrow> int" where
  "tlsf_fls_msvc BitScanReverse word =
     (case BitScanReverse word of (found, index) \<Rightarrow> if found then uint index else - 1)"

definition tlsf_ffs_msvc :: "(u32 \<Rightarrow> bool \<times> u32) \<Rightarrow> u32 \<Rightarrow> int" where
  "tlsf_ffs_msvc BitScanForward word =
     (case BitScanForward word of (found, index) \<Rightarrow> if found then uint index else - 1)"

text \<open>Visual C++ on PowerPC.\<close>

definition tlsf_fls_ppc :: "(u32 \<Rightarrow> int) \<Rightarrow> u32 \<Rightarrow> int" where
  "tlsf_fls_ppc CountLeadingZeros word = (let nbit = 32 - CountLeadingZeros word in nbit - 1)"

definition tlsf_ffs_ppc :: "(u32 \<Rightarrow> int) \<Rightarrow> u32 \<Rightarrow> int" where
  "tlsf_ffs_ppc CountLeadingZeros word =
     (let reverse = word AND (NOT word + 1); nbit = 32 - CountLeadingZeros reverse in nbit - 1)"

text \<open>RealView for ARM.\<close>

definition tlsf_ffs_armcc :: "(u32 \<Rightarrow> int) \<Rightarrow> u32 \<Rightarrow> int" where
  "tlsf_ffs_armcc clz word = (let reverse = word AND (NOT word + 1); nbit = 32 - clz reverse in nbit - 1)"

definition tlsf_fls_armcc :: "(u32 \<Rightarrow> int) \<Rightarrow> u32 \<Rightarrow> int" where
  "tlsf_fls_armcc clz word = (let nbit = (if word \<noteq> 0 then 32 - clz word else 0) in nbit - 1)"

text \<open>Green Hills for PowerPC.\<close>

definition tlsf_ffs_ghs :: "(u32 \<Rightarrow> int) \<Rightarrow> u32 \<Rightarrow> int" where
  "tlsf_ffs_ghs CLZ32 word = (let reverse = word AND (NOT word + 1); nbit = 32 - CLZ32 reverse in nbit - 1)"

definition tlsf_fls_ghs :: "(u32 \<Rightarrow> int) \<Rightarrow> u32 \<Rightarrow> int" where
  "tlsf_fls_ghs CLZ32 word = (let nbit = (if word \<noteq> 0 then 32 - CLZ32 word else 0) in nbit - 1)"

lemmas scan_branch_defs = tlsf_ffs_snc_def tlsf_fls_msvc_def tlsf_ffs_msvc_def tlsf_fls_ppc_def tlsf_ffs_ppc_def
  tlsf_ffs_armcc_def tlsf_fls_armcc_def tlsf_ffs_ghs_def tlsf_fls_ghs_def

section \<open>Agreement\<close>

text \<open>What the bit scans of Visual C++ are documented to give: whether the word is not 0, and then the index.\<close>

definition scans_highest :: "(u32 \<Rightarrow> bool \<times> u32) \<Rightarrow> bool" where
  "scans_highest scan \<longleftrightarrow> (\<forall>w. fst (scan w) = (w \<noteq> 0) \<and>
     (w \<noteq> 0 \<longrightarrow> bit w (unat (snd (scan w))) \<and> (\<forall>j. unat (snd (scan w)) < j \<longrightarrow> \<not> bit w j)))"

definition scans_lowest :: "(u32 \<Rightarrow> bool \<times> u32) \<Rightarrow> bool" where
  "scans_lowest scan \<longleftrightarrow> (\<forall>w. fst (scan w) = (w \<noteq> 0) \<and>
     (w \<noteq> 0 \<longrightarrow> bit w (unat (snd (scan w))) \<and> (\<forall>j < unat (snd (scan w)). \<not> bit w j)))"

lemma scans_of_zero: "tlsf_fls 0 = - 1" "tlsf_ffs 0 = - 1" "builtin_clz 0 = 32"
  by code_simp+

lemma fls_clz: "tlsf_fls word = 31 - builtin_clz word"
proof (cases "word = 0")
  case False
  then show ?thesis using tlsf_fls_correct [of word] builtin_clz_log2 [of word] by auto
qed (simp add: scans_of_zero)

lemma ffs_fls: "tlsf_ffs word = tlsf_fls (word AND (NOT word + 1))"
  by (simp add: tlsf_ffs_def tlsf_fls_def)

lemma lowest_bit_nz: "word \<noteq> 0 \<Longrightarrow> word AND (NOT word + 1) \<noteq> (0 :: u32)"
proof
  assume "word \<noteq> 0" "word AND (NOT word + 1) = 0"
  then have "tlsf_ffs word = - 1" by (simp only: ffs_fls scans_of_zero)
  then show False using tlsf_ffs_correct [OF \<open>word \<noteq> 0\<close>] by auto
qed

lemma fls_scan:
  assumes "scans_highest scan"
  shows "tlsf_fls word = tlsf_fls_msvc scan word"
proof (cases "word = 0")
  case True
  then show ?thesis using assms by (simp add: scans_highest_def scans_of_zero tlsf_fls_msvc_def split: prod.split) (metis fst_conv)
next
  case False
  define i where "i = unat (snd (scan word))"
  have scan_index: "uint (snd (scan word)) = int i" by (simp add: i_def)
  obtain k where k: "tlsf_fls word = int k" "log2_of (unat word) k" using tlsf_fls_correct [OF False] by blast
  have "bit word i" "\<And>j. i < j \<Longrightarrow> \<not> bit word j" "fst (scan word)"
    using assms False by (auto simp: scans_highest_def i_def)
  moreover from this bit_log2_of [OF k(2)] have "i = k" by (meson linorder_neqE_nat)
  ultimately show ?thesis using k(1) scan_index by (simp add: tlsf_fls_msvc_def case_prod_beta)
qed

lemma ffs_scan:
  assumes "scans_lowest scan"
  shows "tlsf_ffs word = tlsf_ffs_msvc scan word"
proof (cases "word = 0")
  case True
  then show ?thesis using assms by (simp add: scans_lowest_def scans_of_zero tlsf_ffs_msvc_def split: prod.split) (metis fst_conv)
next
  case False
  define i where "i = unat (snd (scan word))"
  have scan_index: "uint (snd (scan word)) = int i" by (simp add: i_def)
  obtain k where k: "tlsf_ffs word = int k" "bit word k" "\<forall>j<k. \<not> bit word j" using tlsf_ffs_correct [OF False] by blast
  have "bit word i" "\<forall>j<i. \<not> bit word j" "fst (scan word)"
    using assms False by (auto simp: scans_lowest_def i_def)
  moreover from this k(2,3) have "i = k" by (meson linorder_neqE_nat)
  ultimately show ?thesis using k(1) scan_index by (simp add: tlsf_ffs_msvc_def case_prod_beta)
qed

section \<open>Properties\<close>

text \<open>
  C40. The bit routines agree on every word, zero included, whichever branch is compiled: the fallback (with which
  the allocator is modelled here), the GNU built-ins of this build, and those for Visual C++, RealView and Green
  Hills, when their intrinsics count leading zeros (32 for 0) and scan for the highest and lowest bit. The branch for
  the Playstation 3 agrees except at 0, where it asks for the leading zeros of 0, which is undefined there.
\<close>

theorem tlsf_scans_portable:
  assumes "\<forall>w. clz w = builtin_clz w" "\<forall>w. w \<noteq> 0 \<longrightarrow> snc_clz w = builtin_clz w"
    and "scans_highest BitScanReverse" "scans_lowest BitScanForward"
  shows "tlsf_fls word = tlsf_fls_gnuc word \<and> tlsf_ffs word = tlsf_ffs_gnuc word \<and>
    tlsf_fls word = tlsf_fls_msvc BitScanReverse word \<and> tlsf_ffs word = tlsf_ffs_msvc BitScanForward word \<and>
    tlsf_fls word = tlsf_fls_ppc clz word \<and> tlsf_ffs word = tlsf_ffs_ppc clz word \<and>
    tlsf_fls word = tlsf_fls_armcc clz word \<and> tlsf_ffs word = tlsf_ffs_armcc clz word \<and>
    tlsf_fls word = tlsf_fls_ghs clz word \<and> tlsf_ffs word = tlsf_ffs_ghs clz word \<and>
    (word \<noteq> 0 \<longrightarrow> tlsf_ffs word = tlsf_ffs_snc snc_clz word)"
proof -
  have "tlsf_ffs word = 31 - builtin_clz (word AND (NOT word + 1))" by (simp only: ffs_fls fls_clz)
  moreover have "tlsf_fls 0 = - 1" "builtin_clz 0 = 32" by (rule scans_of_zero)+
  ultimately show ?thesis
    using assms(1,2) tlsf_scans_agree [of word] tlsf_scans_agree [of 0] fls_scan [OF assms(3), of word] ffs_scan [OF assms(4), of word]
      fls_clz [of word] lowest_bit_nz [of word]
    by (simp add: tlsf_ffs_snc_def tlsf_fls_ppc_def tlsf_ffs_ppc_def tlsf_ffs_armcc_def tlsf_fls_armcc_def
        tlsf_ffs_ghs_def tlsf_fls_ghs_def Let_def)
qed

text \<open>The intrinsics by their meaning.\<close>

definition scan_reverse :: "u32 \<Rightarrow> bool \<times> u32" where
  "scan_reverse w = (w \<noteq> 0, of_nat (nat (tlsf_fls w)))"

definition scan_forward :: "u32 \<Rightarrow> bool \<times> u32" where
  "scan_forward w = (w \<noteq> 0, of_nat (nat (tlsf_ffs w)))"

lemma scans_example: "scans_highest scan_reverse" "scans_lowest scan_forward"
proof -
  have small: "unat (of_nat k :: u32) = k" if "k < 32" for k
    using that by (simp add: unat_of_nat take_bit_nat_eq_self)
  have "bit w (unat (snd (scan_reverse w))) \<and> (\<forall>j. unat (snd (scan_reverse w)) < j \<longrightarrow> \<not> bit w j)" if "w \<noteq> 0" for w
    using tlsf_fls_correct [OF that] bit_log2_of [of w] small by (auto simp: scan_reverse_def)
  then show "scans_highest scan_reverse" by (simp add: scans_highest_def) (simp add: scan_reverse_def)
  have "bit w (unat (snd (scan_forward w))) \<and> (\<forall>j < unat (snd (scan_forward w)). \<not> bit w j)" if "w \<noteq> 0" for w
    using tlsf_ffs_correct [OF that] small by (auto simp: scan_forward_def)
  then show "scans_lowest scan_forward" by (simp add: scans_lowest_def) (simp add: scan_forward_def)
qed

theorem tlsf_scans_portable_witness:
  "tlsf_ffs 40 = tlsf_ffs_msvc scan_forward 40 \<and> tlsf_fls 40 = tlsf_fls_ppc builtin_clz 40 \<and>
   tlsf_ffs 40 = tlsf_ffs_snc builtin_clz 40 \<and> tlsf_ffs 40 = 3"
proof -
  have "tlsf_ffs 40 = 3" by code_simp
  moreover have "(40 :: u32) \<noteq> 0" by simp
  ultimately show ?thesis
    using tlsf_scans_portable [of builtin_clz builtin_clz scan_reverse scan_forward 40] scans_example
    by blast
qed

end
