(* ===== verification/TlsfBlocks.thy ===== *)
theory TlsfBlocks imports TlsfBits Memory begin

text \<open>
  The block headers of \<open>tlsf.c\<close> in byte memory: the four fields of \<open>block_header_t\<close>, the status bits
  in the size field, and the operations on blocks that do not need the control structure (linking,
  marking, splitting, absorbing). For the proofs the memory is also read as 64-bit cells numbered by
  address divided by 8 (\<open>cells\<close>), where each operation is an update of a function.
\<close>

unbundle bit_operations_syntax

section \<open>Header fields\<close>

definition block_header_members :: "(nat \<times> nat) list" where
  "block_header_members = [(8, 8), (8, 8), (8, 8), (8, 8)]"

definition sizeof_block_header :: u64 where
  "sizeof_block_header = of_nat (c_sizeof block_header_members)"

definition prev_phys_addr :: "u64 \<Rightarrow> u64" where
  "prev_phys_addr block = block + of_nat (c_offsetof block_header_members 0)"
definition size_addr :: "u64 \<Rightarrow> u64" where
  "size_addr block = block + of_nat (c_offsetof block_header_members 1)"
definition next_free_addr :: "u64 \<Rightarrow> u64" where
  "next_free_addr block = block + of_nat (c_offsetof block_header_members 2)"
definition prev_free_addr :: "u64 \<Rightarrow> u64" where
  "prev_free_addr block = block + of_nat (c_offsetof block_header_members 3)"

lemma block_header_layout:
  "sizeof_block_header = 32" "prev_phys_addr b = b" "size_addr b = b + 8" "next_free_addr b = b + 16"
  "prev_free_addr b = b + 24"
  by (simp_all add: sizeof_block_header_def prev_phys_addr_def size_addr_def next_free_addr_def prev_free_addr_def
      block_header_members_def c_sizeof_def c_offsetof_def c_alignof_def c_align_def Let_def)

definition block_header_free_bit :: u64 where "block_header_free_bit = 1"
definition block_header_prev_free_bit :: u64 where "block_header_prev_free_bit = 2"
definition block_header_overhead :: u64 where "block_header_overhead = 8"
definition block_start_offset :: u64 where
  "block_start_offset = of_nat (c_offsetof block_header_members 1) + 8"

lemma block_constants:
  "block_header_free_bit = 1" "block_header_prev_free_bit = 2" "block_header_overhead = 8" "block_start_offset = 16"
  by (simp_all add: block_header_free_bit_def block_header_prev_free_bit_def block_header_overhead_def
      block_start_offset_def block_header_members_def c_offsetof_def c_align_def Let_def)

section \<open>Operations on a block\<close>

definition block_size :: "memory \<Rightarrow> u64 \<Rightarrow> u64" where
  "block_size m block =
     load64 m (size_addr block) AND NOT (block_header_free_bit OR block_header_prev_free_bit)"

definition block_set_size :: "memory \<Rightarrow> u64 \<Rightarrow> u64 \<Rightarrow> memory" where
  "block_set_size m block sz =
     (let oldsize = load64 m (size_addr block)
      in store64 m (size_addr block) (sz OR (oldsize AND (block_header_free_bit OR block_header_prev_free_bit))))"

definition block_is_last :: "memory \<Rightarrow> u64 \<Rightarrow> bool" where
  "block_is_last m block \<longleftrightarrow> block_size m block = 0"

definition block_is_free :: "memory \<Rightarrow> u64 \<Rightarrow> bool" where
  "block_is_free m block \<longleftrightarrow> load64 m (size_addr block) AND block_header_free_bit \<noteq> 0"

definition block_set_free :: "memory \<Rightarrow> u64 \<Rightarrow> memory" where
  "block_set_free m block =
     store64 m (size_addr block) (load64 m (size_addr block) OR block_header_free_bit)"

definition block_set_used :: "memory \<Rightarrow> u64 \<Rightarrow> memory" where
  "block_set_used m block =
     store64 m (size_addr block) (load64 m (size_addr block) AND NOT block_header_free_bit)"

definition block_is_prev_free :: "memory \<Rightarrow> u64 \<Rightarrow> bool" where
  "block_is_prev_free m block \<longleftrightarrow> load64 m (size_addr block) AND block_header_prev_free_bit \<noteq> 0"

definition block_set_prev_free :: "memory \<Rightarrow> u64 \<Rightarrow> memory" where
  "block_set_prev_free m block =
     store64 m (size_addr block) (load64 m (size_addr block) OR block_header_prev_free_bit)"

definition block_set_prev_used :: "memory \<Rightarrow> u64 \<Rightarrow> memory" where
  "block_set_prev_used m block =
     store64 m (size_addr block) (load64 m (size_addr block) AND NOT block_header_prev_free_bit)"

definition block_from_ptr :: "u64 \<Rightarrow> u64" where "block_from_ptr ptr = ptr - block_start_offset"
definition block_to_ptr :: "u64 \<Rightarrow> u64" where "block_to_ptr block = block + block_start_offset"
definition offset_to_block :: "u64 \<Rightarrow> u64 \<Rightarrow> u64" where "offset_to_block ptr sz = ptr + sz"

definition block_prev :: "memory \<Rightarrow> u64 \<Rightarrow> u64" where
  "block_prev m block = load64 m (prev_phys_addr block)"

definition block_next :: "memory \<Rightarrow> u64 \<Rightarrow> u64" where
  "block_next m block = offset_to_block (block_to_ptr block) (block_size m block - block_header_overhead)"

definition block_link_next :: "memory \<Rightarrow> u64 \<Rightarrow> memory \<times> u64" where
  "block_link_next m block =
     (let nxt = block_next m block in (store64 m (prev_phys_addr nxt) block, nxt))"

definition block_mark_as_free :: "memory \<Rightarrow> u64 \<Rightarrow> memory" where
  "block_mark_as_free m block =
     (let (m, nxt) = block_link_next m block; m = block_set_prev_free m nxt in block_set_free m block)"

definition block_mark_as_used :: "memory \<Rightarrow> u64 \<Rightarrow> memory" where
  "block_mark_as_used m block =
     (let nxt = block_next m block; m = block_set_prev_used m nxt in block_set_used m block)"

definition block_can_split :: "memory \<Rightarrow> u64 \<Rightarrow> u64 \<Rightarrow> bool" where
  "block_can_split m block sz \<longleftrightarrow> block_size m block \<ge> sizeof_block_header + sz"

definition block_split :: "memory \<Rightarrow> u64 \<Rightarrow> u64 \<Rightarrow> memory \<times> u64" where
  "block_split m block sz =
     (let remaining = offset_to_block (block_to_ptr block) (sz - block_header_overhead);
          remain_size = block_size m block - (sz + block_header_overhead);
          m = block_set_size m remaining remain_size;
          m = block_set_size m block sz;
          m = block_mark_as_free m remaining
      in (m, remaining))"

definition block_absorb :: "memory \<Rightarrow> u64 \<Rightarrow> u64 \<Rightarrow> memory" where
  "block_absorb m prev block =
     (let m = store64 m (size_addr prev) (load64 m (size_addr prev) + (block_size m block + block_header_overhead))
      in fst (block_link_next m prev))"

section \<open>The memory as cells\<close>

text \<open>Cell numbers are kept in the form \<open>x + n + 1\<close>.\<close>

declare One_nat_def [simp del] add_2_eq_Suc [simp del] add_2_eq_Suc' [simp del]

lemma add_1_1 [simp]: "(a :: nat) + 1 + 1 = a + 2" by simp

definition ptr :: "nat \<Rightarrow> u64" where "ptr k = of_nat (8 * k)"

definition cell_limit :: nat where "cell_limit = 2 ^ 61"

definition cells :: "memory \<Rightarrow> nat \<Rightarrow> u64" where
  "cells m k = (if k < cell_limit then load64 m (ptr k) else 0)"

lemma unat_ptr: "k < cell_limit \<Longrightarrow> unat (ptr k) = 8 * k"
  unfolding ptr_def cell_limit_def by (intro unat_of_nat_u64) simp

lemma ptr_inj [simp]:
  assumes "j < cell_limit" "k < cell_limit"
  shows "ptr j = ptr k \<longleftrightarrow> j = k"
proof
  assume "ptr j = ptr k"
  then have "unat (ptr j) = unat (ptr k)" by (rule arg_cong)
  then have "8 * j = 8 * k" unfolding unat_ptr [OF assms(1)] unat_ptr [OF assms(2)] .
  then show "j = k" by simp
qed simp

lemma ptr_add: "ptr k + 8 = ptr (k + 1)" "ptr k + 16 = ptr (k + 2)" "ptr k + 24 = ptr (k + 3)" "ptr j + ptr k = ptr (j + k)"
  by (simp_all add: ptr_def algebra_simps)

lemma ptr_diff: "k \<le> j \<Longrightarrow> ptr j - ptr k = ptr (j - k)"
  by (simp add: ptr_def of_nat_diff algebra_simps)

lemma cell_disjoint:
  assumes "j < cell_limit" "k < cell_limit" "j \<noteq> k"
  shows "disjoint_cells (ptr j) 8 (ptr k) 8"
  unfolding disjoint_cells_def
proof (intro allI impI notI)
  fix a b :: nat
  assume ab: "a < 8" "b < 8" "ptr j + of_nat a = ptr k + of_nat b"
  have "unat (ptr j + of_nat a) = 8 * j + a" "unat (ptr k + of_nat b) = 8 * k + b"
    using unat_add_of_nat [of "ptr j" a] unat_add_of_nat [of "ptr k" b] assms ab(1,2)
    unfolding unat_ptr [OF assms(1)] unat_ptr [OF assms(2)] cell_limit_def by simp_all
  with ab have "8 * j + a = 8 * k + b" by simp
  then have "(8 * j + a) div 8 = (8 * k + b) div 8" by simp
  with ab assms(3) show False by simp
qed

lemma cells_store: "k < cell_limit \<Longrightarrow> cells (store64 m (ptr k) v) = (cells m)(k := v)"
  by (rule ext) (auto simp: cells_def c64.ld_st_same c64.ld_st_other cell_disjoint)

lemma load_cell: "k < cell_limit \<Longrightarrow> load64 m (ptr k) = cells m k"
  by (simp add: cells_def)

text \<open>The size field of a block of \<open>n\<close> cells with its two status bits.\<close>

definition size_word :: "nat \<Rightarrow> bool \<Rightarrow> bool \<Rightarrow> u64" where
  "size_word n free prev_free = ptr n OR ((if free then 1 else 0) OR (if prev_free then 2 else 0))"

lemma ptr_low: "i < 3 \<Longrightarrow> \<not> bit (ptr n) i"
proof -
  assume "i < 3"
  moreover have "ptr n = push_bit 3 (of_nat n)" by (simp add: ptr_def push_bit_eq_mult mult.commute)
  ultimately show ?thesis by (simp add: bit_push_bit_iff)
qed

lemma bit_status_masks:
  "bit (1 :: u64) i \<longleftrightarrow> i = 0" "bit (2 :: u64) i \<longleftrightarrow> i = 1" "bit (3 :: u64) i \<longleftrightarrow> i = 0 \<or> i = 1"
proof -
  have two: "(2 :: u64) = push_bit 1 1" and three: "(3 :: u64) = mask 2"
    by (simp_all add: push_bit_eq_mult mask_numeral One_nat_def)
  show "bit (1 :: u64) i \<longleftrightarrow> i = 0" by (simp add: bit_1_iff)
  show "bit (2 :: u64) i \<longleftrightarrow> i = 1" unfolding two by (auto simp: bit_simps)
  show "bit (3 :: u64) i \<longleftrightarrow> i = 0 \<or> i = 1" unfolding three by (auto simp: bit_mask_iff)
qed

lemma bit_status_clear:
  "bit (- 4 :: u64) i \<longleftrightarrow> i < 64 \<and> i \<noteq> 0 \<and> i \<noteq> 1" "bit (- 2 :: u64) i \<longleftrightarrow> i < 64 \<and> i \<noteq> 0"
  "bit (- 3 :: u64) i \<longleftrightarrow> i < 64 \<and> i \<noteq> 1"
proof -
  have "(- 4 :: u64) = NOT 3" "(- 2 :: u64) = NOT 1" "(- 3 :: u64) = NOT 2" by simp_all
  then show "bit (- 4 :: u64) i \<longleftrightarrow> i < 64 \<and> i \<noteq> 0 \<and> i \<noteq> 1" "bit (- 2 :: u64) i \<longleftrightarrow> i < 64 \<and> i \<noteq> 0"
    "bit (- 3 :: u64) i \<longleftrightarrow> i < 64 \<and> i \<noteq> 1"
    by (simp_all only: bit_not_iff bit_status_masks) auto
qed

lemma bit_size_word:
  "bit (size_word n f p) i \<longleftrightarrow> (if i = 0 then f else if i = 1 then p else bit (ptr n) i)"
  using ptr_low [of i n] by (auto simp: size_word_def bit_or_iff bit_status_masks simp del: bit_numeral_word_iff)

lemma size_word_ops:
  "size_word n f p AND - 4 = ptr n"
  "size_word n f p OR 1 = size_word n True p"
  "size_word n f p AND - 2 = size_word n False p"
  "size_word n f p OR 2 = size_word n f True"
  "size_word n f p AND - 3 = size_word n f False"
  "size_word n f p AND 1 = (if f then 1 else 0)"
  "size_word n f p AND 2 = (if p then 2 else 0)"
  "ptr n OR (w AND 3) = size_word n (bit w 0) (bit w 1)"
  by (rule bit_word_eqI; auto simp: bit_size_word bit_and_iff bit_or_iff bit_status_masks bit_status_clear ptr_low
      simp del: bit_numeral_word_iff bit_neg_numeral_word_iff)+


lemma size_word_add: "size_word n f p + ptr k = size_word (n + k) f p"
proof -
  have eq: "size_word j f p = ptr j + ((if f then 1 else 0) OR (if p then 2 else 0))" for j
    unfolding size_word_def
    by (rule disjunctive_add [symmetric]) (use ptr_low [of 0 j] ptr_low [of 1 j] in \<open>auto simp: bit_or_iff bit_status_masks split: if_splits
        simp del: bit_numeral_word_iff intro!: gr0I\<close>)
  show ?thesis unfolding eq by (simp add: ptr_def algebra_simps)
qed

lemma ptr_0 [simp]: "ptr 0 = 0" by (simp add: ptr_def)

lemma ptr_8: "ptr 1 = 8" "ptr 2 = 16" "ptr 4 = 32" by (simp_all add: ptr_def)

section \<open>The operations on cells\<close>

text \<open>The block at cell \<open>x\<close> has \<open>n\<close> cells of user space and the status bits \<open>f\<close> (free) and \<open>p\<close> (previous free).\<close>

definition header :: "(nat \<Rightarrow> u64) \<Rightarrow> nat \<Rightarrow> nat \<Rightarrow> bool \<Rightarrow> bool \<Rightarrow> bool" where
  "header c x n f p \<longleftrightarrow> c (x + 1) = size_word n f p \<and> x + 1 < cell_limit"

lemmas block_addrs = block_header_layout ptr_add

named_theorems block_cells \<open>block operations as reads and updates of cells\<close>

lemma load_size [block_cells]: "header (cells m) x n f p \<Longrightarrow> load64 m (size_addr (ptr x)) = size_word n f p"
  by (simp add: header_def block_addrs load_cell)

lemma block_size_cell [block_cells]: "header (cells m) x n f p \<Longrightarrow> block_size m (ptr x) = ptr n"
  by (simp add: block_size_def block_constants block_cells size_word_ops)

lemma block_is_last_cell [block_cells]:
  "header (cells m) x n f p \<Longrightarrow> n < cell_limit \<Longrightarrow> block_is_last m (ptr x) \<longleftrightarrow> n = 0"
  using ptr_inj [of n 0] by (simp add: block_is_last_def block_cells cell_limit_def)

lemma block_status_cell [block_cells]:
  assumes "header (cells m) x n f p"
  shows "block_is_free m (ptr x) \<longleftrightarrow> f" "block_is_prev_free m (ptr x) \<longleftrightarrow> p"
  by (simp_all add: block_is_free_def block_is_prev_free_def block_constants block_cells(1) [OF assms] size_word_ops)

lemma block_set_cell [block_cells]:
  assumes "header (cells m) x n f p"
  shows "cells (block_set_free m (ptr x)) = (cells m)(x + 1 := size_word n True p)"
    and "cells (block_set_used m (ptr x)) = (cells m)(x + 1 := size_word n False p)"
    and "cells (block_set_prev_free m (ptr x)) = (cells m)(x + 1 := size_word n f True)"
    and "cells (block_set_prev_used m (ptr x)) = (cells m)(x + 1 := size_word n f False)"
    and "cells (block_set_size m (ptr x) (ptr k)) = (cells m)(x + 1 := size_word k f p)"
proof -
  have x: "x + 1 < cell_limit" using assms by (simp add: header_def)
  note defs = block_set_free_def block_set_used_def block_set_prev_free_def block_set_prev_used_def block_set_size_def
    block_constants load_size [OF assms] Let_def
  show "cells (block_set_free m (ptr x)) = (cells m)(x + 1 := size_word n True p)"
    "cells (block_set_used m (ptr x)) = (cells m)(x + 1 := size_word n False p)"
    "cells (block_set_prev_free m (ptr x)) = (cells m)(x + 1 := size_word n f True)"
    "cells (block_set_prev_used m (ptr x)) = (cells m)(x + 1 := size_word n f False)"
    unfolding defs using x by (simp_all add: size_word_ops block_addrs cells_store)
  show "cells (block_set_size m (ptr x) (ptr k)) = (cells m)(x + 1 := size_word k f p)"
    unfolding defs using x size_word_ops(8) [of k "size_word n f p"] by (simp add: block_addrs cells_store bit_size_word)
qed

lemma block_set_size_any:
  "x + 1 < cell_limit \<Longrightarrow> cells (block_set_size m (ptr x) (ptr k))
     = (cells m)(x + 1 := size_word k (bit (cells m (x + 1)) 0) (bit (cells m (x + 1)) 1))"
  by (simp add: block_set_size_def block_constants Let_def block_addrs load_cell cells_store size_word_ops)

lemma header_upd_other: "y \<noteq> x + 1 \<Longrightarrow> header (c(y := v)) x n f p \<longleftrightarrow> header c x n f p"
  by (simp add: header_def)

lemma header_upd: "x + 1 < cell_limit \<Longrightarrow> header (c(x + 1 := size_word n f p)) x n f p"
  by (simp add: header_def)

lemma block_to_ptr_cell [simp]: "block_to_ptr (ptr x) = ptr (x + 2)"
  by (simp add: block_to_ptr_def block_constants ptr_add)

lemma block_from_ptr_cell [simp]: "block_from_ptr (ptr (x + 2)) = ptr x"
  by (simp add: block_from_ptr_def block_constants ptr_def)

lemma ptr_less_8: "1 \<le> n \<Longrightarrow> ptr n - 8 = ptr (n - 1)"
  using ptr_diff [of 1 n] by (simp add: ptr_8)

lemma plus_less_8: "1 \<le> n \<Longrightarrow> ptr (x + 2) + (ptr n - 8) = ptr (x + n + 1)"
proof -
  assume "1 \<le> n"
  then have "x + 2 + (n - 1) = x + n + 1" by arith
  then show ?thesis unfolding ptr_less_8 [OF \<open>1 \<le> n\<close>] ptr_add(4) by (rule arg_cong)
qed

lemma block_next_cell [block_cells]:
  "header (cells m) x n f p \<Longrightarrow> 1 \<le> n \<Longrightarrow> block_next m (ptr x) = ptr (x + n + 1)"
  using plus_less_8 [of n x] by (simp add: block_next_def block_size_cell offset_to_block_def block_constants)

lemma block_prev_cell [block_cells]: "x < cell_limit \<Longrightarrow> block_prev m (ptr x) = cells m x"
  by (simp add: block_prev_def block_addrs load_cell)

lemma block_link_next_cell [block_cells]:
  assumes "header (cells m) x n f p" "1 \<le> n" "x + n + 1 < cell_limit"
  shows "cells (fst (block_link_next m (ptr x))) = (cells m)(x + n + 1 := ptr x)"
    and "snd (block_link_next m (ptr x)) = ptr (x + n + 1)"
  using assms by (simp_all add: block_link_next_def block_next_cell [OF assms(1,2)] block_addrs cells_store Let_def
      del: One_nat_def)

lemma block_mark_as_free_cell:
  assumes "header (cells m) x n f p" "1 \<le> n" "header (cells m) (x + n + 1) n' f' p'"
  shows "cells (block_mark_as_free m (ptr x)) =
    (cells m)(x + n + 1 := ptr x, x + n + 2 := size_word n' f' True, x + 1 := size_word n True p)"
proof -
  have lim: "x + n + 1 < cell_limit" using assms(3) by (simp add: header_def)
  define m1 where "m1 = fst (block_link_next m (ptr x))"
  have c1: "cells m1 = (cells m)(x + n + 1 := ptr x)" and nxt: "snd (block_link_next m (ptr x)) = ptr (x + n + 1)"
    unfolding m1_def by (rule block_link_next_cell [OF assms(1,2) lim])+
  define m2 where "m2 = block_set_prev_free m1 (ptr (x + n + 1))"
  have "header (cells m1) (x + n + 1) n' f' p'" using assms(3) by (simp add: c1 header_def)
  then have c2: "cells m2 = (cells m)(x + n + 1 := ptr x, x + n + 2 := size_word n' f' True)"
    unfolding m2_def by (simp add: block_set_cell c1)
  have "header (cells m2) x n f p" using assms(1,2) by (simp add: c2 header_def)
  then have "cells (block_set_free m2 (ptr x)) = (cells m2)(x + 1 := size_word n True p)" by (rule block_set_cell)
  moreover have "block_mark_as_free m (ptr x) = block_set_free m2 (ptr x)"
    by (simp add: block_mark_as_free_def split_beta Let_def nxt m2_def flip: m1_def)
  ultimately show ?thesis by (simp add: c2)
qed

lemma block_mark_as_used_cell:
  assumes "header (cells m) x n f p" "1 \<le> n" "header (cells m) (x + n + 1) n' f' p'"
  shows "cells (block_mark_as_used m (ptr x)) =
    (cells m)(x + n + 2 := size_word n' f' False, x + 1 := size_word n False p)"
proof -
  define m1 where "m1 = block_set_prev_used m (ptr (x + n + 1))"
  have c1: "cells m1 = (cells m)(x + n + 2 := size_word n' f' False)"
    unfolding m1_def using block_set_cell(4) [OF assms(3)] by simp
  have "header (cells m1) x n f p" using assms(1,2) by (simp add: c1 header_def)
  then have "cells (block_set_used m1 (ptr x)) = (cells m1)(x + 1 := size_word n False p)" by (rule block_set_cell)
  moreover have "block_mark_as_used m (ptr x) = block_set_used m1 (ptr x)"
    by (simp add: block_mark_as_used_def Let_def block_next_cell [OF assms(1,2)] m1_def)
  ultimately show ?thesis by (simp add: c1)
qed

lemma block_can_split_cell [block_cells]:
  assumes "header (cells m) x n f p" "n < cell_limit" "k + 4 < cell_limit"
  shows "block_can_split m (ptr x) (ptr k) \<longleftrightarrow> k + 4 \<le> n"
proof -
  have "sizeof_block_header + ptr k = ptr (k + 4)" by (simp add: block_header_layout ptr_def algebra_simps)
  then have "block_can_split m (ptr x) (ptr k) \<longleftrightarrow> 8 * (k + 4) \<le> 8 * n"
    by (simp only: block_can_split_def block_size_cell [OF assms(1)] word_le_nat_alt unat_ptr [OF assms(2)]
        unat_ptr [OF assms(3)])
  then show ?thesis by arith
qed

text \<open>The remainder is free; the status bit of its predecessor is whatever its size cell held before.\<close>

lemma block_split_cell:
  assumes "header (cells m) x n f p" "k + 4 \<le> n" "header (cells m) (x + n + 1) n' f' p'"
  defines "y \<equiv> x + k + 1"
  shows "snd (block_split m (ptr x) (ptr k)) = ptr y"
    and "\<exists>g. cells (fst (block_split m (ptr x) (ptr k))) =
      (cells m)(x + 1 := size_word k f p, y + 1 := size_word (n - k - 1) True g,
        x + n + 1 := ptr y, x + n + 2 := size_word n' f' True)"
proof -
  have lim: "x + n + 2 < cell_limit" using assms(3) by (simp add: header_def)
  have rem: "offset_to_block (block_to_ptr (ptr x)) (ptr k - block_header_overhead) = ptr y"
    unfolding block_to_ptr_cell by (simp add: offset_to_block_def block_constants y_def ptr_def algebra_simps)
  have sz: "block_size m (ptr x) - (ptr k + block_header_overhead) = ptr (n - k - 1)"
    using assms(2) ptr_diff [of "k + 1" n]
    by (simp add: block_size_cell [OF assms(1)] block_constants ptr_add(1))
  define g0 where "g0 = bit (cells m (y + 1)) 0"
  define g where "g = bit (cells m (y + 1)) 1"
  define m1 where "m1 = block_set_size m (ptr y) (ptr (n - k - 1))"
  have "y + 1 < cell_limit" using lim assms(2) by (simp add: y_def)
  then have c1: "cells m1 = (cells m)(y + 1 := size_word (n - k - 1) g0 g)"
    unfolding m1_def g0_def g_def by (rule block_set_size_any)
  have "header (cells m1) x n f p" using assms(1) by (simp add: c1 header_def y_def)
  define m2 where "m2 = block_set_size m1 (ptr x) (ptr k)"
  have c2: "cells m2 = (cells m)(y + 1 := size_word (n - k - 1) g0 g, x + 1 := size_word k f p)"
    unfolding m2_def using block_set_cell(5) [OF \<open>header (cells m1) x n f p\<close>] by (simp add: c1)
  have e: "y + (n - k - 1) + 1 = x + n + 1" "y + (n - k - 1) + 2 = x + n + 2"
    using assms(2) by (simp_all add: y_def)
  have "header (cells m2) y (n - k - 1) g0 g" using \<open>y + 1 < cell_limit\<close> by (simp add: c2 header_def y_def)
  moreover have "header (cells m2) (y + (n - k - 1) + 1) n' f' p'"
    unfolding e using assms(2,3) by (simp add: c2 header_def y_def)
  ultimately have c3: "cells (block_mark_as_free m2 (ptr y)) = (cells m2)
      (x + n + 1 := ptr y, x + n + 2 := size_word n' f' True, y + 1 := size_word (n - k - 1) True g)"
    using block_mark_as_free_cell [of m2 y "n - k - 1" g0 g n' f' p'] assms(2) e by simp
  have split: "block_split m (ptr x) (ptr k) = (block_mark_as_free m2 (ptr y), ptr y)"
    unfolding block_split_def Let_def rem sz m1_def m2_def ..
  then show "snd (block_split m (ptr x) (ptr k)) = ptr y" by simp
  have "cells (fst (block_split m (ptr x) (ptr k))) =
      (cells m)(x + 1 := size_word k f p, y + 1 := size_word (n - k - 1) True g,
        x + n + 1 := ptr y, x + n + 2 := size_word n' f' True)"
    unfolding split fst_conv c3 c2 using assms(2) by (intro ext) (simp add: y_def)
  then show "\<exists>g. cells (fst (block_split m (ptr x) (ptr k))) =
      (cells m)(x + 1 := size_word k f p, y + 1 := size_word (n - k - 1) True g,
        x + n + 1 := ptr y, x + n + 2 := size_word n' f' True)" by blast
qed

lemma block_absorb_cell:
  assumes "header (cells m) x n f p" "header (cells m) y n' f' p'" "1 \<le> n" "x + (n + n' + 1) + 1 < cell_limit"
  shows "cells (block_absorb m (ptr x) (ptr y)) =
    (cells m)(x + 1 := size_word (n + n' + 1) f p, x + (n + n' + 1) + 1 := ptr x)"
proof -
  have sz: "load64 m (size_addr (ptr x)) + (block_size m (ptr y) + block_header_overhead) = size_word (n + n' + 1) f p"
    using size_word_add [of n f p "n' + 1"]
    by (simp add: load_size [OF assms(1)] block_size_cell [OF assms(2)] block_constants ptr_add(1) add.assoc)
  define m1 where "m1 = store64 m (size_addr (ptr x)) (size_word (n + n' + 1) f p)"
  have c1: "cells m1 = (cells m)(x + 1 := size_word (n + n' + 1) f p)"
    unfolding m1_def using assms(1) by (simp add: header_def block_addrs cells_store)
  have "header (cells m1) x (n + n' + 1) f p" using assms(1) by (simp add: c1 header_def)
  then have "cells (fst (block_link_next m1 (ptr x))) = (cells m1)(x + (n + n' + 1) + 1 := ptr x)"
    using block_link_next_cell(1) [of m1 x "n + n' + 1"] assms(3,4) by simp
  then show ?thesis by (simp add: block_absorb_def Let_def sz c1 flip: m1_def)
qed

end
