(* ===== verification/TlsfLists.thy ===== *)
theory TlsfLists imports TlsfBlocks begin

text \<open>
  The control structure of \<open>tlsf.c\<close> and its segregated free lists: the search by the two bitmaps, unlinking
  and linking a block (\<open>search_suitable_block\<close>, \<open>remove_free_block\<close>, \<open>insert_free_block\<close>), and the
  invariant \<open>lists_ok\<close>: every list is a doubly linked chain in memory that holds exactly the blocks of its
  size class, and the bitmaps tell which lists are empty.
\<close>

unbundle bit_operations_syntax

section \<open>The control structure\<close>

text \<open>
  \<open>block_null\<close> is the address of the first member, the block every empty list points at; its link fields are
  cells of the memory \<open>mem\<close> like those of any block.
\<close>

record control_t =
  block_null :: u64
  fl_bitmap :: u32
  sl_bitmap :: "u32 list"
  blocks :: "u64 list list"
  mem :: memory

definition search_suitable_block :: "control_t \<Rightarrow> nat \<Rightarrow> nat \<Rightarrow> u64 \<times> nat \<times> nat" where
  "search_suitable_block control fl sl =
     (let sl_map = sl_bitmap control ! fl AND push_bit sl (NOT 0)
      in if sl_map = 0 then
           let fl_map = fl_bitmap control AND push_bit (fl + 1) (NOT 0)
           in if fl_map = 0 then (0, fl, sl)
              else
                let fl = nat (tlsf_ffs fl_map);
                    sl_map = sl_bitmap control ! fl;
                    sl = nat (tlsf_ffs sl_map)
                in (blocks control ! fl ! sl, fl, sl)
         else
           let sl = nat (tlsf_ffs sl_map)
           in (blocks control ! fl ! sl, fl, sl))"

definition remove_free_block :: "control_t \<Rightarrow> u64 \<Rightarrow> nat \<Rightarrow> nat \<Rightarrow> control_t" where
  "remove_free_block control block fl sl =
     (let prev = load64 (mem control) (prev_free_addr block);
          nxt = load64 (mem control) (next_free_addr block);
          m = store64 (mem control) (prev_free_addr nxt) prev;
          m = store64 m (next_free_addr prev) nxt;
          control = control\<lparr>mem := m\<rparr>
      in if blocks control ! fl ! sl = block then
           let control = control\<lparr>blocks := (blocks control)[fl := (blocks control ! fl)[sl := nxt]]\<rparr>
           in if nxt = block_null control then
                let control = control\<lparr>sl_bitmap := (sl_bitmap control)[fl := sl_bitmap control ! fl AND NOT (push_bit sl 1)]\<rparr>
                in if sl_bitmap control ! fl = 0
                   then control\<lparr>fl_bitmap := fl_bitmap control AND NOT (push_bit fl 1)\<rparr>
                   else control
              else control
         else control)"

definition insert_free_block :: "control_t \<Rightarrow> u64 \<Rightarrow> nat \<Rightarrow> nat \<Rightarrow> control_t" where
  "insert_free_block control block fl sl =
     (let current = blocks control ! fl ! sl;
          m = store64 (mem control) (next_free_addr block) current;
          m = store64 m (prev_free_addr block) (block_null control);
          m = store64 m (prev_free_addr current) block
      in control\<lparr>mem := m,
           blocks := (blocks control)[fl := (blocks control ! fl)[sl := block]],
           fl_bitmap := fl_bitmap control OR push_bit fl 1,
           sl_bitmap := (sl_bitmap control)[fl := sl_bitmap control ! fl OR push_bit sl 1]\<rparr>)"

definition block_remove :: "control_t \<Rightarrow> u64 \<Rightarrow> control_t" where
  "block_remove control block =
     (let (fl, sl) = mapping_insert (block_size (mem control) block)
      in remove_free_block control block fl sl)"

definition block_insert :: "control_t \<Rightarrow> u64 \<Rightarrow> control_t" where
  "block_insert control block =
     (let (fl, sl) = mapping_insert (block_size (mem control) block)
      in insert_free_block control block fl sl)"

section \<open>Doubly linked chains of cells\<close>

text \<open>The block at cell \<open>x\<close> has its \<open>next_free\<close> at cell \<open>x + 2\<close> and its \<open>prev_free\<close> at cell \<open>x + 3\<close>.\<close>

definition hd_cell :: "nat list \<Rightarrow> nat \<Rightarrow> nat" where
  "hd_cell xs q = (case xs of [] \<Rightarrow> q | x # _ \<Rightarrow> x)"

definition last_cell :: "nat \<Rightarrow> nat list \<Rightarrow> nat" where
  "last_cell p xs = (if xs = [] then p else last xs)"

fun chain :: "(nat \<Rightarrow> u64) \<Rightarrow> nat \<Rightarrow> nat list \<Rightarrow> nat \<Rightarrow> bool" where
  "chain c p [] q = True"
| "chain c p (x # xs) q = (c (x + 3) = ptr p \<and> c (x + 2) = ptr (hd_cell xs q) \<and> chain c x xs q)"

lemma hd_cell_simps [simp]: "hd_cell [] q = q" "hd_cell (x # xs) q = x" "hd_cell (xs @ ys) q = hd_cell xs (hd_cell ys q)"
  by (simp_all add: hd_cell_def split: list.split)

lemma last_cell_simps [simp]: "last_cell p [] = p" "last_cell p (x # xs) = last_cell x xs"
  by (simp_all add: last_cell_def)

lemma chain_append: "chain c p (xs @ ys) q \<longleftrightarrow> chain c p xs (hd_cell ys q) \<and> chain c (last_cell p xs) ys q"
  by (induction xs arbitrary: p) simp_all

lemma chain_frame:
  "(\<And>y. y \<in> set xs \<Longrightarrow> c' (y + 2) = c (y + 2) \<and> c' (y + 3) = c (y + 3)) \<Longrightarrow> chain c p xs q \<Longrightarrow> chain c' p xs q"
  by (induction xs arbitrary: p) simp_all

text \<open>Redirecting the last link, and the first back link.\<close>

lemma chain_relink_last:
  assumes "chain c p xs q" "distinct xs"
    and "\<And>y. y \<in> set xs \<Longrightarrow> c' (y + 3) = c (y + 3) \<and> c' (y + 2) = (if y = last xs then ptr q' else c (y + 2))"
  shows "chain c' p xs q'"
  using assms
proof (induction xs arbitrary: p)
  case (Cons x xs)
  show ?case
  proof (cases "xs = []")
    case True
    then show ?thesis using Cons.prems by simp
  next
    case False
    have "chain c' x xs q'" using Cons.prems False by (intro Cons.IH) auto
    moreover have "x \<noteq> last xs" using Cons.prems(2) False last_in_set by auto
    moreover have "hd_cell xs q' = hd_cell xs q" using False by (cases xs) simp_all
    ultimately show ?thesis using Cons.prems(1) Cons.prems(3) [of x] False by simp
  qed
qed simp

lemma chain_relink_first:
  assumes "chain c p xs q" "distinct xs"
    and "\<And>y. y \<in> set xs \<Longrightarrow> c' (y + 2) = c (y + 2) \<and> c' (y + 3) = (if y = hd xs then ptr p' else c (y + 3))"
  shows "chain c' p' xs q"
proof (cases xs)
  case (Cons x ys)
  have "chain c' x ys q"
    using assms Cons by (intro chain_frame [of ys c' c]) auto
  then show ?thesis using assms Cons by simp
qed simp

text \<open>No two blocks of a set share a link cell.\<close>

definition links_apart :: "nat set \<Rightarrow> bool" where
  "links_apart A \<longleftrightarrow> (\<forall>x \<in> A. \<forall>y \<in> A. x + 2 \<noteq> y + 3)"

lemma links_apartD: "links_apart A \<Longrightarrow> x \<in> A \<Longrightarrow> y \<in> A \<Longrightarrow> x + 2 \<noteq> y + 3"
  by (simp add: links_apart_def)

lemma links_apart_subset: "links_apart A \<Longrightarrow> B \<subseteq> A \<Longrightarrow> links_apart B"
  by (auto simp: links_apart_def)

definition unlink :: "(nat \<Rightarrow> u64) \<Rightarrow> nat \<Rightarrow> nat \<Rightarrow> nat \<Rightarrow> u64" where
  "unlink c p q = c(q + 3 := ptr p, p + 2 := ptr q)"

lemma last_cell_cases: "last_cell p xs = p \<and> xs = [] \<or> last_cell p xs \<in> set xs \<and> last_cell p xs = last xs"
  by (auto simp: last_cell_def)

lemma hd_cell_cases: "hd_cell xs q = q \<and> xs = [] \<or> hd_cell xs q \<in> set xs \<and> hd_cell xs q = hd xs"
  by (cases xs) simp_all

lemma chain_unlink:
  assumes "chain c N (xs @ x # ys) N" "distinct (N # xs @ x # ys)" "links_apart (set (N # xs @ x # ys))"
  shows "chain (unlink c (last_cell N xs) (hd_cell ys N)) N (xs @ ys) N"
proof -
  define p where "p = last_cell N xs"
  define q where "q = hd_cell ys N"
  have p: "p = N \<and> xs = [] \<or> p \<in> set xs \<and> p = last xs" unfolding p_def by (rule last_cell_cases)
  have q: "q = N \<and> ys = [] \<or> q \<in> set ys \<and> q = hd ys" unfolding q_def by (rule hd_cell_cases)
  have ch: "chain c N xs x" "chain c x ys N"
    using assms(1) by (simp_all add: chain_append)
  have far: "y + 2 \<noteq> z + 3" if "y \<in> set (p # q # xs @ ys)" "z \<in> set (p # q # xs @ ys)" for y z
    using that p q by (intro links_apartD [OF assms(3)]) auto
  have "chain (unlink c p q) N xs q"
  proof (rule chain_relink_last [OF ch(1)])
    show "distinct xs" using assms(2) by simp
    fix y
    assume y: "y \<in> set xs"
    then have "y \<noteq> q" using q assms(2) by auto
    moreover have "y + 2 \<noteq> q + 3" "p + 2 \<noteq> y + 3" using y by (intro far; simp)+
    moreover have "y = p \<longleftrightarrow> y = last xs" using p y by auto
    ultimately show "unlink c p q (y + 3) = c (y + 3)
        \<and> unlink c p q (y + 2) = (if y = last xs then ptr q else c (y + 2))"
      by (simp add: unlink_def)
  qed
  moreover have "chain (unlink c p q) p ys N"
  proof (rule chain_relink_first [OF ch(2)])
    show "distinct ys" using assms(2) by simp
    fix y
    assume y: "y \<in> set ys"
    then have "y \<noteq> p" using p assms(2) by auto
    moreover have "y + 2 \<noteq> q + 3" "p + 2 \<noteq> y + 3" "p + 2 \<noteq> q + 3" using y by (intro far; simp)+
    moreover have "y = q \<longleftrightarrow> y = hd ys" using q y by auto
    ultimately show "unlink c p q (y + 2) = c (y + 2)
        \<and> unlink c p q (y + 3) = (if y = hd ys then ptr p else c (y + 3))"
      by (simp add: unlink_def)
  qed
  ultimately show ?thesis by (simp add: chain_append p_def q_def)
qed

lemma chain_link:
  assumes "chain c N xs N" "distinct (N # x # xs)" "links_apart (set (N # x # xs))"
  shows "chain (c(x + 2 := ptr (hd_cell xs N), x + 3 := ptr N, hd_cell xs N + 3 := ptr x)) N (x # xs) N"
proof -
  define q where "q = hd_cell xs N"
  have q: "q = N \<and> xs = [] \<or> q \<in> set xs \<and> q = hd xs" unfolding q_def by (rule hd_cell_cases)
  have far: "y + 2 \<noteq> z + 3" if "y \<in> set (x # q # xs)" "z \<in> set (x # q # xs)" for y z
    using that q by (intro links_apartD [OF assms(3)]) auto
  have x: "x + 2 \<noteq> q + 3" "x + 2 \<noteq> x + 3" "x \<noteq> q"
    using q assms(2) far [of x q] by auto
  have "chain (c(x + 2 := ptr q, x + 3 := ptr N, q + 3 := ptr x)) x xs N"
  proof (rule chain_relink_first [OF assms(1)])
    show "distinct xs" using assms(2) by simp
    fix y
    assume y: "y \<in> set xs"
    then have "y \<noteq> x" using assms(2) by auto
    moreover have "y + 2 \<noteq> q + 3" "y + 2 \<noteq> x + 3" "x + 2 \<noteq> y + 3" using y by (intro far; simp)+
    moreover have "y = q \<longleftrightarrow> y = hd xs" using q y by auto
    ultimately show "(c(x + 2 := ptr q, x + 3 := ptr N, q + 3 := ptr x)) (y + 2) = c (y + 2)
        \<and> (c(x + 2 := ptr q, x + 3 := ptr N, q + 3 := ptr x)) (y + 3) = (if y = hd xs then ptr x else c (y + 3))"
      by simp
  qed
  then show ?thesis using x by (simp flip: q_def)
qed

section \<open>The free lists\<close>

text \<open>
  \<open>F x = Some n\<close>: the block at cell \<open>x\<close>, of \<open>n\<close> cells, is in the free lists. \<open>N\<close> is the cell of the null block.
\<close>

definition size_class :: "nat \<Rightarrow> nat \<times> nat" where
  "size_class n = mapping_insert (ptr n)"

definition linked :: "nat \<Rightarrow> (nat \<Rightarrow> u64) \<Rightarrow> (nat \<Rightarrow> nat option) \<Rightarrow> nat \<times> nat \<Rightarrow> nat list \<Rightarrow> bool" where
  "linked N c F k xs \<longleftrightarrow>
     chain c N xs N \<and> distinct xs \<and> set xs = {x. \<exists>n. F x = Some n \<and> size_class n = k}"

definition heads_ok :: "nat \<Rightarrow> control_t \<Rightarrow> (nat \<Rightarrow> nat option) \<Rightarrow> bool" where
  "heads_ok N s F \<longleftrightarrow>
     (\<forall>i<25. \<forall>j<32. \<exists>xs. linked N (cells (mem s)) F (i, j) xs \<and> blocks s ! i ! j = ptr (hd_cell xs N)
        \<and> (bit (sl_bitmap s ! i) j \<longleftrightarrow> xs \<noteq> []))"

definition tables_ok :: "control_t \<Rightarrow> bool" where
  "tables_ok s \<longleftrightarrow> length (sl_bitmap s) = 25 \<and> length (blocks s) = 25 \<and> (\<forall>i<25. length (blocks s ! i) = 32)
     \<and> (\<forall>i. bit (fl_bitmap s) i \<longleftrightarrow> i < 25 \<and> sl_bitmap s ! i \<noteq> 0)"

definition free_ok :: "nat \<Rightarrow> (nat \<Rightarrow> nat option) \<Rightarrow> bool" where
  "free_ok N F \<longleftrightarrow> N + 3 < cell_limit \<and> N \<notin> dom F \<and> links_apart (insert N (dom F))
     \<and> (\<forall>x \<in> dom F. 0 < x \<and> x + 3 < cell_limit) \<and> (\<forall>x n. F x = Some n \<longrightarrow> 8 * n < 2 ^ 32)"

definition lists_ok :: "nat \<Rightarrow> control_t \<Rightarrow> (nat \<Rightarrow> nat option) \<Rightarrow> bool" where
  "lists_ok N s F \<longleftrightarrow> block_null s = ptr N \<and> tables_ok s \<and> free_ok N F \<and> heads_ok N s F"

lemma heads_okI:
  assumes "\<And>i j. i < 25 \<Longrightarrow> j < 32 \<Longrightarrow>
    \<exists>xs. linked N (cells (mem s)) F (i, j) xs \<and> blocks s ! i ! j = ptr (hd_cell xs N) \<and> (bit (sl_bitmap s ! i) j \<longleftrightarrow> xs \<noteq> [])"
  shows "heads_ok N s F"
  using assms by (simp add: heads_ok_def)

lemma heads_okE:
  assumes "heads_ok N s F" "i < 25" "j < 32"
  obtains xs where "linked N (cells (mem s)) F (i, j) xs" "blocks s ! i ! j = ptr (hd_cell xs N)"
    "bit (sl_bitmap s ! i) j \<longleftrightarrow> xs \<noteq> []"
  using assms unfolding heads_ok_def by blast

lemma size_class_bounds:
  assumes "8 * n < 2 ^ 32"
  shows "fst (size_class n) < 25" "snd (size_class n) < 32"
proof -
  have "n < cell_limit" using assms by (simp add: cell_limit_def)
  then have "unat (ptr n) < 2 ^ 32" using assms by (simp add: unat_ptr)
  then show "fst (size_class n) < 25" "snd (size_class n) < 32"
    using mapping_insert_class(4) [of "ptr n"] mapping_sl_bound [of "ptr n"] by (simp_all add: size_class_def)
qed

lemma linked_frame:
  assumes "linked N c F k xs"
    and "\<And>y. y \<in> set xs \<Longrightarrow> c' (y + 2) = c (y + 2) \<and> c' (y + 3) = c (y + 3)"
    and "\<And>y n. size_class n = k \<Longrightarrow> F' y = Some n \<longleftrightarrow> F y = Some n"
  shows "linked N c' F' k xs"
  using assms chain_frame [of xs c' c N N] by (auto simp: linked_def)

text \<open>The cells a change of the lists may touch: the links of the listed blocks and of the null block.\<close>

definition link_cells :: "nat set \<Rightarrow> nat set" where
  "link_cells A = {k. \<exists>y \<in> A. k = y + 2 \<or> k = y + 3}"

definition same_outside :: "nat set \<Rightarrow> (nat \<Rightarrow> u64) \<Rightarrow> (nat \<Rightarrow> u64) \<Rightarrow> bool" where
  "same_outside A c c' \<longleftrightarrow> (\<forall>k. k \<notin> A \<longrightarrow> c' k = c k)"

lemma same_outside_refl [simp]: "same_outside A c c" by (simp add: same_outside_def)

lemma same_outside_trans: "same_outside A c c' \<Longrightarrow> same_outside A c' c'' \<Longrightarrow> same_outside A c c''"
  by (simp add: same_outside_def)

lemma same_outside_mono: "same_outside A c c' \<Longrightarrow> A \<subseteq> B \<Longrightarrow> same_outside B c c'"
  by (auto simp: same_outside_def)

lemma same_outside_upd: "same_outside A c c' \<Longrightarrow> k \<in> A \<Longrightarrow> same_outside A c (c'(k := v))"
  by (auto simp: same_outside_def)

lemma link_cells_memI: "y \<in> A \<Longrightarrow> y + 2 \<in> link_cells A" "y \<in> A \<Longrightarrow> y + 3 \<in> link_cells A"
  by (auto simp: link_cells_def)

text \<open>A change of headers and boundary links outside of the list cells keeps the lists.\<close>

lemma lists_ok_frame:
  assumes "lists_ok N s F" "\<And>k. k \<in> link_cells (insert N (dom F)) \<Longrightarrow> cells m k = cells (mem s) k"
  shows "lists_ok N (s\<lparr>mem := m\<rparr>) F"
proof -
  have "linked N (cells m) F k xs" if "linked N (cells (mem s)) F k xs" for k xs
    using that
  proof (rule linked_frame)
    fix y
    assume "y \<in> set xs"
    then have "y \<in> insert N (dom F)" using that by (auto simp: linked_def)
    then show "cells m (y + 2) = cells (mem s) (y + 2) \<and> cells m (y + 3) = cells (mem s) (y + 3)"
      by (intro conjI assms(2) link_cells_memI)
  qed simp
  note frame = this
  have heads: "heads_ok N s F" using assms(1) by (simp add: lists_ok_def)
  have "heads_ok N (s\<lparr>mem := m\<rparr>) F"
  proof (rule heads_okI)
    fix i j :: nat
    assume ij: "i < 25" "j < 32"
    obtain xs where "linked N (cells (mem s)) F (i, j) xs" "blocks s ! i ! j = ptr (hd_cell xs N)"
        "bit (sl_bitmap s ! i) j \<longleftrightarrow> xs \<noteq> []"
      by (rule heads_okE [OF heads ij])
    then show "\<exists>xs. linked N (cells (mem (s\<lparr>mem := m\<rparr>))) F (i, j) xs \<and> blocks (s\<lparr>mem := m\<rparr>) ! i ! j = ptr (hd_cell xs N)
        \<and> (bit (sl_bitmap (s\<lparr>mem := m\<rparr>) ! i) j \<longleftrightarrow> xs \<noteq> [])"
      using frame by (intro exI [of _ xs]) simp
  qed
  then show ?thesis using assms(1) by (simp add: lists_ok_def tables_ok_def)
qed

lemma block_class: "header (cells m) x n f p \<Longrightarrow> mapping_insert (block_size m (ptr x)) = size_class n"
  by (simp add: block_size_cell size_class_def)

text \<open>An operation on one list: what the other lists need, and what the changed one.\<close>

lemma lists_ok_update:
  assumes ok: "lists_ok N s F"
    and new: "linked N (cells (mem s')) F' k zs" "free_ok N F'" "tables_ok s'" "block_null s' = block_null s"
    and other: "\<And>y n. size_class n \<noteq> k \<Longrightarrow> F' y = Some n \<longleftrightarrow> F y = Some n"
    and mem: "\<And>y n. F y = Some n \<Longrightarrow> size_class n \<noteq> k \<Longrightarrow>
      cells (mem s') (y + 2) = cells (mem s) (y + 2) \<and> cells (mem s') (y + 3) = cells (mem s) (y + 3)"
    and head: "\<And>i j. i < 25 \<Longrightarrow> j < 32 \<Longrightarrow>
      blocks s' ! i ! j = (if (i, j) = k then ptr (hd_cell zs N) else blocks s ! i ! j)"
    and bits: "\<And>i j. i < 25 \<Longrightarrow> j < 32 \<Longrightarrow>
      bit (sl_bitmap s' ! i) j \<longleftrightarrow> (if (i, j) = k then zs \<noteq> [] else bit (sl_bitmap s ! i) j)"
  shows "lists_ok N s' F'"
proof -
  have heads: "heads_ok N s F" using ok by (simp add: lists_ok_def)
  have "heads_ok N s' F'"
  proof (rule heads_okI)
    fix i j :: nat
    assume ij: "i < 25" "j < 32"
    show "\<exists>xs. linked N (cells (mem s')) F' (i, j) xs \<and> blocks s' ! i ! j = ptr (hd_cell xs N)
        \<and> (bit (sl_bitmap s' ! i) j \<longleftrightarrow> xs \<noteq> [])"
    proof (cases "(i, j) = k")
      case True
      then show ?thesis using new(1) head [OF ij] bits [OF ij] by (intro exI [of _ zs]) simp
    next
      case False
      obtain xs where xs: "linked N (cells (mem s)) F (i, j) xs" "blocks s ! i ! j = ptr (hd_cell xs N)"
          "bit (sl_bitmap s ! i) j \<longleftrightarrow> xs \<noteq> []"
        by (rule heads_okE [OF heads ij])
      have "linked N (cells (mem s')) F' (i, j) xs"
        using xs(1)
      proof (rule linked_frame)
        fix y
        assume "y \<in> set xs"
        then obtain n where "F y = Some n" "size_class n = (i, j)" using xs(1) by (auto simp: linked_def)
        then show "cells (mem s') (y + 2) = cells (mem s) (y + 2) \<and> cells (mem s') (y + 3) = cells (mem s) (y + 3)"
          using mem False by simp
      qed (use other False in simp)
      then show ?thesis using xs head [OF ij] bits [OF ij] False by (intro exI [of _ xs]) simp
    qed
  qed
  then show ?thesis using ok new by (simp add: lists_ok_def)
qed

lemma free_okD:
  assumes "free_ok N F"
  shows "N + 3 < cell_limit" "N \<notin> dom F" "links_apart (insert N (dom F))" "F x = Some n \<Longrightarrow> x + 3 < cell_limit"
    "F x = Some n \<Longrightarrow> 8 * n < 2 ^ 32" "F x = Some n \<Longrightarrow> 0 < x"
  using assms by (auto simp: free_ok_def)

lemma bit_clear_set_u32:
  "sl < 32 \<Longrightarrow> bit ((w :: u32) AND NOT (2 ^ sl)) j \<longleftrightarrow> bit w j \<and> j \<noteq> sl"
  "sl < 32 \<Longrightarrow> bit ((w :: u32) OR 2 ^ sl) j \<longleftrightarrow> bit w j \<or> j = sl"
  by (auto simp: bit_simps dest: bit_imp_le_length)

text \<open>The tables after the entry of one list is replaced and its bit set or cleared.\<close>

lemma tables_ok_clear:
  assumes "tables_ok s" "fl < 25" "sl < 32"
  defines "w \<equiv> sl_bitmap s ! fl AND NOT (push_bit sl 1)"
  shows "tables_ok (s\<lparr>blocks := (blocks s)[fl := (blocks s ! fl)[sl := v]], sl_bitmap := (sl_bitmap s)[fl := w],
    fl_bitmap := (if w = 0 then fl_bitmap s AND NOT (push_bit fl 1) else fl_bitmap s), mem := m\<rparr>)"
proof -
  have "bit (if w = 0 then fl_bitmap s AND NOT (push_bit fl 1) else fl_bitmap s) i
      \<longleftrightarrow> i < 25 \<and> (sl_bitmap s)[fl := w] ! i \<noteq> 0" for i
  proof (cases "i = fl")
    case True
    have "sl_bitmap s ! fl \<noteq> 0" if "w \<noteq> 0" using that by (auto simp: w_def)
    then show ?thesis using assms(1-3) True by (auto simp: tables_ok_def bit_clear_set_u32)
  next
    case False
    then show ?thesis using assms(1-3) by (simp add: tables_ok_def bit_clear_set_u32)
  qed
  then show ?thesis using assms(1-3) by (auto simp: tables_ok_def nth_list_update)
qed

lemma tables_ok_set:
  assumes "tables_ok s" "fl < 25" "sl < 32"
  shows "tables_ok (s\<lparr>mem := m, blocks := (blocks s)[fl := (blocks s ! fl)[sl := v]],
    fl_bitmap := fl_bitmap s OR push_bit fl 1, sl_bitmap := (sl_bitmap s)[fl := sl_bitmap s ! fl OR push_bit sl 1]\<rparr>)"
proof -
  have "sl_bitmap s ! fl OR 2 ^ sl \<noteq> 0"
  proof
    assume "sl_bitmap s ! fl OR 2 ^ sl = 0"
    then have "bit (sl_bitmap s ! fl OR 2 ^ sl) sl = bit (0 :: u32) sl" by simp
    then show False using assms(3) by (simp only: bit_clear_set_u32) simp
  qed
  then have "bit (fl_bitmap s OR push_bit fl 1) i
      \<longleftrightarrow> i < 25 \<and> (sl_bitmap s)[fl := sl_bitmap s ! fl OR push_bit sl 1] ! i \<noteq> 0" for i
    using assms by (cases "i = fl") (simp_all add: tables_ok_def bit_clear_set_u32)
  then show ?thesis using assms by (auto simp: tables_ok_def nth_list_update)
qed

lemma insert_free_block_ok:
  assumes ok: "lists_ok N s F" and x: "F x = None" "free_ok N (F(x \<mapsto> n))" and k: "size_class n = (fl, sl)"
  shows "lists_ok N (insert_free_block s (ptr x) fl sl) (F(x \<mapsto> n))"
    and "same_outside (link_cells (insert N (insert x (dom F)))) (cells (mem s)) (cells (mem (insert_free_block s (ptr x) fl sl)))"
proof -
  define s' where "s' = insert_free_block s (ptr x) fl sl"
  have b: "fl < 25" "sl < 32" using size_class_bounds [of n] k free_okD(5) [OF x(2), of x n] by simp_all
  have heads: "heads_ok N s F" and tab: "tables_ok s" and null: "block_null s = ptr N" and fr: "free_ok N F"
    using ok by (simp_all add: lists_ok_def)
  obtain xs where xs: "linked N (cells (mem s)) F (fl, sl) xs" "blocks s ! fl ! sl = ptr (hd_cell xs N)"
      "bit (sl_bitmap s ! fl) sl \<longleftrightarrow> xs \<noteq> []"
    by (rule heads_okE [OF heads b])
  define q where "q = hd_cell xs N"
  have q: "q = N \<and> xs = [] \<or> q \<in> set xs \<and> q = hd xs" unfolding q_def by (rule hd_cell_cases)
  have set_xs: "set xs \<subseteq> dom F" using xs(1) by (auto simp: linked_def)
  have lim: "x + 3 < cell_limit" "q + 3 < cell_limit"
    using free_okD(4) [OF x(2), of x n] q set_xs free_okD(1) [OF fr] free_okD(4) [OF fr, of q] by auto
  define c' where "c' = (cells (mem s))(x + 2 := ptr q, x + 3 := ptr N, q + 3 := ptr x)"
  have mem': "cells (mem s') = c'"
    using lim by (simp add: s'_def insert_free_block_def Let_def xs(2) null block_addrs cells_store c'_def flip: q_def)
  have N: "N \<notin> set (x # xs)" using free_okD(2) [OF x(2)] set_xs by auto
  have "linked N c' (F(x \<mapsto> n)) (fl, sl) (x # xs)"
  proof -
    have "x \<notin> set xs" using set_xs x(1) by auto
    then have "distinct (N # x # xs)" using xs(1) N by (simp add: linked_def)
    moreover have "links_apart (set (N # x # xs))"
      using set_xs by (intro links_apart_subset [OF free_okD(3) [OF x(2)]]) auto
    ultimately have "chain c' N (x # xs) N"
      unfolding c'_def q_def using xs(1) by (intro chain_link) (simp_all add: linked_def)
    moreover have "set (x # xs) = {y. \<exists>j. (F(x \<mapsto> n)) y = Some j \<and> size_class j = (fl, sl)}"
      using xs(1) k x(1) by (auto simp: linked_def)
    ultimately show ?thesis using \<open>distinct (N # x # xs)\<close> by (simp add: linked_def)
  qed
  note linked' = this
  have outside: "same_outside (link_cells (insert N (insert x (dom F)))) (cells (mem s)) c'"
    unfolding c'_def using q set_xs by (intro same_outside_upd same_outside_refl link_cells_memI) auto
  show "same_outside (link_cells (insert N (insert x (dom F)))) (cells (mem s)) (cells (mem (insert_free_block s (ptr x) fl sl)))"
    unfolding s'_def [symmetric] mem' by (rule outside)
  show "lists_ok N (insert_free_block s (ptr x) fl sl) (F(x \<mapsto> n))"
    unfolding s'_def [symmetric]
  proof (rule lists_ok_update [OF ok, of s' "F(x \<mapsto> n)" "(fl, sl)" "x # xs"])
    show "linked N (cells (mem s')) (F(x \<mapsto> n)) (fl, sl) (x # xs)" using linked' mem' by simp
    show "tables_ok s'" unfolding s'_def insert_free_block_def Let_def by (rule tables_ok_set [OF tab b])
    show "block_null s' = block_null s" by (simp add: s'_def insert_free_block_def Let_def)
    show "(F(x \<mapsto> n)) y = Some j \<longleftrightarrow> F y = Some j" if "size_class j \<noteq> (fl, sl)" for y j
      using that k x(1) by auto
    show "cells (mem s') (y + 2) = cells (mem s) (y + 2) \<and> cells (mem s') (y + 3) = cells (mem s) (y + 3)"
      if "F y = Some j" "size_class j \<noteq> (fl, sl)" for y j
    proof -
      have "y \<noteq> x" using that x(1) by auto
      moreover have "y \<noteq> q" using that q xs(1) free_okD(2) [OF fr] by (auto simp: linked_def)
      moreover have "y + 2 \<noteq> x + 3" "x + 2 \<noteq> y + 3" "y + 2 \<noteq> q + 3"
        using that q set_xs by (intro links_apartD [OF free_okD(3) [OF x(2)]]; auto)+
      ultimately show ?thesis by (simp add: mem' c'_def)
    qed
    fix i j :: nat
    assume ij: "i < 25" "j < 32"
    show "blocks s' ! i ! j = (if (i, j) = (fl, sl) then ptr (hd_cell (x # xs) N) else blocks s ! i ! j)"
      using tab b ij by (auto simp: s'_def insert_free_block_def Let_def tables_ok_def nth_list_update)
    show "bit (sl_bitmap s' ! i) j \<longleftrightarrow> (if (i, j) = (fl, sl) then x # xs \<noteq> [] else bit (sl_bitmap s ! i) j)"
      using tab b ij by (auto simp: s'_def insert_free_block_def Let_def tables_ok_def nth_list_update bit_clear_set_u32)
  qed (rule x(2))
qed

lemma tables_ok_head:
  "tables_ok s \<Longrightarrow> fl < 25 \<Longrightarrow> tables_ok (s\<lparr>mem := m, blocks := (blocks s)[fl := (blocks s ! fl)[sl := v]]\<rparr>)"
  by (auto simp: tables_ok_def nth_list_update)

lemma remove_free_block_ok:
  assumes ok: "lists_ok N s F" and x: "F x = Some n" and k: "size_class n = (fl, sl)"
  shows "lists_ok N (remove_free_block s (ptr x) fl sl) (F(x := None))"
    and "same_outside (link_cells (insert N (dom F - {x}))) (cells (mem s)) (cells (mem (remove_free_block s (ptr x) fl sl)))"
proof -
  define s' where "s' = remove_free_block s (ptr x) fl sl"
  have heads: "heads_ok N s F" and tab: "tables_ok s" and null: "block_null s = ptr N" and fr: "free_ok N F"
    using ok by (simp_all add: lists_ok_def)
  have b: "fl < 25" "sl < 32" using size_class_bounds [of n] k free_okD(5) [OF fr x] by simp_all
  obtain xs where xs: "linked N (cells (mem s)) F (fl, sl) xs" "blocks s ! fl ! sl = ptr (hd_cell xs N)"
      "bit (sl_bitmap s ! fl) sl \<longleftrightarrow> xs \<noteq> []"
    by (rule heads_okE [OF heads b])
  have "x \<in> set xs" using xs(1) x k by (auto simp: linked_def)
  then obtain as bs where split: "xs = as @ x # bs" by (meson split_list)
  define p where "p = last_cell N as"
  define q where "q = hd_cell bs N"
  have p: "p = N \<and> as = [] \<or> p \<in> set as \<and> p = last as" unfolding p_def by (rule last_cell_cases)
  have q: "q = N \<and> bs = [] \<or> q \<in> set bs \<and> q = hd bs" unfolding q_def by (rule hd_cell_cases)
  have set_xs: "set xs \<subseteq> dom F" using xs(1) by (auto simp: linked_def)
  have dist: "distinct (N # as @ x # bs)" using xs(1) set_xs free_okD(2) [OF fr] by (auto simp: linked_def split)
  have pq: "p \<in> insert N (dom F - {x})" "q \<in> insert N (dom F - {x})"
    using p q set_xs dist by (auto simp: split)
  have links: "cells (mem s) (x + 3) = ptr p" "cells (mem s) (x + 2) = ptr q"
    using xs(1) by (simp_all add: linked_def split chain_append p_def q_def)
  have lims: "y + 3 < cell_limit" if "y \<in> insert N (dom F)" for y
    using that free_okD(1,4) [OF fr] by auto
  have lim: "x + 3 < cell_limit" "p + 3 < cell_limit" "q + 3 < cell_limit"
    using pq x by (auto intro!: lims)
  define m' where "m' = store64 (store64 (mem s) (prev_free_addr (ptr q)) (ptr p)) (next_free_addr (ptr p)) (ptr q)"
  have c': "cells m' = unlink (cells (mem s)) p q"
    using lim by (simp add: m'_def block_addrs cells_store unlink_def)
  have head: "blocks s ! fl ! sl = ptr x \<longleftrightarrow> as = []"
  proof (cases as)
    case (Cons a as')
    then have "a \<noteq> x" "a + 3 < cell_limit" using dist set_xs by (auto simp: split intro!: lims)
    then show ?thesis using lim(1) Cons by (simp add: xs(2) split)
  qed (simp add: xs(2) split)
  have last: "ptr q = ptr N \<longleftrightarrow> bs = []"
    using q dist lim(3) free_okD(1) [OF fr] by auto
  define w where "w = sl_bitmap s ! fl AND NOT (push_bit sl 1)"
  have s': "s' = (if as = [] then
      if bs = [] then s\<lparr>blocks := (blocks s)[fl := (blocks s ! fl)[sl := ptr q]], sl_bitmap := (sl_bitmap s)[fl := w],
        fl_bitmap := (if w = 0 then fl_bitmap s AND NOT (push_bit fl 1) else fl_bitmap s), mem := m'\<rparr>
      else s\<lparr>mem := m', blocks := (blocks s)[fl := (blocks s ! fl)[sl := ptr q]]\<rparr>
    else s\<lparr>mem := m'\<rparr>)"
  proof -
    have loads: "load64 (mem s) (prev_free_addr (ptr x)) = ptr p" "load64 (mem s) (next_free_addr (ptr x)) = ptr q"
      using lim links by (simp_all add: block_addrs load_cell)
    have "length (sl_bitmap s) = 25" using tab by (simp add: tables_ok_def)
    then show ?thesis
      unfolding s'_def remove_free_block_def loads Let_def
      using b by (simp add: head last null m'_def w_def del: push_bit_of_1)
  qed
  have linked': "linked N (cells m') (F(x := None)) (fl, sl) (as @ bs)"
  proof -
    have "links_apart (set (N # as @ x # bs))"
      using set_xs by (intro links_apart_subset [OF free_okD(3) [OF fr]]) (auto simp: split)
    moreover have "chain (cells (mem s)) N (as @ x # bs) N" using xs(1) by (simp add: linked_def split)
    ultimately have "chain (cells m') N (as @ bs) N"
      unfolding c' p_def q_def using dist by (intro chain_unlink [of _ N as x bs])
    moreover have "set (as @ bs) = set xs - {x}" using dist by (auto simp: split)
    ultimately show ?thesis using xs(1) dist by (auto simp: linked_def)
  qed
  have outside: "same_outside (link_cells (insert N (dom F - {x}))) (cells (mem s)) (cells m')"
    unfolding c' unlink_def using pq by (intro same_outside_upd same_outside_refl link_cells_memI)
  have mem': "mem s' = m'" by (simp add: s')
  show "same_outside (link_cells (insert N (dom F - {x}))) (cells (mem s)) (cells (mem (remove_free_block s (ptr x) fl sl)))"
    unfolding s'_def [symmetric] mem' by (rule outside)
  have free': "free_ok N (F(x := None))"
    using fr by (auto simp: free_ok_def links_apart_def)
  have bit_w: "bit w j \<longleftrightarrow> bit (sl_bitmap s ! fl) j \<and> j \<noteq> sl" for j
    using bit_clear_set_u32(1) [OF b(2)] by (simp add: w_def)
  show "lists_ok N (remove_free_block s (ptr x) fl sl) (F(x := None))"
    unfolding s'_def [symmetric]
  proof (rule lists_ok_update [OF ok, of s' "F(x := None)" "(fl, sl)" "as @ bs"])
    show "linked N (cells (mem s')) (F(x := None)) (fl, sl) (as @ bs)" using linked' mem' by simp
    show "tables_ok s'"
      unfolding s' w_def using tables_ok_clear [OF tab b] tables_ok_head [OF tab b(1)] tab by (simp add: tables_ok_def)
    show "block_null s' = block_null s" by (simp add: s')
    show "(F(x := None)) y = Some j \<longleftrightarrow> F y = Some j" if "size_class j \<noteq> (fl, sl)" for y j
      using that k x by auto
    show "cells (mem s') (y + 2) = cells (mem s) (y + 2) \<and> cells (mem s') (y + 3) = cells (mem s) (y + 3)"
      if "F y = Some j" "size_class j \<noteq> (fl, sl)" for y j
    proof -
      have "y \<notin> set xs" "y \<noteq> N" using that xs(1) free_okD(2) [OF fr] by (auto simp: linked_def)
      then have "y \<noteq> p" "y \<noteq> q" using p q by (auto simp: split)
      moreover have "y + 2 \<noteq> q + 3" "p + 2 \<noteq> y + 3"
        using that pq by (intro links_apartD [OF free_okD(3) [OF fr]]; auto)+
      ultimately show ?thesis by (simp add: mem' c' unlink_def)
    qed
    fix i j :: nat
    assume ij: "i < 25" "j < 32"
    have "hd_cell (as @ bs) N = hd_cell xs N" if "as \<noteq> []" using that by (cases as) (simp_all add: split)
    then show "blocks s' ! i ! j = (if (i, j) = (fl, sl) then ptr (hd_cell (as @ bs) N) else blocks s ! i ! j)"
      using tab b ij xs(2) by (auto simp: s' q_def tables_ok_def nth_list_update)
    show "bit (sl_bitmap s' ! i) j \<longleftrightarrow> (if (i, j) = (fl, sl) then as @ bs \<noteq> [] else bit (sl_bitmap s ! i) j)"
      using tab b ij xs(3) by (auto simp: s' bit_w tables_ok_def nth_list_update split)
  qed (rule free')
qed

section \<open>The search\<close>

lemma bit_from_u32: "bit ((w :: u32) AND push_bit k (NOT 0)) j \<longleftrightarrow> bit w j \<and> k \<le> j"
  using bit_imp_le_length [of w j] by (auto simp: bit_simps)

lemma bits_none_from: "(w :: u32) AND push_bit k (NOT 0) = 0 \<Longrightarrow> bit w j \<Longrightarrow> j < k"
  using bit_from_u32 [of w k j] by (auto simp: not_less [symmetric])

lemma lowest_bit_from:
  assumes "(w :: u32) AND push_bit k (NOT 0) \<noteq> 0"
  defines "i \<equiv> nat (tlsf_ffs (w AND push_bit k (NOT 0)))"
  shows "i < 32" "bit w i" "k \<le> i" "k \<le> j \<Longrightarrow> bit w j \<Longrightarrow> i \<le> j"
  using tlsf_ffs_correct [OF assms(1)] unfolding i_def bit_from_u32 by (auto simp: not_less [symmetric])

lemma lowest_bit:
  assumes "(w :: u32) \<noteq> 0"
  shows "nat (tlsf_ffs w) < 32" "bit w (nat (tlsf_ffs w))" "bit w j \<Longrightarrow> nat (tlsf_ffs w) \<le> j"
  using tlsf_ffs_correct [OF assms(1)] by (auto simp: not_less [symmetric])

lemma class_of_le:
  assumes "snd a < 32" "snd b < 32"
  shows "class_of a \<le> class_of b \<longleftrightarrow> fst a < fst b \<or> fst a = fst b \<and> snd a \<le> snd b"
  using assms by (auto simp: class_of_def)

text \<open>The bit of a class is set exactly when a block of the class is listed.\<close>

lemma class_bit:
  assumes "lists_ok N s F" "i < 25" "j < 32"
  shows "bit (sl_bitmap s ! i) j \<longleftrightarrow> (\<exists>x n. F x = Some n \<and> size_class n = (i, j))"
    and "bit (sl_bitmap s ! i) j \<Longrightarrow> \<exists>x n. blocks s ! i ! j = ptr x \<and> F x = Some n \<and> size_class n = (i, j)"
proof -
  have heads: "heads_ok N s F" using assms(1) by (simp add: lists_ok_def)
  obtain xs where xs: "linked N (cells (mem s)) F (i, j) xs" "blocks s ! i ! j = ptr (hd_cell xs N)"
      "bit (sl_bitmap s ! i) j \<longleftrightarrow> xs \<noteq> []"
    by (rule heads_okE [OF heads assms(2,3)])
  have "xs \<noteq> [] \<longleftrightarrow> (\<exists>x. x \<in> set xs)" by (cases xs) auto
  then show "bit (sl_bitmap s ! i) j \<longleftrightarrow> (\<exists>x n. F x = Some n \<and> size_class n = (i, j))"
    using xs(1,3) by (simp add: linked_def)
  assume "bit (sl_bitmap s ! i) j"
  then have "hd_cell xs N \<in> set xs" using xs(3) by (cases xs) simp_all
  then show "\<exists>x n. blocks s ! i ! j = ptr x \<and> F x = Some n \<and> size_class n = (i, j)"
    using xs by (auto simp: linked_def)
qed

definition search_ok :: "(nat \<Rightarrow> nat option) \<Rightarrow> nat \<times> nat \<Rightarrow> nat \<Rightarrow> nat \<Rightarrow> bool" where
  "search_ok F k x n \<longleftrightarrow> F x = Some n \<and> class_of k \<le> class_of (size_class n)
     \<and> (\<forall>y j. F y = Some j \<longrightarrow> class_of k \<le> class_of (size_class j) \<longrightarrow> class_of (size_class n) \<le> class_of (size_class j))"

lemma search_suitable_block_ok:
  assumes ok: "lists_ok N s F" and b: "fl < 25" "sl < 32"
  shows "(fst (search_suitable_block s fl sl) = 0 \<and> (\<forall>x n. F x = Some n \<longrightarrow> class_of (size_class n) < class_of (fl, sl)))
    \<or> (\<exists>x n. search_suitable_block s fl sl = (ptr x, size_class n) \<and> search_ok F (fl, sl) x n)"
proof -
  have tab: "tables_ok s" and fr: "free_ok N F" using ok by (simp_all add: lists_ok_def)
  have bounds: "fst (size_class n) < 25" "snd (size_class n) < 32" if "F x = Some n" for x n
    using size_class_bounds free_okD(5) [OF fr that] by simp_all
  define sl_map where "sl_map = sl_bitmap s ! fl AND push_bit sl (NOT 0)"
  define fl_map where "fl_map = fl_bitmap s AND push_bit (fl + 1) (NOT 0)"
  have le: "class_of (i, j) \<le> class_of (size_class n) \<longleftrightarrow>
      i < fst (size_class n) \<or> i = fst (size_class n) \<and> j \<le> snd (size_class n)"
    if "F x = Some n" "j < 32" for i j x n
    using bounds [OF that(1)] that(2) by (subst class_of_le) simp_all
  have listed: "bit (sl_bitmap s ! fst (size_class n)) (snd (size_class n))" if "F x = Some n" for x n
    using class_bit(1) [OF ok bounds [OF that]] that by (metis prod.collapse)
  consider (here) "sl_map \<noteq> 0" | (above) "sl_map = 0" "fl_map \<noteq> 0" | (none) "sl_map = 0" "fl_map = 0" by blast
  then show ?thesis
  proof cases
    case here
    define j where "j = nat (tlsf_ffs sl_map)"
    have j: "j < 32" "bit (sl_bitmap s ! fl) j" "sl \<le> j" "\<And>i. sl \<le> i \<Longrightarrow> bit (sl_bitmap s ! fl) i \<Longrightarrow> j \<le> i"
      using lowest_bit_from [OF here [unfolded sl_map_def]] unfolding j_def sl_map_def by blast+
    obtain x n where xn: "blocks s ! fl ! j = ptr x" "F x = Some n" "size_class n = (fl, j)"
      using class_bit(2) [OF ok b(1) j(1,2)] by blast
    have "search_suitable_block s fl sl = (ptr x, size_class n)"
      unfolding search_suitable_block_def Let_def sl_map_def [symmetric] using here xn by (simp add: j_def)
    moreover have "class_of (size_class n) \<le> class_of (size_class i)"
      if "F y = Some i" "class_of (fl, sl) \<le> class_of (size_class i)" for y i
      using that le [OF that(1) b(2)] le [OF that(1) j(1)] j(4) listed [OF that(1)] unfolding xn(3) by auto
    moreover have "class_of (fl, sl) \<le> class_of (size_class n)" using j(3) xn(3) by (simp add: class_of_def)
    ultimately show ?thesis using xn(2) unfolding search_ok_def by blast
  next
    case above
    define i where "i = nat (tlsf_ffs fl_map)"
    have i: "i < 32" "bit (fl_bitmap s) i" "fl + 1 \<le> i" "\<And>k. fl + 1 \<le> k \<Longrightarrow> bit (fl_bitmap s) k \<Longrightarrow> i \<le> k"
      using lowest_bit_from [OF above(2) [unfolded fl_map_def]] unfolding i_def fl_map_def by blast+
    have i25: "i < 25" "sl_bitmap s ! i \<noteq> 0" using i(2) tab by (simp_all add: tables_ok_def)
    define j where "j = nat (tlsf_ffs (sl_bitmap s ! i))"
    have j: "j < 32" "bit (sl_bitmap s ! i) j" "\<And>k. bit (sl_bitmap s ! i) k \<Longrightarrow> j \<le> k"
      using lowest_bit [OF i25(2)] unfolding j_def by blast+
    obtain x n where xn: "blocks s ! i ! j = ptr x" "F x = Some n" "size_class n = (i, j)"
      using class_bit(2) [OF ok i25(1) j(1,2)] by blast
    have "search_suitable_block s fl sl = (ptr x, size_class n)"
      unfolding search_suitable_block_def Let_def sl_map_def [symmetric] fl_map_def [symmetric]
      using above xn by (simp add: j_def i_def)
    moreover have "class_of (size_class n) \<le> class_of (size_class k)"
      if yk: "F y = Some k" "class_of (fl, sl) \<le> class_of (size_class k)" for y k
    proof -
      have bit: "bit (sl_bitmap s ! fst (size_class k)) (snd (size_class k))" by (rule listed [OF yk(1)])
      then have "sl_bitmap s ! fst (size_class k) \<noteq> 0" by auto
      then have fl_bit: "bit (fl_bitmap s) (fst (size_class k))" using tab bounds(1) [OF yk(1)] by (simp add: tables_ok_def)
      have "fl \<noteq> fst (size_class k)"
        using bits_none_from [OF above(1) [unfolded sl_map_def]] bit yk(2) le [OF yk(1) b(2)] by fastforce
      then have "i \<le> fst (size_class k)" using i(4) [OF _ fl_bit] yk(2) le [OF yk(1) b(2)] by simp
      moreover have "j \<le> snd (size_class k)" if "i = fst (size_class k)" using j(3) bit that by simp
      ultimately show ?thesis unfolding xn(3) le [OF yk(1) j(1)] by auto
    qed
    moreover have "class_of (fl, sl) \<le> class_of (size_class n)" using i(3) xn(3) b(2) by (simp add: class_of_def)
    ultimately show ?thesis using xn(2) unfolding search_ok_def by blast
  next
    case none
    have "class_of (size_class n) < class_of (fl, sl)" if "F x = Some n" for x n
    proof (rule ccontr)
      assume "\<not> class_of (size_class n) < class_of (fl, sl)"
      then have above: "fl < fst (size_class n) \<or> fl = fst (size_class n) \<and> sl \<le> snd (size_class n)"
        using le [OF that b(2), of fl] by (simp only: not_less)
      have bit: "bit (sl_bitmap s ! fst (size_class n)) (snd (size_class n))" by (rule listed [OF that])
      then have "sl_bitmap s ! fst (size_class n) \<noteq> 0" by auto
      then have "bit (fl_bitmap s) (fst (size_class n))" using tab bounds(1) [OF that] by (simp add: tables_ok_def)
      then show False
        using above bit bits_none_from [OF none(1) [unfolded sl_map_def]] bits_none_from [OF none(2) [unfolded fl_map_def]]
        by fastforce
    qed
    then show ?thesis
      unfolding search_suitable_block_def Let_def sl_map_def [symmetric] fl_map_def [symmetric] using none by simp
  qed
qed

end
