(* ===== verification/TlsfHeap.thy ===== *)
theory TlsfHeap imports TlsfLists begin

text \<open>
  The physical layout of the pools: a partial map from the cell of a block to its size in cells and its status.
  \<open>segments\<close> says that the blocks tile each pool from its first block to its sentinel, \<open>headers_ok\<close> that the
  headers in memory describe the map; each header operation of \<open>TlsfBlocks\<close> is an update of the map (marking,
  splitting in two, joining with the next block).
\<close>

section \<open>Pools and block maps\<close>

type_synonym block_map = "nat \<Rightarrow> (nat \<times> bool) option"

definition prev_free :: "block_map \<Rightarrow> nat \<Rightarrow> bool" where
  "prev_free B y \<longleftrightarrow> (\<exists>x n. B x = Some (n, True) \<and> x + n + 1 = y)"

text \<open>
  A pool of \<open>t\<close> cells whose first block is at the cell \<open>lo\<close>; its sentinel, the used block of size 0 at the end, is
  at \<open>lo + t + 1\<close>. The first cell of the first block is not part of the pool, which \<open>tlsf_add_pool\<close> gets from its
  second cell on; nothing reads or writes it.
\<close>

type_synonym pools = "(nat \<times> nat) set"

definition pool_cells :: "pools \<Rightarrow> nat set" where
  "pool_cells P = {k. \<exists>lo t. (lo, t) \<in> P \<and> lo + 1 \<le> k \<and> k \<le> lo + t + 2}"

definition pools_ok :: "pools \<Rightarrow> bool" where
  "pools_ok P \<longleftrightarrow>
     (\<forall>lo t. (lo, t) \<in> P \<longrightarrow> 0 < lo \<and> lo + t + 2 < cell_limit \<and> 3 \<le> t \<and> t < 2 ^ 29)
     \<and> (\<forall>lo t lo' t'. (lo, t) \<in> P \<longrightarrow> (lo', t') \<in> P \<longrightarrow> (lo, t) \<noteq> (lo', t') \<longrightarrow>
          lo + t + 2 \<le> lo' \<or> lo' + t' + 2 \<le> lo)"

definition segments :: "pools \<Rightarrow> block_map \<Rightarrow> bool" where
  "segments P B \<longleftrightarrow>
     pools_ok P \<and> (\<forall>lo t. (lo, t) \<in> P \<longrightarrow> lo \<in> dom B \<and> B (lo + t + 1) = Some (0, False))
     \<and> (\<forall>x f. B x = Some (0, f) \<longrightarrow> (\<exists>lo t. (lo, t) \<in> P \<and> x = lo + t + 1))
     \<and> (\<forall>x n f. B x = Some (n, f) \<longrightarrow> 0 < n \<longrightarrow>
          3 \<le> n \<and> x + n + 1 \<in> dom B \<and> (\<exists>lo t. (lo, t) \<in> P \<and> lo \<le> x \<and> x + n \<le> lo + t))
     \<and> (\<forall>x n f y. B x = Some (n, f) \<longrightarrow> y \<in> dom B \<longrightarrow> x < y \<longrightarrow> x + n + 1 \<le> y)"

definition headers_ok :: "(nat \<Rightarrow> u64) \<Rightarrow> block_map \<Rightarrow> bool" where
  "headers_ok c B \<longleftrightarrow>
     (\<forall>x n f. B x = Some (n, f) \<longrightarrow> c (x + 1) = size_word n f (prev_free B x) \<and> (f \<longrightarrow> c (x + n + 1) = ptr x))"

lemma pool_cellsI: "(lo, t) \<in> P \<Longrightarrow> lo + 1 \<le> k \<Longrightarrow> k \<le> lo + t + 2 \<Longrightarrow> k \<in> pool_cells P"
  unfolding pool_cells_def by blast

lemma pools_okD:
  assumes "pools_ok P" "(lo, t) \<in> P"
  shows "0 < lo" "lo + t + 2 < cell_limit" "3 \<le> t" "t < 2 ^ 29"
    and "(lo', t') \<in> P \<Longrightarrow> (lo, t) \<noteq> (lo', t') \<Longrightarrow> lo + t + 2 \<le> lo' \<or> lo' + t' + 2 \<le> lo"
  using assms unfolding pools_ok_def by blast+

lemma segmentsD:
  assumes "segments P B"
  shows "pools_ok P" "(lo, t) \<in> P \<Longrightarrow> lo \<in> dom B" "(lo, t) \<in> P \<Longrightarrow> B (lo + t + 1) = Some (0, False)"
    and "B x = Some (0, f) \<Longrightarrow> \<exists>lo t. (lo, t) \<in> P \<and> x = lo + t + 1"
    and "B x = Some (n, f) \<Longrightarrow> 0 < n \<Longrightarrow> 3 \<le> n \<and> x + n + 1 \<in> dom B"
    and "B x = Some (n, f) \<Longrightarrow> 0 < n \<Longrightarrow> \<exists>lo t. (lo, t) \<in> P \<and> lo \<le> x \<and> x + n \<le> lo + t"
    and "B x = Some (n, f) \<Longrightarrow> B y = Some v \<Longrightarrow> x < y \<Longrightarrow> x + n + 1 \<le> y"
  using assms unfolding segments_def by blast+

text \<open>Another block map of the same pools.\<close>

lemma segmentsI:
  assumes "pools_ok P" "\<And>lo t. (lo, t) \<in> P \<Longrightarrow> lo \<in> dom B \<and> B (lo + t + 1) = Some (0, False)"
    and "\<And>x f. B x = Some (0, f) \<Longrightarrow> \<exists>lo t. (lo, t) \<in> P \<and> x = lo + t + 1"
    and "\<And>x n f. B x = Some (n, f) \<Longrightarrow> 0 < n \<Longrightarrow> 3 \<le> n \<and> x + n + 1 \<in> dom B \<and> (\<exists>lo t. (lo, t) \<in> P \<and> lo \<le> x \<and> x + n \<le> lo + t)"
    and "\<And>x n f y. B x = Some (n, f) \<Longrightarrow> y \<in> dom B \<Longrightarrow> x < y \<Longrightarrow> x + n + 1 \<le> y"
  shows "segments P B"
  unfolding segments_def using assms by simp

text \<open>A block that is not a sentinel, and its successor.\<close>

lemma block_facts:
  assumes "segments P B" "B x = Some (n, f)" "0 < n"
  shows "{x + 1 .. x + n + 2} \<subseteq> pool_cells P" "3 \<le> n" "\<exists>lo t. (lo, t) \<in> P \<and> lo \<le> x \<and> x + n \<le> lo + t"
    and "x + n + 2 < cell_limit" "n < 2 ^ 29" "0 < x" "\<exists>n' f'. B (x + n + 1) = Some (n', f')"
proof -
  show "\<exists>lo t. (lo, t) \<in> P \<and> lo \<le> x \<and> x + n \<le> lo + t" by (rule segmentsD(6) [OF assms])
  then obtain lo t where p: "(lo, t) \<in> P" "lo \<le> x" "x + n \<le> lo + t" by blast
  note ok = pools_okD(1-4) [OF segmentsD(1) [OF assms(1)] p(1)]
  show "{x + 1 .. x + n + 2} \<subseteq> pool_cells P"
  proof
    fix k
    assume "k \<in> {x + 1 .. x + n + 2}"
    then show "k \<in> pool_cells P" using p(2,3) by (intro pool_cellsI [OF p(1)]) simp_all
  qed
  show "x + n + 2 < cell_limit" "n < 2 ^ 29" "0 < x" using p ok by simp_all
  show "3 \<le> n" "\<exists>n' f'. B (x + n + 1) = Some (n', f')" using segmentsD(5) [OF assms] by auto
qed

lemma free_not_sentinel: "segments P B \<Longrightarrow> B x = Some (n, True) \<Longrightarrow> 0 < n"
  using segmentsD(3) segmentsD(4) [of P B x True] by (cases "n = 0") fastforce+

lemma sentinel_bounds:
  assumes "segments P B" "B x = Some (n, f)"
  shows "x + 1 \<in> pool_cells P" "x + 1 < cell_limit"
proof -
  have "x + 1 \<in> pool_cells P \<and> x + 1 < cell_limit"
  proof (cases "n = 0")
    case True
    then obtain lo t where p: "(lo, t) \<in> P" "x = lo + t + 1" using segmentsD(4) [OF assms(1)] assms(2) by blast
    then show ?thesis using pools_okD(2) [OF segmentsD(1) [OF assms(1)] p(1)] pool_cellsI [OF p(1), of "x + 1"] by simp
  next
    case False
    then show ?thesis using block_facts(1,4) [OF assms] by auto
  qed
  then show "x + 1 \<in> pool_cells P" "x + 1 < cell_limit" by blast+
qed

lemma headers_okD:
  assumes "headers_ok c B" "B x = Some (n, f)"
  shows "c (x + 1) = size_word n f (prev_free B x)" "f \<Longrightarrow> c (x + n + 1) = ptr x"
  using assms unfolding headers_ok_def by blast+

lemma headers_header:
  "headers_ok c B \<Longrightarrow> segments P B \<Longrightarrow> B x = Some (n, f) \<Longrightarrow> header c x n f (prev_free B x)"
  using headers_okD(1) sentinel_bounds(2) by (simp add: header_def)

text \<open>The blocks between the ends of a pool.\<close>

lemma block_in_pool:
  assumes "segments P B" "(lo, t) \<in> P" "B x = Some (n, f)" "lo \<le> x" "x < lo + t + 1"
  shows "0 < n" "x + n + 1 \<le> lo + t + 1"
proof -
  note ok = segmentsD(1) [OF assms(1)]
  have "n \<noteq> 0"
  proof
    assume "n = 0"
    then obtain l u where l: "(l, u) \<in> P" "x = l + u + 1" using segmentsD(4) [OF assms(1)] assms(3) by blast
    then show False using pools_okD(5) [OF ok assms(2) l(1)] assms(4,5) by auto
  qed
  then show "0 < n" by simp
  show "x + n + 1 \<le> lo + t + 1" using segmentsD(7) [OF assms(1,3) segmentsD(3) [OF assms(1,2)]] assms(5) by simp
qed

text \<open>Two blocks never share a cell; the last cell of a block is the first field of the next.\<close>

lemma blocks_disjoint:
  assumes "segments P B" "B x = Some (n, f)" "B y = Some (m, g)" "x \<noteq> y"
  shows "x + n + 1 \<le> y \<or> y + m + 1 \<le> x"
  using segmentsD(7) [OF assms(1,2), of y] segmentsD(7) [OF assms(1,3), of x] assms by fastforce

lemma prev_free_unique:
  assumes "segments P B" "B x = Some (n, f)" "B z = Some (k, True)" "z + k + 1 = x + n + 1" "0 < n"
  shows "z = x"
proof (rule ccontr)
  assume "z \<noteq> x"
  then show False
    using blocks_disjoint [OF assms(1-3)] assms(4,5) free_not_sentinel [OF assms(1,3)] by auto
qed

lemma prev_free_next:
  assumes "segments P B" "B x = Some (n, f)" "0 < n"
  shows "prev_free B (x + n + 1) \<longleftrightarrow> f"
proof
  assume "prev_free B (x + n + 1)"
  then obtain z k where "B z = Some (k, True)" "z + k + 1 = x + n + 1" by (auto simp: prev_free_def)
  then have "z = x" by (rule prev_free_unique [OF assms(1,2) _ _ assms(3)])
  then show f using assms(2) \<open>B z = Some (k, True)\<close> by simp
qed (use assms(2) in \<open>auto simp: prev_free_def\<close>)

section \<open>Changing the status of a block\<close>

lemma prev_free_status:
  assumes "segments P B" "B x = Some (n, f)" "0 < n"
  shows "prev_free (B(x \<mapsto> (n, g))) z \<longleftrightarrow> (if z = x + n + 1 then g else prev_free B z)"
proof -
  have "(B(x \<mapsto> (n, g))) w = Some (k, True) \<and> w + k + 1 = z \<longleftrightarrow> B w = Some (k, True) \<and> w + k + 1 = z"
    if "z \<noteq> x + n + 1" for w k
    using that assms(2) by (cases "w = x") auto
  then have "z \<noteq> x + n + 1 \<Longrightarrow> prev_free (B(x \<mapsto> (n, g))) z \<longleftrightarrow> prev_free B z"
    unfolding prev_free_def by simp
  moreover have "prev_free (B(x \<mapsto> (n, g))) (x + n + 1) \<longleftrightarrow> g"
  proof
    assume "prev_free (B(x \<mapsto> (n, g))) (x + n + 1)"
    then obtain w k where w: "(B(x \<mapsto> (n, g))) w = Some (k, True)" "w + k + 1 = x + n + 1" by (auto simp: prev_free_def)
    show g
    proof (cases "w = x")
      case False
      then have "B w = Some (k, True)" using w(1) by simp
      then have "w = x" using w(2) by (rule prev_free_unique [OF assms(1,2) _ _ assms(3)])
      with False show ?thesis ..
    qed (use w(1) in simp)
  qed (auto simp: prev_free_def)
  ultimately show ?thesis by simp
qed

lemma segments_status:
  assumes "segments P B" "B x = Some (n, f)" "0 < n"
  shows "segments P (B(x \<mapsto> (n, g)))"
proof (rule segmentsI [OF segmentsD(1) [OF assms(1)]])
  have dom: "dom (B(x \<mapsto> (n, g))) = dom B" using assms(2) by auto
  have old: "\<exists>e'. B z = Some (m, e')" if "(B(x \<mapsto> (n, g))) z = Some (m, e)" for z m e
    using that assms(2) by (cases "z = x") auto
  show "lo \<in> dom (B(x \<mapsto> (n, g))) \<and> (B(x \<mapsto> (n, g))) (lo + t + 1) = Some (0, False)" if "(lo, t) \<in> P" for lo t
    unfolding dom using segmentsD(2,3) [OF assms(1) that] assms(2,3) by auto
  show "\<exists>lo t. (lo, t) \<in> P \<and> z = lo + t + 1" if "(B(x \<mapsto> (n, g))) z = Some (0, e)" for z e
    using old [OF that] segmentsD(4) [OF assms(1)] by blast
  show "3 \<le> m \<and> z + m + 1 \<in> dom (B(x \<mapsto> (n, g))) \<and> (\<exists>lo t. (lo, t) \<in> P \<and> lo \<le> z \<and> z + m \<le> lo + t)"
    if z: "(B(x \<mapsto> (n, g))) z = Some (m, e)" and "0 < m" for z m e
    using old [OF z] segmentsD(5,6) [OF assms(1)] \<open>0 < m\<close> unfolding dom by blast
  show "z + m + 1 \<le> w" if "(B(x \<mapsto> (n, g))) z = Some (m, e)" "w \<in> dom (B(x \<mapsto> (n, g)))" "z < w" for z m e w
    using old [OF that(1)] that(2,3) segmentsD(7) [OF assms(1)] unfolding dom by blast
qed

text \<open>Where another block and its last cell can be.\<close>

lemma other_block_cells:
  assumes "segments P B" "B x = Some (n, f)" "0 < n" "B z = Some (m, g)" "z \<noteq> x"
  shows "z + 1 \<noteq> x + 1" "z + 1 \<noteq> x + n + 1" "z \<noteq> x + n + 1 \<Longrightarrow> z + 1 \<noteq> x + n + 2"
    and "g \<Longrightarrow> z + m + 1 \<noteq> x + 1" "g \<Longrightarrow> z + m + 1 \<noteq> x + n + 1" "g \<Longrightarrow> z + m + 1 \<noteq> x + n + 2"
proof -
  have d: "x + n + 1 \<le> z \<or> z + m + 1 \<le> x" using blocks_disjoint assms by blast
  note x = block_facts(2) [OF assms(1-3)]
  show "z + 1 \<noteq> x + 1" "z + 1 \<noteq> x + n + 1" "z \<noteq> x + n + 1 \<Longrightarrow> z + 1 \<noteq> x + n + 2"
    using d assms(5) x by auto
  assume g: g
  then have z: "3 \<le> m" using free_not_sentinel [OF assms(1)] block_facts(2) [OF assms(1,4)] assms(4) by auto
  show "z + m + 1 \<noteq> x + 1" "z + m + 1 \<noteq> x + n + 2" using d z x by auto
  show "z + m + 1 \<noteq> x + n + 1"
    using prev_free_unique [OF assms(1,2) _ _ assms(3)] assms(4,5) g by auto
qed

lemma headers_status:
  assumes seg: "segments P B" and x: "B x = Some (n, f)" "0 < n" and h: "headers_ok c B"
    and y: "B (x + n + 1) = Some (n', f')"
    and new: "c' (x + 1) = size_word n g (prev_free B x)" "c' (x + n + 2) = size_word n' f' g" "g \<longrightarrow> c' (x + n + 1) = ptr x"
    and same: "\<And>k. k \<noteq> x + 1 \<Longrightarrow> k \<noteq> x + n + 1 \<Longrightarrow> k \<noteq> x + n + 2 \<Longrightarrow> c' k = c k"
  shows "headers_ok c' (B(x \<mapsto> (n, g)))"
  unfolding headers_ok_def prev_free_status [OF seg x]
proof (intro allI impI)
  fix z m e
  assume z: "(B(x \<mapsto> (n, g))) z = Some (m, e)"
  show "c' (z + 1) = size_word m e (if z = x + n + 1 then g else prev_free B z) \<and> (e \<longrightarrow> c' (z + m + 1) = ptr z)"
  proof (cases "z = x")
    case True
    then show ?thesis using z new by auto
  next
    case False
    then have Bz: "B z = Some (m, e)" using z by simp
    note other = other_block_cells [OF seg x Bz False]
    have "e \<longrightarrow> c' (z + m + 1) = ptr z"
      using headers_okD(2) [OF h Bz] same [of "z + m + 1"] other(4-6) by simp
    moreover have "c' (z + 1) = size_word m e (if z = x + n + 1 then g else prev_free B z)"
    proof (cases "z = x + n + 1")
      case True
      then show ?thesis using Bz y new(2) by simp
    next
      case False
      then show ?thesis using headers_okD(1) [OF h Bz] same [of "z + 1"] other(1-3) by simp
    qed
    ultimately show ?thesis by blast
  qed
qed

lemma mark_as_free_ok:
  assumes "segments P B" "B x = Some (n, f)" "0 < n" "headers_ok (cells m) B"
  shows "headers_ok (cells (block_mark_as_free m (ptr x))) (B(x \<mapsto> (n, True)))"
    and "same_outside {x + 1, x + n + 1, x + n + 2} (cells m) (cells (block_mark_as_free m (ptr x)))"
proof -
  obtain n' f' where y: "B (x + n + 1) = Some (n', f')" using block_facts(7) [OF assms(1-3)] by blast
  have n: "3 \<le> n" by (rule block_facts(2) [OF assms(1-3)])
  have c: "cells (block_mark_as_free m (ptr x)) = (cells m)(x + n + 1 := ptr x,
      x + n + 2 := size_word n' f' True, x + 1 := size_word n True (prev_free B x))"
    using n by (intro block_mark_as_free_cell [OF headers_header [OF assms(4,1,2)] _ headers_header [OF assms(4,1) y]]) simp
  show "headers_ok (cells (block_mark_as_free m (ptr x))) (B(x \<mapsto> (n, True)))"
    using n by (intro headers_status [OF assms(1-4) y]) (simp_all add: c)
  show "same_outside {x + 1, x + n + 1, x + n + 2} (cells m) (cells (block_mark_as_free m (ptr x)))"
    by (simp add: c same_outside_def)
qed

lemma mark_as_used_ok:
  assumes "segments P B" "B x = Some (n, f)" "0 < n" "headers_ok (cells m) B"
  shows "headers_ok (cells (block_mark_as_used m (ptr x))) (B(x \<mapsto> (n, False)))"
    and "same_outside {x + 1, x + n + 2} (cells m) (cells (block_mark_as_used m (ptr x)))"
proof -
  obtain n' f' where y: "B (x + n + 1) = Some (n', f')" using block_facts(7) [OF assms(1-3)] by blast
  have n: "3 \<le> n" by (rule block_facts(2) [OF assms(1-3)])
  have c: "cells (block_mark_as_used m (ptr x)) = (cells m)(
      x + n + 2 := size_word n' f' False, x + 1 := size_word n False (prev_free B x))"
    using n by (intro block_mark_as_used_cell [OF headers_header [OF assms(4,1,2)] _ headers_header [OF assms(4,1) y]]) simp
  show "headers_ok (cells (block_mark_as_used m (ptr x))) (B(x \<mapsto> (n, False)))"
    using n by (intro headers_status [OF assms(1-4) y]) (simp_all add: c)
  show "same_outside {x + 1, x + n + 2} (cells m) (cells (block_mark_as_used m (ptr x)))"
    by (simp add: c same_outside_def)
qed

section \<open>Splitting a block\<close>

definition split_map :: "block_map \<Rightarrow> nat \<Rightarrow> nat \<Rightarrow> nat \<Rightarrow> bool \<Rightarrow> block_map" where
  "split_map B x n k f = B(x \<mapsto> (k, f), x + k + 1 \<mapsto> (n - k - 1, True))"

lemma split_map_cases:
  assumes "split_map B x n k g z = Some (m, e)"
  obtains "z = x" "m = k" "e = g" | "z = x + k + 1" "m = n - k - 1" "e" | "B z = Some (m, e)" "z \<noteq> x" "z \<noteq> x + k + 1"
proof -
  have "z = x \<and> m = k \<and> e = g \<or> z = x + k + 1 \<and> m = n - k - 1 \<and> e \<or> B z = Some (m, e) \<and> z \<noteq> x \<and> z \<noteq> x + k + 1"
  proof (cases "z = x + k + 1")
    case True
    then show ?thesis using assms by (simp add: split_map_def)
  next
    case False
    then show ?thesis using assms by (cases "z = x") (simp_all add: split_map_def)
  qed
  then show thesis using that by blast
qed

lemma split_map_fresh:
  assumes "segments P B" "B x = Some (n, f)" "0 < n" "k + 4 \<le> n"
  shows "B (x + k + 1) = None"
proof (rule ccontr)
  assume "B (x + k + 1) \<noteq> None"
  then show False using segmentsD(7) [OF assms(1,2), of "x + k + 1"] assms(4) by fastforce
qed

lemma segments_split:
  assumes "segments P B" "B x = Some (n, f)" "0 < n" "3 \<le> k" "k + 4 \<le> n"
  shows "segments P (split_map B x n k g)"
proof -
  let ?y = "x + k + 1"
  note seg = segmentsD [OF assms(1)] and bf = block_facts [OF assms(1-3)]
  obtain lo t where p: "(lo, t) \<in> P" "lo \<le> x" "x + n \<le> lo + t" using seg(6) [OF assms(2,3)] by blast
  have fresh: "B ?y = None" by (rule split_map_fresh [OF assms(1-3,5)])
  have len: "?y + (n - k - 1) + 1 = x + n + 1" using assms(5) by simp
  have dom: "dom (split_map B x n k g) = insert ?y (dom B)" using assms(2) by (auto simp: split_map_def)
  show ?thesis
  proof (rule segmentsI [OF seg(1)])
    show "lo \<in> dom (split_map B x n k g) \<and> split_map B x n k g (lo + t + 1) = Some (0, False)" if "(lo, t) \<in> P" for lo t
    proof -
      have "lo + t + 1 \<noteq> x" "lo + t + 1 \<noteq> ?y" using seg(3) [OF that] assms(2,3) fresh by auto
      then show ?thesis unfolding dom using seg(2,3) [OF that] by (simp add: split_map_def)
    qed
    show "\<exists>lo t. (lo, t) \<in> P \<and> z = lo + t + 1" if "split_map B x n k g z = Some (0, e)" for z e
      using that by (cases rule: split_map_cases) (use assms(4,5) seg(4) in auto)
    show "3 \<le> m \<and> z + m + 1 \<in> dom (split_map B x n k g) \<and> (\<exists>lo t. (lo, t) \<in> P \<and> lo \<le> z \<and> z + m \<le> lo + t)"
      if z: "split_map B x n k g z = Some (m, e)" and pos: "0 < m" for z m e
      using z
    proof (cases rule: split_map_cases)
      case 1
      then have "lo \<le> z" "z + m \<le> lo + t" using p assms(5) by simp_all
      then show ?thesis using 1 p(1) assms(4) by (auto simp: dom)
    next
      case 2
      then have "z + m \<le> lo + t" "lo \<le> z" "3 \<le> m" using p len assms(5) by simp_all
      then show ?thesis unfolding dom 2 len using bf(7) p(1) by auto
    next
      case 3
      then show ?thesis unfolding dom using seg(5,6) pos by blast
    qed
    show "z + m + 1 \<le> w"
      if z: "split_map B x n k g z = Some (m, e)" and w: "w \<in> dom (split_map B x n k g)" and less: "z < w" for z m e w
    proof -
      have old: "v + j + 1 \<le> w" if "B v = Some (j, d)" "w \<in> dom B" "v < w" for v j d w
        using that seg(7) by blast
      have w: "w = ?y \<or> w \<in> dom B" using w dom by simp
      show ?thesis
        using z
      proof (cases rule: split_map_cases)
        case 1
        then show ?thesis using w old [OF assms(2)] less assms(5) by fastforce
      next
        case 2
        then show ?thesis using w old [OF assms(2), of w] less len by auto
      next
        case z: 3
        show ?thesis
        proof (cases "w = ?y")
          case True
          then have "z < x" using blocks_disjoint [OF assms(1,2) z(1)] z(2) less assms(5) by auto
          then show ?thesis using old [OF z(1) domI [of B x, OF assms(2)]] True by simp
        next
          case False
          then show ?thesis using w old [OF z(1)] less by blast
        qed
      qed
    qed
  qed
qed

lemma prev_free_split:
  assumes "segments P B" "B x = Some (n, f)" "0 < n" "3 \<le> k" "k + 4 \<le> n"
  shows "prev_free (split_map B x n k g) z \<longleftrightarrow>
    (if z = x + k + 1 then g else if z = x + n + 1 then True else prev_free B z)"
proof -
  let ?S = "split_map B x n k g" and ?y = "x + k + 1"
  have seg: "segments P ?S" by (rule segments_split [OF assms])
  have sx: "?S x = Some (k, g)" and sy: "?S ?y = Some (n - k - 1, True)" by (simp_all add: split_map_def)
  have len: "?y + (n - k - 1) + 1 = x + n + 1" using assms(5) by simp
  have "0 < n - k - 1" by (rule free_not_sentinel [OF seg sy])
  then have at: "prev_free ?S ?y \<longleftrightarrow> g" "prev_free ?S (x + n + 1)"
    using prev_free_next [OF seg sx] prev_free_next [OF seg sy] len assms(4) by simp_all
  have "?S w = Some (j, True) \<and> w + j + 1 = z \<longleftrightarrow> B w = Some (j, True) \<and> w + j + 1 = z"
    if "z \<noteq> ?y" "z \<noteq> x + n + 1" for w j
    using that assms(2) len split_map_fresh [OF assms(1-3,5)] by (auto simp: split_map_def)
  then have "z \<noteq> ?y \<Longrightarrow> z \<noteq> x + n + 1 \<Longrightarrow> prev_free ?S z \<longleftrightarrow> prev_free B z"
    unfolding prev_free_def by simp
  with at show ?thesis by simp
qed

lemma headers_split:
  assumes seg: "segments P B" and x: "B x = Some (n, f)" "0 < n" and h: "headers_ok c B"
    and k: "3 \<le> k" "k + 4 \<le> n" and nxt: "B (x + n + 1) = Some (n', f')"
    and new: "c' (x + 1) = size_word k g (prev_free B x)" "c' (x + k + 2) = size_word (n - k - 1) True g"
      "c' (x + n + 1) = ptr (x + k + 1)" "c' (x + n + 2) = size_word n' f' True" "g \<longrightarrow> c' (x + k + 1) = ptr x"
    and same: "\<And>j. j < x + 1 \<or> x + n + 2 < j \<Longrightarrow> c' j = c j"
  shows "headers_ok c' (split_map B x n k g)"
  unfolding headers_ok_def prev_free_split [OF seg x k]
proof (intro allI impI)
  fix z m e
  let ?S = "split_map B x n k g" and ?y = "x + k + 1"
  assume z: "?S z = Some (m, e)"
  have len: "?y + (n - k - 1) + 1 = x + n + 1" using k(2) by simp
  let ?prev = "if z = ?y then g else if z = x + n + 1 then True else prev_free B z"
  from z show "c' (z + 1) = size_word m e ?prev \<and> (e \<longrightarrow> c' (z + m + 1) = ptr z)"
  proof (cases rule: split_map_cases)
    case 1
    then show ?thesis using new(1,5) k by simp
  next
    case 2
    then show ?thesis using new(2,3) len k by (simp add: add.assoc)
  next
    case 3
    have d: "x + n + 1 \<le> z \<or> z + m + 1 \<le> x" using blocks_disjoint [OF seg x(1) 3(1)] 3(2) by simp
    have e: "e \<longrightarrow> c' (z + m + 1) = ptr z"
    proof
      assume e
      then have "3 \<le> m" using free_not_sentinel [OF seg] block_facts(2) [OF seg 3(1)] 3(1) by auto
      then have "z + m + 1 < x + 1 \<or> x + n + 2 < z + m + 1" using d by auto
      then show "c' (z + m + 1) = ptr z" using same headers_okD(2) [OF h 3(1)] \<open>e\<close> by simp
    qed
    show ?thesis
    proof (cases "z = x + n + 1")
      case True
      then show ?thesis using e new(4) nxt 3 k by simp
    next
      case False
      then have "z + 1 < x + 1 \<or> x + n + 2 < z + 1" using d by auto
      then have "c' (z + 1) = c (z + 1)" by (rule same)
      then show ?thesis using e 3 False headers_okD(1) [OF h 3(1)] by simp
    qed
  qed
qed

section \<open>Joining a free block with the next\<close>

definition join_map :: "block_map \<Rightarrow> nat \<Rightarrow> nat \<Rightarrow> nat \<Rightarrow> block_map" where
  "join_map B x n n' = B(x \<mapsto> (n + n' + 1, True), x + n + 1 := None)"

lemma segments_join:
  assumes "segments P B" "B x = Some (n, True)" "B (x + n + 1) = Some (n', True)"
  shows "segments P (join_map B x n n')"
proof -
  let ?y = "x + n + 1"
  note seg = segmentsD [OF assms(1)]
  have pos: "0 < n" "0 < n'" using free_not_sentinel [OF assms(1)] assms(2,3) by blast+
  note bx = block_facts [OF assms(1,2) pos(1)] and by' = block_facts [OF assms(1,3) pos(2)]
  obtain lo t where px: "(lo, t) \<in> P" "lo \<le> x" "x + n \<le> lo + t" using seg(6) [OF assms(2) pos(1)] by blast
  have y_end: "?y \<noteq> lo + t + 1" using seg(3) [OF px(1)] assms(3) pos(2) by auto
  obtain lo' t' where py: "(lo', t') \<in> P" "lo' \<le> ?y" "?y + n' \<le> lo' + t'" using seg(6) [OF assms(3) pos(2)] by blast
  have apart: "lo2 + t2 + 2 \<le> lo \<or> lo + t + 2 \<le> lo2" if "(lo2, t2) \<in> P" "(lo2, t2) \<noteq> (lo, t)" for lo2 t2
    using pools_okD(5) [OF seg(1) that(1) px(1)] that(2) by blast
  have same: "lo' = lo" "t' = t" using apart [OF py(1)] px py by auto
  have dom: "dom (join_map B x n n') = dom B - {?y}" using assms(2) by (auto simp: join_map_def)
  have cases: "z = x \<and> m = n + n' + 1 \<or> B z = Some (m, e) \<and> z \<noteq> x \<and> z \<noteq> ?y"
    if "join_map B x n n' z = Some (m, e)" for z m e
    using that by (auto simp: join_map_def split: if_splits)
  have old: "v + j + 1 \<le> w" if "B v = Some (j, d)" "w \<in> dom B" "v < w" for v j d w
    using that seg(7) by blast
  show ?thesis
  proof (rule segmentsI [OF seg(1)])
    show "lo2 \<in> dom (join_map B x n n') \<and> join_map B x n n' (lo2 + t2 + 1) = Some (0, False)" if "(lo2, t2) \<in> P" for lo2 t2
    proof -
      have "lo2 + t2 + 1 \<noteq> x" "lo2 + t2 + 1 \<noteq> ?y" using seg(3) [OF that] assms(2,3) pos by auto
      moreover have "lo2 \<noteq> ?y"
      proof
        assume "lo2 = ?y"
        then show False using apart [OF that] px y_end by auto
      qed
      ultimately show ?thesis unfolding dom using seg(2,3) [OF that] by (simp add: join_map_def)
    qed
    show "\<exists>lo t. (lo, t) \<in> P \<and> z = lo + t + 1" if "join_map B x n n' z = Some (0, e)" for z e
      using cases [OF that] seg(4) by auto
    show "3 \<le> m \<and> z + m + 1 \<in> dom (join_map B x n n') \<and> (\<exists>lo t. (lo, t) \<in> P \<and> lo \<le> z \<and> z + m \<le> lo + t)"
      if z: "join_map B x n n' z = Some (m, e)" and ne: "0 < m" for z m e
      using cases [OF z]
    proof (elim disjE conjE)
      assume zm: "z = x" "m = n + n' + 1"
      have len: "x + (n + n' + 1) + 1 = ?y + n' + 1" by simp
      have "?y + n' + 1 \<in> dom B - {?y}" using by'(7) by auto
      moreover have "x + (n + n' + 1) \<le> lo + t" using py(3) same by simp
      ultimately show ?thesis unfolding dom zm len using bx(2) px(1,2) by auto
    next
      assume z: "B z = Some (m, e)" "z \<noteq> x" "z \<noteq> ?y"
      have "z + m + 1 \<noteq> ?y" using prev_free_next [OF assms(1) z(1) ne] prev_free_next [OF assms(1,2) pos(1)]
          prev_free_unique [OF assms(1) z(1) assms(2) _ ne] z(2) by auto
      then show ?thesis unfolding dom using seg(5,6) [OF z(1) ne] by blast
    qed
    show "z + m + 1 \<le> w"
      if z: "join_map B x n n' z = Some (m, e)" and w: "w \<in> dom (join_map B x n n')" and less: "z < w" for z m e w
      using cases [OF z]
    proof (elim disjE conjE)
      assume "z = x" "m = n + n' + 1"
      moreover have "w \<in> dom B" "w \<noteq> ?y" using w dom by auto
      moreover have "?y \<le> w" using old [OF assms(2)] \<open>w \<in> dom B\<close> less \<open>z = x\<close> by simp
      ultimately show ?thesis using old [OF assms(3), of w] by simp
    next
      assume "B z = Some (m, e)"
      then show ?thesis using old less w dom by simp
    qed
  qed
qed

lemma prev_free_join:
  assumes "segments P B" "B x = Some (n, True)" "B (x + n + 1) = Some (n', True)" "z \<noteq> x + n + 1"
  shows "prev_free (join_map B x n n') z \<longleftrightarrow> prev_free B z"
proof -
  let ?y = "x + n + 1" and ?J = "join_map B x n n'"
  have seg: "segments P ?J" by (rule segments_join [OF assms(1-3)])
  have pos: "0 < n" "0 < n'" using free_not_sentinel [OF assms(1)] assms(2,3) by blast+
  have jx: "?J x = Some (n + n' + 1, True)" by (simp add: join_map_def)
  have len: "?y + n' + 1 = x + (n + n' + 1) + 1" by simp
  have at: "prev_free ?J (?y + n' + 1)" "prev_free B (?y + n' + 1)"
    using prev_free_next [OF seg jx] prev_free_next [OF assms(1,3) pos(2)] unfolding len by simp_all
  have "?J w = Some (j, True) \<and> w + j + 1 = z \<longleftrightarrow> B w = Some (j, True) \<and> w + j + 1 = z"
    if "z \<noteq> ?y + n' + 1" for w j
    using that assms(2-4) by (auto simp: join_map_def)
  then have "z \<noteq> ?y + n' + 1 \<Longrightarrow> prev_free ?J z \<longleftrightarrow> prev_free B z"
    unfolding prev_free_def by simp
  with at show ?thesis by (cases "z = ?y + n' + 1") simp_all
qed

lemma headers_join:
  assumes seg: "segments P B" and x: "B x = Some (n, True)" and y: "B (x + n + 1) = Some (n', True)"
    and h: "headers_ok c B"
    and new: "c' (x + 1) = size_word (n + n' + 1) True (prev_free B x)" "c' (x + (n + n' + 1) + 1) = ptr x"
    and same: "\<And>k. k \<noteq> x + 1 \<Longrightarrow> k \<noteq> x + (n + n' + 1) + 1 \<Longrightarrow> c' k = c k"
  shows "headers_ok c' (join_map B x n n')"
  unfolding headers_ok_def
proof (intro allI impI)
  fix z m e
  let ?J = "join_map B x n n'"
  assume z: "?J z = Some (m, e)"
  have sj: "segments P ?J" by (rule segments_join [OF seg x y])
  have jx: "?J x = Some (n + n' + 1, True)" by (simp add: join_map_def)
  have "z \<noteq> x + n + 1" using z by (auto simp: join_map_def)
  note prev = prev_free_join [OF seg x y this]
  show "c' (z + 1) = size_word m e (prev_free ?J z) \<and> (e \<longrightarrow> c' (z + m + 1) = ptr z)"
  proof (cases "z = x")
    case True
    then show ?thesis using z new prev jx by simp
  next
    case False
    then have Bz: "B z = Some (m, e)" using z by (auto simp: join_map_def split: if_splits)
    have "0 < n + n' + 1" by simp
    note other = other_block_cells [OF sj jx this z False]
    show ?thesis
      using headers_okD [OF h Bz] same [of "z + 1"] same [of "z + m + 1"] other prev by auto
  qed
qed

lemma absorb_ok:
  assumes "segments P B" "B x = Some (n, True)" "B (x + n + 1) = Some (n', True)" "headers_ok (cells m) B"
  shows "headers_ok (cells (block_absorb m (ptr x) (ptr (x + n + 1)))) (join_map B x n n')"
    and "same_outside {x + 1, x + n + n' + 2} (cells m) (cells (block_absorb m (ptr x) (ptr (x + n + 1))))"
proof -
  have pos: "0 < n" "0 < n'" using free_not_sentinel [OF assms(1)] assms(2,3) by blast+
  note bx = block_facts [OF assms(1,2) pos(1)] and by' = block_facts [OF assms(1,3) pos(2)]
  have c: "cells (block_absorb m (ptr x) (ptr (x + n + 1))) = (cells m)
      (x + 1 := size_word (n + n' + 1) True (prev_free B x), x + (n + n' + 1) + 1 := ptr x)"
    using bx(2) by'(3,4)
    by (intro block_absorb_cell [OF headers_header [OF assms(4,1,2)] headers_header [OF assms(4,1,3)]]) simp_all
  show "headers_ok (cells (block_absorb m (ptr x) (ptr (x + n + 1)))) (join_map B x n n')"
    by (rule headers_join [OF assms]) (simp_all add: c)
  show "same_outside {x + 1, x + n + n' + 2} (cells m) (cells (block_absorb m (ptr x) (ptr (x + n + 1))))"
    by (simp add: c same_outside_def)
qed

end
