(* ===== verification/TlsfMalloc.thy ===== *)
theory TlsfMalloc imports TlsfHeap begin

text \<open>
  The operations of \<open>tlsf.c\<close> that allocate and release: merging with free neighbours, trimming, the search for
  a block, \<open>tlsf_malloc\<close> and \<open>tlsf_free\<close>. The invariant \<open>tlsf_inv\<close> says that the
  blocks tile the pools, that no two free blocks are neighbours and that the free lists hold exactly the free
  blocks; the abstract state of the allocator is the map \<open>used_map\<close> of its allocations.
\<close>

unbundle bit_operations_syntax

section \<open>Operations\<close>

definition block_merge_prev :: "control_t \<Rightarrow> u64 \<Rightarrow> control_t \<times> u64" where
  "block_merge_prev control block =
     (if block_is_prev_free (mem control) block then
        let prev = block_prev (mem control) block;
            control = block_remove control prev
        in (control\<lparr>mem := block_absorb (mem control) prev block\<rparr>, prev)
      else (control, block))"

definition block_merge_next :: "control_t \<Rightarrow> u64 \<Rightarrow> control_t \<times> u64" where
  "block_merge_next control block =
     (let nxt = block_next (mem control) block
      in if block_is_free (mem control) nxt then
           let control = block_remove control nxt
           in (control\<lparr>mem := block_absorb (mem control) block nxt\<rparr>, block)
         else (control, block))"

definition block_trim_free :: "control_t \<Rightarrow> u64 \<Rightarrow> u64 \<Rightarrow> control_t" where
  "block_trim_free control block sz =
     (if block_can_split (mem control) block sz then
        let (m, remaining_block) = block_split (mem control) block sz;
            m = fst (block_link_next m block);
            m = block_set_prev_free m remaining_block
        in block_insert (control\<lparr>mem := m\<rparr>) remaining_block
      else control)"

definition block_trim_used :: "control_t \<Rightarrow> u64 \<Rightarrow> u64 \<Rightarrow> control_t" where
  "block_trim_used control block sz =
     (if block_can_split (mem control) block sz then
        let (m, remaining_block) = block_split (mem control) block sz;
            m = block_set_prev_used m remaining_block;
            (control, remaining_block) = block_merge_next (control\<lparr>mem := m\<rparr>) remaining_block
        in block_insert control remaining_block
      else control)"

definition block_trim_free_leading :: "control_t \<Rightarrow> u64 \<Rightarrow> u64 \<Rightarrow> control_t \<times> u64" where
  "block_trim_free_leading control block sz =
     (if block_can_split (mem control) block sz then
        let (m, remaining_block) = block_split (mem control) block (sz - block_header_overhead);
            m = block_set_prev_free m remaining_block;
            m = fst (block_link_next m block)
        in (block_insert (control\<lparr>mem := m\<rparr>) block, remaining_block)
      else (control, block))"

definition block_locate_free :: "control_t \<Rightarrow> u64 \<Rightarrow> control_t \<times> u64" where
  "block_locate_free control sz =
     (let (block, fl, sl) =
        (if sz \<noteq> 0 then
           let (fl, sl) = mapping_search sz
           in if fl < FL_INDEX_COUNT then search_suitable_block control fl sl else (0, fl, sl)
         else (0, 0, 0))
      in if block \<noteq> 0 then (remove_free_block control block fl sl, block) else (control, block))"

definition block_prepare_used :: "control_t \<Rightarrow> u64 \<Rightarrow> u64 \<Rightarrow> control_t \<times> u64" where
  "block_prepare_used control block sz =
     (if block \<noteq> 0 then
        let control = block_trim_free control block sz;
            control = control\<lparr>mem := block_mark_as_used (mem control) block\<rparr>
        in (control, block_to_ptr block)
      else (control, 0))"

definition tlsf_malloc :: "control_t \<Rightarrow> u64 \<Rightarrow> control_t \<times> u64" where
  "tlsf_malloc control sz =
     (let adjust = adjust_request_size sz ALIGN_SIZE;
          (control, block) = block_locate_free control adjust
      in block_prepare_used control block adjust)"

definition tlsf_free :: "control_t \<Rightarrow> u64 \<Rightarrow> control_t" where
  "tlsf_free control p =
     (if p \<noteq> 0 then
        let block = block_from_ptr p;
            control = control\<lparr>mem := block_mark_as_free (mem control) block\<rparr>;
            (control, block) = block_merge_prev control block;
            (control, block) = block_merge_next control block
        in block_insert control block
      else control)"

section \<open>The invariant\<close>

definition free_map :: "block_map \<Rightarrow> nat \<Rightarrow> nat option" where
  "free_map B x = (case B x of Some (n, True) \<Rightarrow> Some n | _ \<Rightarrow> None)"

definition used_map :: "block_map \<Rightarrow> nat \<Rightarrow> nat option" where
  "used_map B x = (case B x of Some (n, False) \<Rightarrow> Some n | _ \<Rightarrow> None)"

lemma free_map_Some [simp]: "free_map B x = Some n \<longleftrightarrow> B x = Some (n, True)"
  by (auto simp: free_map_def split: option.splits bool.splits)

lemma used_map_Some [simp]: "used_map B x = Some n \<longleftrightarrow> B x = Some (n, False)"
  by (auto simp: used_map_def split: option.splits bool.splits)

text \<open>The control structure takes 817 cells from \<open>N\<close> on, apart from the cells of the pools.\<close>

definition control_apart :: "nat \<Rightarrow> pools \<Rightarrow> bool" where
  "control_apart N P \<longleftrightarrow> N + 3 < cell_limit \<and> {N ..< N + 817} \<inter> pool_cells P = {}"

definition heap_ok :: "nat \<Rightarrow> pools \<Rightarrow> control_t \<Rightarrow> block_map \<Rightarrow> (nat \<Rightarrow> nat option) \<Rightarrow> bool" where
  "heap_ok N P s B F \<longleftrightarrow> control_apart N P \<and> segments P B \<and> headers_ok (cells (mem s)) B
     \<and> lists_ok N s F \<and> F \<subseteq>\<^sub>m free_map B"

definition coalesced_but :: "nat set \<Rightarrow> block_map \<Rightarrow> bool" where
  "coalesced_but A B \<longleftrightarrow> (\<forall>x n. B x = Some (n, True) \<longrightarrow> x \<notin> A \<longrightarrow> \<not> prev_free B x)"

definition tlsf_inv :: "nat \<Rightarrow> pools \<Rightarrow> control_t \<Rightarrow> block_map \<Rightarrow> bool" where
  "tlsf_inv N P s B \<longleftrightarrow> heap_ok N P s B (free_map B) \<and> coalesced_but {} B"

text \<open>
  The cells the allocator may write while the allocations \<open>U\<close> stand: the pools without their user space, and the
  two links of the null block.
\<close>

definition own_cells :: "nat \<Rightarrow> pools \<Rightarrow> (nat \<Rightarrow> nat option) \<Rightarrow> nat set" where
  "own_cells N P U = {k. k = N + 2 \<or> k = N + 3 \<or>
     k \<in> pool_cells P \<and> \<not> (\<exists>x n. U x = Some n \<and> x + 2 \<le> k \<and> k \<le> x + n + 1)}"

text \<open>A block lies entirely before or behind the control structure.\<close>

lemma apart_block:
  assumes "control_apart N P" "{x .. y} \<subseteq> pool_cells P" "x \<le> y"
  shows "y < N \<or> N + 817 \<le> x"
proof (rule ccontr)
  assume "\<not> (y < N \<or> N + 817 \<le> x)"
  then have "max N x \<in> {N ..< N + 817} \<inter> {x .. y}" using assms(3) by auto
  then show False using assms(1,2) unfolding control_apart_def by blast
qed

lemma control_not_pool: "control_apart N P \<Longrightarrow> k \<in> pool_cells P \<Longrightarrow> k \<noteq> N + 2 \<and> k \<noteq> N + 3"
  using disjoint_iff [of "{N ..< N + 817}" "pool_cells P"] by (auto simp: control_apart_def)

lemma own_cells_header:
  assumes "segments P B" "B x = Some (n, f)"
  shows "x + 1 \<in> own_cells N P (used_map B)"
proof -
  have "\<not> (y + 2 \<le> x + 1 \<and> x + 1 \<le> y + m + 1)" if y: "B y = Some (m, False)" for y m
  proof (cases "y = x")
    case False
    then show ?thesis using blocks_disjoint [OF assms y] by auto
  qed simp
  then show ?thesis using sentinel_bounds [OF assms] by (auto simp: own_cells_def)
qed

lemma own_cells_free:
  assumes "segments P B" "B x = Some (n, True)" "x + 2 \<le> k" "k \<le> x + n + 2"
  shows "k \<in> own_cells N P (used_map B)"
proof -
  have pos: "0 < n" by (rule free_not_sentinel [OF assms(1,2)])
  have "\<not> (y + 2 \<le> k \<and> k \<le> y + m + 1)" if y: "B y = Some (m, False)" for y m
  proof (cases "y = x")
    case False
    then show ?thesis using blocks_disjoint [OF assms(1,2) y] assms(3,4) by auto
  qed (use y assms(2) in simp)
  moreover have "k \<in> pool_cells P" using block_facts(1) [OF assms(1,2) pos] assms(3,4) by auto
  ultimately show ?thesis by (auto simp: own_cells_def)
qed

lemma own_cells_mono: "U \<subseteq>\<^sub>m U' \<Longrightarrow> own_cells N P U' \<subseteq> own_cells N P U"
  unfolding own_cells_def map_le_def
  by (auto simp: dom_def)

section \<open>Changes of the lists and of the headers\<close>

lemma heap_okD:
  assumes "heap_ok N P s B F"
  shows "control_apart N P" "segments P B" "headers_ok (cells (mem s)) B" "lists_ok N s F"
    and "F x = Some n \<Longrightarrow> B x = Some (n, True)"
  using assms by (auto simp: heap_ok_def map_le_def dom_def)

lemma heap_okI:
  assumes "control_apart N P" "segments P B" "headers_ok (cells (mem s)) B" "lists_ok N s F"
    and sub: "\<And>x n. F x = Some n \<Longrightarrow> B x = Some (n, True)"
  shows "heap_ok N P s B F"
proof -
  have "F x = free_map B x" if x: "x \<in> dom F" for x
  proof -
    obtain n where "F x = Some n" using x by blast
    then show ?thesis using sub [of x n] by (simp add: free_map_def)
  qed
  then show ?thesis using assms(1-4) by (simp add: heap_ok_def map_le_def)
qed

lemma link_cells_cases:
  assumes "k \<in> link_cells (insert N A)"
  obtains "k = N + 2 \<or> k = N + 3" | y where "y \<in> A" "k = y + 2 \<or> k = y + 3"
  using assms unfolding link_cells_def by blast

text \<open>Free blocks can be listed: their links share no cell with each other or with the null block.\<close>

lemma free_ok_blocks:
  assumes "control_apart N P" "segments P B" "\<And>x n. F x = Some n \<Longrightarrow> B x = Some (n, True)"
  shows "free_ok N F"
proof -
  have facts: "{x + 1 .. x + n + 2} \<subseteq> pool_cells P" "3 \<le> n" "x + n + 2 < cell_limit" "n < 2 ^ 29" "0 < x"
    if "F x = Some n" for x n
    using block_facts [OF assms(2) assms(3) [OF that] free_not_sentinel [OF assms(2) assms(3) [OF that]]] by blast+
  have N: "x + 3 < N + 2 \<or> N + 3 < x + 2" if "F x = Some n" for x n
    using apart_block [OF assms(1) facts(1) [OF that]] facts(2) [OF that] by auto
  then have N': "x + 3 < N + 2 \<or> N + 3 < x + 2" if "x \<in> dom F" for x
    using that by blast
  have "x + 2 \<noteq> y + 3" if xy: "x \<in> insert N (dom F)" "y \<in> insert N (dom F)" for x y
  proof (cases "x = N \<or> y = N")
    case True
    then show ?thesis using xy N' [of x] N' [of y] by (auto simp: domIff)
  next
    case False
    then obtain n m where xy: "F x = Some n" "F y = Some m" using xy by auto
    show ?thesis
    proof (cases "x = y")
      case False
      then show ?thesis using blocks_disjoint [OF assms(2) assms(3) [OF xy(1)] assms(3) [OF xy(2)]]
          facts(2) [OF xy(1)] facts(2) [OF xy(2)] by auto
    qed simp
  qed
  then have "links_apart (insert N (dom F))" by (simp add: links_apart_def)
  moreover have "N \<notin> dom F" using N' [of N] by auto
  moreover have "0 < x \<and> x + 3 < cell_limit" if "x \<in> dom F" for x
    using that facts(2,3,5) [of x] by fastforce
  moreover have "8 * n < 2 ^ 32" if "F x = Some n" for x n using facts(4) [OF that] by simp
  ultimately show ?thesis using assms(1) by (auto simp: free_ok_def control_apart_def)
qed

lemma headers_frame:
  assumes "headers_ok c B" "\<And>x n f. B x = Some (n, f) \<Longrightarrow> c' (x + 1) = c (x + 1)"
    and "\<And>x n. B x = Some (n, True) \<Longrightarrow> c' (x + n + 1) = c (x + n + 1)"
  shows "headers_ok c' B"
  using assms unfolding headers_ok_def by simp

text \<open>Link cells are neither headers nor boundary cells.\<close>

lemma link_not_header:
  assumes "control_apart N P" "segments P B" "k \<in> link_cells (insert N A)"
    and "\<And>y. y \<in> A \<Longrightarrow> \<exists>m. B y = Some (m, True)" "B x = Some (n, f)"
  shows "k \<noteq> x + 1" "f \<Longrightarrow> k \<noteq> x + n + 1"
proof -
  consider "k = N + 2 \<or> k = N + 3" | y m where "k = y + 2 \<or> k = y + 3" "B y = Some (m, True)"
    using link_cells_cases [OF assms(3)] assms(4) by metis
  then have "k \<noteq> x + 1 \<and> (f \<longrightarrow> k \<noteq> x + n + 1)"
  proof cases
    case 1
    have "x + 1 \<in> pool_cells P" by (rule sentinel_bounds(1) [OF assms(2,5)])
    moreover have "x + n + 1 \<in> pool_cells P" if f
    proof -
      have pos: "0 < n" using free_not_sentinel [OF assms(2)] assms(5) that by simp
      then show ?thesis using subsetD [OF block_facts(1) [OF assms(2,5)], of "x + n + 1"] by simp
    qed
    ultimately show ?thesis using 1 control_not_pool [OF assms(1)] by blast
  next
    case 2
    have m: "3 \<le> m" using block_facts(2) [OF assms(2) 2(2) free_not_sentinel [OF assms(2) 2(2)]] .
    show ?thesis
    proof (cases "x = y")
      case True
      then show ?thesis using 2 m assms(5) by auto
    next
      case False
      have n: "f \<longrightarrow> 3 \<le> n"
        using free_not_sentinel [OF assms(2)] block_facts(2) [OF assms(2,5)] assms(5) by auto
      show ?thesis using blocks_disjoint [OF assms(2,5) 2(2) False] 2(1) m n by auto
    qed
  qed
  then show "k \<noteq> x + 1" "f \<Longrightarrow> k \<noteq> x + n + 1" by blast+
qed

lemma headers_links:
  assumes "control_apart N P" "segments P B" "headers_ok c B"
    and "same_outside (link_cells (insert N A)) c c'" "\<And>y. y \<in> A \<Longrightarrow> \<exists>m. B y = Some (m, True)"
  shows "headers_ok c' B"
  using assms(3)
proof (rule headers_frame)
  note nl = link_not_header [OF assms(1,2) _ assms(5)]
  show "c' (x + 1) = c (x + 1)" if "B x = Some (n, f)" for x n f
    using nl(1) [OF _ _ that] assms(4) by (auto simp: same_outside_def)
  show "c' (x + n + 1) = c (x + n + 1)" if "B x = Some (n, True)" for x n
    using nl(2) [OF _ _ that] assms(4) by (auto simp: same_outside_def)
qed

lemma link_cells_own:
  assumes "segments P B" "\<And>y. y \<in> A \<Longrightarrow> \<exists>m. B y = Some (m, True)"
  shows "link_cells (insert N A) \<subseteq> own_cells N P (used_map B)"
proof
  fix k
  assume "k \<in> link_cells (insert N A)"
  then consider "k = N + 2 \<or> k = N + 3" | y m where "k = y + 2 \<or> k = y + 3" "B y = Some (m, True)"
    using link_cells_cases assms(2) by metis
  then show "k \<in> own_cells N P (used_map B)"
  proof cases
    case 2
    have "3 \<le> m" using block_facts(2) [OF assms(1) 2(2) free_not_sentinel [OF assms(1) 2(2)]] .
    then show ?thesis using 2 by (intro own_cells_free [OF assms(1) 2(2)]) auto
  qed (auto simp: own_cells_def)
qed

lemma block_insert_ok:
  assumes ok: "heap_ok N P s B F" and x: "B x = Some (n, True)" "F x = None"
  shows "heap_ok N P (block_insert s (ptr x)) B (F(x \<mapsto> n))"
    and "same_outside (own_cells N P (used_map B)) (cells (mem s)) (cells (mem (block_insert s (ptr x))))"
proof -
  note okD = heap_okD [OF ok]
  obtain fl sl where k: "size_class n = (fl, sl)" by fastforce
  have ins: "block_insert s (ptr x) = insert_free_block s (ptr x) fl sl"
    using block_class [OF headers_header [OF okD(3,2) x(1)]] k by (simp add: block_insert_def)
  have sub: "B y = Some (m, True)" if "(F(x \<mapsto> n)) y = Some m" for y m
    using that okD(5) x(1) by (auto split: if_splits)
  have free: "free_ok N (F(x \<mapsto> n))" by (rule free_ok_blocks [OF okD(1,2) sub])
  note i = insert_free_block_ok [OF okD(4) x(2) free k]
  have A: "\<exists>m. B y = Some (m, True)" if "y \<in> insert x (dom F)" for y
    using that x(1) okD(5) by auto
  show "heap_ok N P (block_insert s (ptr x)) B (F(x \<mapsto> n))"
    unfolding ins by (rule heap_okI [OF okD(1,2) headers_links [OF okD(1-3) i(2) A] i(1) sub])
  show "same_outside (own_cells N P (used_map B)) (cells (mem s)) (cells (mem (block_insert s (ptr x))))"
    unfolding ins by (rule same_outside_mono [OF i(2) link_cells_own [OF okD(2) A]])
qed

lemma remove_class_ok:
  assumes ok: "heap_ok N P s B F" and x: "F x = Some n" and k: "size_class n = (fl, sl)"
  shows "heap_ok N P (remove_free_block s (ptr x) fl sl) B (F(x := None))"
    and "same_outside (own_cells N P (used_map B)) (cells (mem s)) (cells (mem (remove_free_block s (ptr x) fl sl)))"
proof -
  note okD = heap_okD [OF ok]
  note r = remove_free_block_ok [OF okD(4) x k]
  have A: "\<exists>m. B y = Some (m, True)" if "y \<in> dom F - {x}" for y
    using that okD(5) by auto
  show "heap_ok N P (remove_free_block s (ptr x) fl sl) B (F(x := None))"
    by (rule heap_okI [OF okD(1,2) headers_links [OF okD(1-3) r(2) A] r(1)]) (auto dest: okD(5) split: if_splits)
  show "same_outside (own_cells N P (used_map B)) (cells (mem s)) (cells (mem (remove_free_block s (ptr x) fl sl)))"
    by (rule same_outside_mono [OF r(2) link_cells_own [OF okD(2) A]])
qed

lemma block_remove_ok:
  assumes ok: "heap_ok N P s B F" and x: "F x = Some n"
  shows "heap_ok N P (block_remove s (ptr x)) B (F(x := None))"
    and "same_outside (own_cells N P (used_map B)) (cells (mem s)) (cells (mem (block_remove s (ptr x))))"
proof -
  note okD = heap_okD [OF ok]
  obtain fl sl where k: "size_class n = (fl, sl)" by fastforce
  have rem: "block_remove s (ptr x) = remove_free_block s (ptr x) fl sl"
    using block_class [OF headers_header [OF okD(3,2) okD(5) [OF x]]] k by (simp add: block_remove_def)
  show "heap_ok N P (block_remove s (ptr x)) B (F(x := None))"
    "same_outside (own_cells N P (used_map B)) (cells (mem s)) (cells (mem (block_remove s (ptr x))))"
    unfolding rem by (rule remove_class_ok [OF ok x k])+
qed

text \<open>A change of headers only, described by the new block map.\<close>

lemma heap_ok_headers:
  assumes ok: "heap_ok N P s B F" and new: "segments P B'" "headers_ok (cells m) B'"
    and sub: "\<And>x n. F x = Some n \<Longrightarrow> B' x = Some (n, True)"
    and same: "same_outside H (cells (mem s)) (cells m)" "\<And>k. k \<in> H \<Longrightarrow> k \<notin> link_cells (insert N (dom F))"
  shows "heap_ok N P (s\<lparr>mem := m\<rparr>) B' F"
proof -
  note okD = heap_okD [OF ok]
  have "lists_ok N (s\<lparr>mem := m\<rparr>) F"
    using okD(4)
  proof (rule lists_ok_frame)
    fix k
    assume "k \<in> link_cells (insert N (dom F))"
    then show "cells m k = cells (mem s) k" using same by (auto simp: same_outside_def)
  qed
  then show ?thesis using new sub by (intro heap_okI [OF okD(1)]) simp_all
qed

text \<open>The cells next to a block that is not listed are no link cells.\<close>

lemma boundary_not_link:
  assumes ok: "heap_ok N P s B F" and x: "B x = Some (n, f)" "0 < n" "F x = None"
    and k: "x + 1 \<le> k" "k \<le> x + n + 2"
  shows "k \<notin> link_cells (insert N (dom F))"
proof
  assume "k \<in> link_cells (insert N (dom F))"
  note okD = heap_okD [OF ok]
  have "k \<in> pool_cells P" using block_facts(1) [OF okD(2) x(1,2)] k by auto
  note bf = control_not_pool [OF okD(1) this]
  from \<open>k \<in> link_cells (insert N (dom F))\<close> consider "k = N + 2 \<or> k = N + 3"
    | y m where "k = y + 2 \<or> k = y + 3" "F y = Some m" using link_cells_cases [of k N "dom F"] by blast
  then show False
  proof cases
    case 1
    then show ?thesis using bf by blast
  next
    case 2
    have y: "B y = Some (m, True)" "y \<noteq> x" using okD(5) [OF 2(2)] 2(2) x(3) by auto
    have "3 \<le> m" using block_facts(2) [OF okD(2) y(1) free_not_sentinel [OF okD(2) y(1)]] .
    then show ?thesis using blocks_disjoint [OF okD(2) x(1) y(1)] y(2) 2(1) k by auto
  qed
qed

section \<open>Merging\<close>

text \<open>All free blocks are listed but \<open>b\<close>, which is being released.\<close>

definition pending :: "nat \<Rightarrow> pools \<Rightarrow> control_t \<Rightarrow> block_map \<Rightarrow> nat \<Rightarrow> nat \<Rightarrow> bool" where
  "pending N P s B b n \<longleftrightarrow> heap_ok N P s B ((free_map B)(b := None)) \<and> B b = Some (n, True)"

lemma coalesced_butD: "coalesced_but A B \<Longrightarrow> B x = Some (n, True) \<Longrightarrow> x \<notin> A \<Longrightarrow> \<not> prev_free B x"
  by (simp add: coalesced_but_def)

lemma used_map_join:
  "B x = Some (n, True) \<Longrightarrow> B (x + n + 1) = Some (n', True) \<Longrightarrow> used_map (join_map B x n n') = used_map B"
  by (rule ext) (simp add: used_map_def join_map_def)

lemma free_map_join:
  "(free_map (join_map B x n n'))(x := None) = (free_map B)(x := None, x + n + 1 := None)"
  by (rule ext) (simp add: free_map_def join_map_def)

text \<open>Absorbing the next block when neither is listed.\<close>

lemma absorb_heap_ok:
  assumes ok: "heap_ok N P s B ((free_map B)(x := None, x + n + 1 := None))"
    and x: "B x = Some (n, True)" and y: "B (x + n + 1) = Some (n', True)"
  defines "m \<equiv> block_absorb (mem s) (ptr x) (ptr (x + n + 1))"
  shows "pending N P (s\<lparr>mem := m\<rparr>) (join_map B x n n') x (n + n' + 1)"
    and "same_outside (own_cells N P (used_map B)) (cells (mem s)) (cells m)"
proof -
  note okD = heap_okD [OF ok]
  note ab = absorb_ok [OF okD(2) x y okD(3), folded m_def]
  have pos: "0 < n" "0 < n'" using free_not_sentinel [OF okD(2)] x y by blast+
  let ?F = "(free_map B)(x := None, x + n + 1 := None)"
  have "heap_ok N P (s\<lparr>mem := m\<rparr>) (join_map B x n n') ?F"
    using ok segments_join [OF okD(2) x y] ab(1)
  proof (rule heap_ok_headers)
    show "join_map B x n n' z = Some (j, True)" if "?F z = Some j" for z j
      using that by (auto simp: join_map_def split: if_splits)
    show "same_outside {x + 1, x + n + n' + 2} (cells (mem s)) (cells m)" by (rule ab(2))
    show "k \<notin> link_cells (insert N (dom ?F))" if "k \<in> {x + 1, x + n + n' + 2}" for k
      using that boundary_not_link [OF ok x pos(1), of k] boundary_not_link [OF ok y pos(2), of k] by auto
  qed
  then show "pending N P (s\<lparr>mem := m\<rparr>) (join_map B x n n') x (n + n' + 1)"
    by (simp add: pending_def free_map_join) (simp add: join_map_def)
  show "same_outside (own_cells N P (used_map B)) (cells (mem s)) (cells m)"
    using ab(2)
  proof (rule same_outside_mono)
    show "{x + 1, x + n + n' + 2} \<subseteq> own_cells N P (used_map B)"
      using own_cells_header [OF okD(2) x] own_cells_free [OF okD(2) y, of "x + n + n' + 2"] block_facts(2) [OF okD(2) y pos(2)]
      by auto
  qed
qed

lemma block_merge_prev_ok:
  assumes p: "pending N P s B b n" and co: "coalesced_but {b, b + n + 1} B"
  obtains s' B' b' n' where "block_merge_prev s (ptr b) = (s', ptr b')" "pending N P s' B' b' n'"
    "used_map B' = used_map B" "coalesced_but {b' + n' + 1} B'"
    "same_outside (own_cells N P (used_map B)) (cells (mem s)) (cells (mem s'))"
proof -
  have ok: "heap_ok N P s B ((free_map B)(b := None))" and b: "B b = Some (n, True)"
    using p by (simp_all add: pending_def)
  note okD = heap_okD [OF ok]
  have is_prev: "block_is_prev_free (mem s) (ptr b) \<longleftrightarrow> prev_free B b"
    by (rule block_status_cell [OF headers_header [OF okD(3,2) b]])
  show thesis
  proof (cases "prev_free B b")
    case False
    then have "block_merge_prev s (ptr b) = (s, ptr b)" by (simp add: block_merge_prev_def is_prev)
    moreover have "coalesced_but {b + n + 1} B"
      using co False unfolding coalesced_but_def by (metis insert_iff)
    ultimately show ?thesis using p that by simp
  next
    case True
    then obtain q k where q: "B q = Some (k, True)" "q + k + 1 = b" by (auto simp: prev_free_def)
    have y: "B (q + k + 1) = Some (n, True)" using q(2) b by simp
    have "q \<noteq> b" using q(2) by simp
    have "block_prev (mem s) (ptr b) = ptr q"
      using block_prev_cell [of b] sentinel_bounds(2) [OF okD(2) b] headers_okD(2) [OF okD(3) q(1)] q(2) by simp
    moreover define s1 where "s1 = block_remove s (ptr q)"
    ultimately have run: "block_merge_prev s (ptr b) = (s1\<lparr>mem := block_absorb (mem s1) (ptr q) (ptr b)\<rparr>, ptr q)"
      using True by (simp add: block_merge_prev_def is_prev Let_def)
    have F: "((free_map B)(b := None)) q = Some k" using \<open>q \<noteq> b\<close> q(1) by simp
    note rem = block_remove_ok [OF ok F, folded s1_def]
    have eq: "(free_map B)(b := None, q := None) = (free_map B)(q := None, q + k + 1 := None)"
      using \<open>q \<noteq> b\<close> q(2) by (auto simp: fun_upd_twist)
    have ok1: "heap_ok N P s1 B ((free_map B)(q := None, q + k + 1 := None))"
      using rem(1) unfolding eq .
    note ab = absorb_heap_ok [OF ok1 q(1) y, unfolded q(2)]
    have "coalesced_but {q + (k + n + 1) + 1} (join_map B q k n)"
      unfolding coalesced_but_def
    proof (intro allI impI)
      fix x m
      assume x: "join_map B q k n x = Some (m, True)" "x \<notin> {q + (k + n + 1) + 1}"
      have ne: "x \<noteq> b" "x \<noteq> b + n + 1" using x q(2) by (auto simp: join_map_def)
      have "\<exists>m. B x = Some (m, True)" using x(1) q(1) by (auto simp: join_map_def split: if_splits)
      then have "\<not> prev_free B x" using ne coalesced_butD [OF co] by blast
      then show "\<not> prev_free (join_map B q k n) x"
        using prev_free_join [OF okD(2) q(1) y] ne q(2) by simp
    qed
    then show ?thesis
      using that [OF run ab(1) used_map_join [OF q(1) y]] same_outside_trans [OF rem(2) ab(2)] by simp
  qed
qed

lemma block_merge_next_ok:
  assumes p: "pending N P s B b n" and co: "coalesced_but {b + n + 1} B"
  obtains s' B' n' where "block_merge_next s (ptr b) = (s', ptr b)" "pending N P s' B' b n'"
    "used_map B' = used_map B" "coalesced_but {} B'"
    "same_outside (own_cells N P (used_map B)) (cells (mem s)) (cells (mem s'))"
proof -
  have ok: "heap_ok N P s B ((free_map B)(b := None))" and b: "B b = Some (n, True)"
    using p by (simp_all add: pending_def)
  note okD = heap_okD [OF ok]
  have pos: "0 < n" by (rule free_not_sentinel [OF okD(2) b])
  note bf = block_facts [OF okD(2) b pos]
  obtain n' f' where y: "B (b + n + 1) = Some (n', f')" using bf(7) by blast
  have nxt: "block_next (mem s) (ptr b) = ptr (b + n + 1)"
    using block_next_cell [OF headers_header [OF okD(3,2) b]] bf(2) by simp
  have is_free: "block_is_free (mem s) (ptr (b + n + 1)) \<longleftrightarrow> f'"
    by (rule block_status_cell(1) [OF headers_header [OF okD(3,2) y]])
  show thesis
  proof (cases f')
    case False
    then have "block_merge_next s (ptr b) = (s, ptr b)"
      by (simp add: block_merge_next_def nxt is_free Let_def)
    moreover have "coalesced_but {} B"
      using co y False unfolding coalesced_but_def by auto
    ultimately show ?thesis using p that by simp
  next
    case True
    with y have y: "B (b + n + 1) = Some (n', True)" by simp
    define s1 where "s1 = block_remove s (ptr (b + n + 1))"
    have run: "block_merge_next s (ptr b) = (s1\<lparr>mem := block_absorb (mem s1) (ptr b) (ptr (b + n + 1))\<rparr>, ptr b)"
      using True by (simp add: block_merge_next_def nxt is_free Let_def flip: s1_def)
    have F: "((free_map B)(b := None)) (b + n + 1) = Some n'" using y by simp
    note rem = block_remove_ok [OF ok F, folded s1_def]
    note ab = absorb_heap_ok [OF rem(1) b y]
    have "coalesced_but {} (join_map B b n n')"
      unfolding coalesced_but_def
    proof (intro allI impI)
      fix x m
      assume x: "join_map B b n n' x = Some (m, True)"
      have ne: "x \<noteq> b + n + 1" using x by (auto simp: join_map_def)
      have "\<exists>m. B x = Some (m, True)" using x b by (auto simp: join_map_def split: if_splits)
      then have "\<not> prev_free B x" using ne coalesced_butD [OF co] by blast
      then show "\<not> prev_free (join_map B b n n') x" using prev_free_join [OF okD(2) b y ne] by simp
    qed
    then show ?thesis
      using that [OF run ab(1) used_map_join [OF b y]] same_outside_trans [OF rem(2) ab(2)] by simp
  qed
qed

text \<open>Listing the released block completes the invariant.\<close>

lemma pending_insert:
  assumes "pending N P s B b n" "coalesced_but {} B"
  shows "tlsf_inv N P (block_insert s (ptr b)) B"
    and "same_outside (own_cells N P (used_map B)) (cells (mem s)) (cells (mem (block_insert s (ptr b))))"
proof -
  have ok: "heap_ok N P s B ((free_map B)(b := None))" and b: "B b = Some (n, True)"
    using assms(1) by (simp_all add: pending_def)
  note ins = block_insert_ok [OF ok b]
  have "free_map B b = Some n" using b by simp
  then have "(free_map B)(b := None, b \<mapsto> n) = free_map B" by (simp add: fun_upd_idem)
  then show "tlsf_inv N P (block_insert s (ptr b)) B" using ins(1) assms(2) by (simp add: tlsf_inv_def)
  show "same_outside (own_cells N P (used_map B)) (cells (mem s)) (cells (mem (block_insert s (ptr b))))"
    using ins(2) by simp
qed

section \<open>Release\<close>

lemma ptr_nonzero: "0 < x \<Longrightarrow> x < cell_limit \<Longrightarrow> ptr x \<noteq> 0"
  using ptr_inj [of x 0] by (simp add: cell_limit_def)

lemma mark_as_free_pending:
  assumes inv: "tlsf_inv N P s B" and x: "B x = Some (n, False)" "0 < n"
  defines "B1 \<equiv> B(x \<mapsto> (n, True))" and "m1 \<equiv> block_mark_as_free (mem s) (ptr x)"
  shows "pending N P (s\<lparr>mem := m1\<rparr>) B1 x n" "coalesced_but {x, x + n + 1} B1" "used_map B1 = (used_map B)(x := None)"
    and "same_outside (own_cells N P (used_map B1)) (cells (mem s)) (cells m1)"
proof -
  have ok: "heap_ok N P s B (free_map B)" and co: "coalesced_but {} B" using inv by (simp_all add: tlsf_inv_def)
  note okD = heap_okD [OF ok]
  note bf = block_facts [OF okD(2) x]
  note mark = mark_as_free_ok [OF okD(2) x okD(3), folded m1_def]
  have Fx: "free_map B x = None" using x(1) by (simp add: free_map_def)
  have F1: "(free_map B1)(x := None) = free_map B" using Fx by (auto simp: B1_def free_map_def)
  show "used_map B1 = (used_map B)(x := None)" by (rule ext) (simp add: used_map_def B1_def)
  have seg1: "segments P B1" unfolding B1_def by (rule segments_status [OF okD(2) x])
  have "heap_ok N P (s\<lparr>mem := m1\<rparr>) B1 (free_map B)"
    using ok seg1 mark(1) [folded B1_def]
  proof (rule heap_ok_headers)
    show "B1 z = Some (j, True)" if "free_map B z = Some j" for z j
      using that x(1) by (auto simp: B1_def)
    show "same_outside {x + 1, x + n + 1, x + n + 2} (cells (mem s)) (cells m1)" by (rule mark(2))
    show "k \<notin> link_cells (insert N (dom (free_map B)))" if "k \<in> {x + 1, x + n + 1, x + n + 2}" for k
      using that by (intro boundary_not_link [OF ok x Fx]) auto
  qed
  then show "pending N P (s\<lparr>mem := m1\<rparr>) B1 x n"
    by (simp only: pending_def F1) (simp add: B1_def)
  show "coalesced_but {x, x + n + 1} B1"
    using co prev_free_status [OF okD(2) x] by (auto simp: coalesced_but_def B1_def)
  show "same_outside (own_cells N P (used_map B1)) (cells (mem s)) (cells m1)"
    using mark(2)
  proof (rule same_outside_mono)
    have "B1 x = Some (n, True)" by (simp add: B1_def)
    then show "{x + 1, x + n + 1, x + n + 2} \<subseteq> own_cells N P (used_map B1)"
      using own_cells_header [OF seg1, of x] own_cells_free [OF seg1, of x n] bf(2) by auto
  qed
qed

lemma tlsf_free_ok:
  assumes inv: "tlsf_inv N P s B" and x: "B x = Some (n, False)" "0 < n"
  obtains B' where "tlsf_inv N P (tlsf_free s (ptr (x + 2))) B'" "used_map B' = (used_map B)(x := None)"
    "same_outside (own_cells N P ((used_map B)(x := None))) (cells (mem s)) (cells (mem (tlsf_free s (ptr (x + 2)))))"
proof -
  define B1 where "B1 = B(x \<mapsto> (n, True))"
  define m1 where "m1 = block_mark_as_free (mem s) (ptr x)"
  note p1 = mark_as_free_pending [OF inv x, folded B1_def m1_def]
  have "segments P B" using inv heap_okD(2) unfolding tlsf_inv_def by blast
  note bf = block_facts [OF this x]
  obtain s2 B2 b2 n2 where s2: "block_merge_prev (s\<lparr>mem := m1\<rparr>) (ptr x) = (s2, ptr b2)"
      "pending N P s2 B2 b2 n2" "used_map B2 = used_map B1" "coalesced_but {b2 + n2 + 1} B2"
      "same_outside (own_cells N P (used_map B1)) (cells (mem (s\<lparr>mem := m1\<rparr>))) (cells (mem s2))"
    by (rule block_merge_prev_ok [OF p1(1,2)])
  then have m12: "same_outside (own_cells N P (used_map B1)) (cells m1) (cells (mem s2))" by simp
  obtain s3 B3 n3 where s3: "block_merge_next s2 (ptr b2) = (s3, ptr b2)"
      "pending N P s3 B3 b2 n3" "used_map B3 = used_map B2" "coalesced_but {} B3"
      "same_outside (own_cells N P (used_map B2)) (cells (mem s2)) (cells (mem s3))"
    by (rule block_merge_next_ok [OF s2(2,4)])
  note fin = pending_insert [OF s3(2,4)]
  have "ptr (x + 2) \<noteq> 0" using bf(2,4) by (intro ptr_nonzero) simp_all
  then have run: "tlsf_free s (ptr (x + 2)) = block_insert s3 (ptr b2)"
    by (simp add: tlsf_free_def Let_def s2(1) s3(1) flip: m1_def)
  have "same_outside (own_cells N P (used_map B1)) (cells (mem s)) (cells (mem (block_insert s3 (ptr b2))))"
    using p1(4) m12 s3(5) fin(2) unfolding s3(3) s2(3) by (blast intro: same_outside_trans)
  then show thesis using that [of B3] fin(1) run p1(3) s2(3) s3(3) by simp
qed

section \<open>Allocation\<close>

text \<open>Both orders in which the two callers complete a split.\<close>

lemma split_free_ok:
  assumes seg: "segments P B" and x: "B x = Some (n, True)" and h: "headers_ok (cells m) B"
    and k: "3 \<le> k" "k + 4 \<le> n"
  defines "y \<equiv> x + k + 1"
  obtains m1 where "block_split m (ptr x) (ptr k) = (m1, ptr y)"
    "headers_ok (cells (block_set_prev_free (fst (block_link_next m1 (ptr x))) (ptr y))) (split_map B x n k True)"
    "headers_ok (cells (fst (block_link_next (block_set_prev_free m1 (ptr y)) (ptr x)))) (split_map B x n k True)"
    "same_outside {x + 1 .. x + n + 2} (cells m) (cells (block_set_prev_free (fst (block_link_next m1 (ptr x))) (ptr y)))"
    "same_outside {x + 1 .. x + n + 2} (cells m) (cells (fst (block_link_next (block_set_prev_free m1 (ptr y)) (ptr x))))"
proof -
  have pos: "0 < n" by (rule free_not_sentinel [OF seg x])
  note bf = block_facts [OF seg x pos]
  obtain n' f' where nxt: "B (x + n + 1) = Some (n', f')" using bf(7) by blast
  have k1: "1 \<le> k" using k by simp
  define m1 where "m1 = fst (block_split m (ptr x) (ptr k))"
  note sp = block_split_cell [OF headers_header [OF h seg x] k(2) headers_header [OF h seg nxt], folded y_def m1_def]
  obtain g where c1: "cells m1 = (cells m)(x + 1 := size_word k True (prev_free B x), y + 1 := size_word (n - k - 1) True g,
      x + n + 1 := ptr y, x + n + 2 := size_word n' f' True)"
    using sp(2) by blast
  have run: "block_split m (ptr x) (ptr k) = (m1, ptr y)" using sp(1) by (simp add: m1_def prod_eq_iff)
  have lim: "x + 1 < cell_limit" "y + 1 < cell_limit" "y < cell_limit" using bf(4) k by (simp_all add: y_def)
  have hx: "header (cells m1) x k True (prev_free B x)" and hy: "header (cells m1) y (n - k - 1) True g"
    using lim k by (simp_all add: header_def c1 y_def)
  have "cells (fst (block_link_next m1 (ptr x))) = (cells m1)(y := ptr x)"
    using block_link_next_cell(1) [OF hx k1] lim by (simp add: y_def)
  then have c2: "cells (block_set_prev_free (fst (block_link_next m1 (ptr x))) (ptr y)) =
      (cells m1)(y := ptr x, y + 1 := size_word (n - k - 1) True True)"
    using hy by (subst block_set_cell(3) [of _ y "n - k - 1" True g]) (simp_all add: header_def)
  have cp: "cells (block_set_prev_free m1 (ptr y)) = (cells m1)(y + 1 := size_word (n - k - 1) True True)"
    by (rule block_set_cell(3) [OF hy])
  have xy: "x + 1 \<noteq> y + 1" using k by (simp add: y_def)
  have "header (cells (block_set_prev_free m1 (ptr y))) x k True (prev_free B x)"
    using hx xy by (simp add: cp header_def)
  then have c3: "cells (fst (block_link_next (block_set_prev_free m1 (ptr y)) (ptr x))) =
      (cells m1)(y + 1 := size_word (n - k - 1) True True, y := ptr x)"
    unfolding cp [symmetric] using block_link_next_cell(1) [of "block_set_prev_free m1 (ptr y)" x k] k1 lim(3)
    by (simp flip: y_def)
  have c23: "(cells m1)(y + 1 := size_word (n - k - 1) True True, y := ptr x) =
      (cells m1)(y := ptr x, y + 1 := size_word (n - k - 1) True True)"
    by (rule fun_upd_twist) simp
  define c where "c = (cells m1)(y := ptr x, y + 1 := size_word (n - k - 1) True True)"
  have "headers_ok c (split_map B x n k True)"
    using k by (intro headers_split [OF seg x pos h k nxt]) (auto simp: c_def c1 y_def)
  moreover have "same_outside {x + 1 .. x + n + 2} (cells m) c"
    using k by (auto simp: same_outside_def c_def c1 y_def)
  ultimately show thesis using that [OF run] c2 c3 c23 c_def by simp
qed

lemma coalesced_but_mono: "coalesced_but A B \<Longrightarrow> A \<subseteq> A' \<Longrightarrow> coalesced_but A' B"
  by (auto simp: coalesced_but_def)

lemma own_cells_block:
  assumes "segments P B" "B x = Some (n, True)"
  shows "{x + 1 .. x + n + 2} \<subseteq> own_cells N P (used_map B)"
proof
  fix k
  assume "k \<in> {x + 1 .. x + n + 2}"
  then show "k \<in> own_cells N P (used_map B)"
    using own_cells_header [OF assms] own_cells_free [OF assms, of k] by (cases "k = x + 1") simp_all
qed

lemma free_map_split:
  assumes "B (x + k + 1) = None"
  shows "(free_map B)(x := None, x + k + 1 \<mapsto> n - k - 1) = (free_map (split_map B x n k True))(x := None)"
  using assms by (intro ext) (simp add: free_map_def split_map_def)

text \<open>The remainder goes to the free lists, the front part stays to be used.\<close>

lemma block_trim_free_ok:
  assumes p: "pending N P s B x n" and k: "3 \<le> k" "k \<le> n" and co: "coalesced_but {x} B"
  obtains s' B' j where "block_trim_free s (ptr x) (ptr k) = s'" "pending N P s' B' x j"
    "j = (if k + 4 \<le> n then k else n)" "used_map B' = used_map B" "coalesced_but {x, x + j + 1} B'"
    "same_outside (own_cells N P (used_map B)) (cells (mem s)) (cells (mem s'))"
proof -
  have ok: "heap_ok N P s B ((free_map B)(x := None))" and x: "B x = Some (n, True)"
    using p by (simp_all add: pending_def)
  note okD = heap_okD [OF ok]
  have pos: "0 < n" by (rule free_not_sentinel [OF okD(2) x])
  note bf = block_facts [OF okD(2) x pos]
  have lim: "n < cell_limit" "k + 4 < cell_limit" using bf(5) k(2) by (simp_all add: cell_limit_def)
  have can: "block_can_split (mem s) (ptr x) (ptr k) \<longleftrightarrow> k + 4 \<le> n"
    by (rule block_can_split_cell [OF headers_header [OF okD(3,2) x] lim])
  show thesis
  proof (cases "k + 4 \<le> n")
    case False
    then show ?thesis using that [of s B n] p coalesced_but_mono [OF co] by (simp add: block_trim_free_def can)
  next
    case True
    let ?S = "split_map B x n k True" and ?y = "x + k + 1" and ?F = "(free_map B)(x := None)"
    obtain m1 where m1: "block_split (mem s) (ptr x) (ptr k) = (m1, ptr ?y)"
      "headers_ok (cells (block_set_prev_free (fst (block_link_next m1 (ptr x))) (ptr ?y))) ?S"
      "headers_ok (cells (fst (block_link_next (block_set_prev_free m1 (ptr ?y)) (ptr x)))) ?S"
      "same_outside {x + 1 .. x + n + 2} (cells (mem s)) (cells (block_set_prev_free (fst (block_link_next m1 (ptr x))) (ptr ?y)))"
      "same_outside {x + 1 .. x + n + 2} (cells (mem s)) (cells (fst (block_link_next (block_set_prev_free m1 (ptr ?y)) (ptr x))))"
      by (rule split_free_ok [OF okD(2) x okD(3) k(1) True])
    define m2 where "m2 = block_set_prev_free (fst (block_link_next m1 (ptr x))) (ptr ?y)"
    have fresh: "B ?y = None" by (rule split_map_fresh [OF okD(2) x pos True])
    have segS: "segments P ?S" by (rule segments_split [OF okD(2) x pos k(1) True])
    have ok2: "heap_ok N P (s\<lparr>mem := m2\<rparr>) ?S ?F"
      using ok segS m1(2) [folded m2_def]
    proof (rule heap_ok_headers)
      show "?S z = Some (j, True)" if "?F z = Some j" for z j
        using that fresh by (auto simp: split_map_def split: if_splits)
      show "same_outside {x + 1 .. x + n + 2} (cells (mem s)) (cells m2)" using m1(4) by (simp add: m2_def)
      show "j \<notin> link_cells (insert N (dom ?F))" if "j \<in> {x + 1 .. x + n + 2}" for j
        using that by (intro boundary_not_link [OF ok x pos]) auto
    qed
    have Sy: "?S ?y = Some (n - k - 1, True)" by (simp add: split_map_def)
    have Fy: "?F ?y = None" using fresh by (simp add: free_map_def)
    note ins = block_insert_ok [OF ok2 Sy Fy]
    have run: "block_trim_free s (ptr x) (ptr k) = block_insert (s\<lparr>mem := m2\<rparr>) (ptr ?y)"
      using True by (simp add: block_trim_free_def can m1(1) m2_def Let_def)
    have "pending N P (block_insert (s\<lparr>mem := m2\<rparr>) (ptr ?y)) ?S x k"
      using ins(1) unfolding free_map_split [of B x k, OF fresh] by (simp add: pending_def) (simp add: split_map_def)
    moreover have used: "used_map ?S = used_map B"
      using x fresh by (intro ext) (simp add: used_map_def split_map_def)
    moreover have "coalesced_but {x, ?y} ?S"
      unfolding coalesced_but_def prev_free_split [OF okD(2) x pos k(1) True]
    proof (intro allI impI)
      fix z j
      assume z: "?S z = Some (j, True)" "z \<notin> {x, ?y}"
      then have Bz: "B z = Some (j, True)" by (simp add: split_map_def)
      then have "\<not> prev_free B z" using coalesced_butD [OF co] z(2) by simp
      moreover have "prev_free B (x + n + 1)" using x by (auto simp: prev_free_def)
      ultimately show "\<not> (if z = ?y then True else if z = x + n + 1 then True else prev_free B z)"
        using z(2) by auto
    qed
    moreover have "same_outside (own_cells N P (used_map B)) (cells (mem s)) (cells m2)"
      using m1(4) own_cells_block [OF okD(2) x] unfolding m2_def by (rule same_outside_mono)
    then have "same_outside (own_cells N P (used_map B)) (cells (mem s)) (cells (mem (block_insert (s\<lparr>mem := m2\<rparr>) (ptr ?y))))"
      by (rule same_outside_trans) (use ins(2) used in simp)
    ultimately show ?thesis using that [OF run] True by simp
  qed
qed

text \<open>Marking the block as used leaves the other free blocks listed.\<close>

lemma mark_used_inv:
  assumes p: "pending N P s B x n" and co: "coalesced_but {x, x + n + 1} B"
  defines "s' \<equiv> s\<lparr>mem := block_mark_as_used (mem s) (ptr x)\<rparr>"
  shows "tlsf_inv N P s' (B(x \<mapsto> (n, False)))" "used_map (B(x \<mapsto> (n, False))) = (used_map B)(x \<mapsto> n)"
    "same_outside (own_cells N P (used_map B)) (cells (mem s)) (cells (mem s'))"
proof -
  have ok: "heap_ok N P s B ((free_map B)(x := None))" and x: "B x = Some (n, True)"
    using p by (simp_all add: pending_def)
  note okD = heap_okD [OF ok]
  have pos: "0 < n" by (rule free_not_sentinel [OF okD(2) x])
  define m1 where "m1 = block_mark_as_used (mem s) (ptr x)"
  note mark = mark_as_used_ok [OF okD(2) x pos okD(3), folded m1_def]
  let ?F = "(free_map B)(x := None)"
  have F: "free_map (B(x \<mapsto> (n, False))) = ?F" by (rule ext) (simp add: free_map_def)
  have "heap_ok N P (s\<lparr>mem := m1\<rparr>) (B(x \<mapsto> (n, False))) ?F"
    using ok segments_status [OF okD(2) x pos] mark(1)
  proof (rule heap_ok_headers)
    show "(B(x \<mapsto> (n, False))) z = Some (j, True)" if "?F z = Some j" for z j
      using that by (auto split: if_splits)
    show "same_outside {x + 1, x + n + 2} (cells (mem s)) (cells m1)" by (rule mark(2))
    show "k \<notin> link_cells (insert N (dom ?F))" if "k \<in> {x + 1, x + n + 2}" for k
      using that by (intro boundary_not_link [OF ok x pos]) auto
  qed
  moreover have "coalesced_but {} (B(x \<mapsto> (n, False)))"
    using co prev_free_status [OF okD(2) x pos] by (auto simp: coalesced_but_def)
  ultimately show "tlsf_inv N P s' (B(x \<mapsto> (n, False)))" by (simp add: tlsf_inv_def F s'_def m1_def)
  show "used_map (B(x \<mapsto> (n, False))) = (used_map B)(x \<mapsto> n)" by (rule ext) (simp add: used_map_def)
  show "same_outside (own_cells N P (used_map B)) (cells (mem s)) (cells (mem s'))"
  proof -
    have "{x + 1, x + n + 2} \<subseteq> {x + 1 .. x + n + 2}" by auto
    from same_outside_mono [OF mark(2) subset_trans [OF this own_cells_block [OF okD(2) x]]]
    show ?thesis by (simp add: s'_def m1_def)
  qed
qed

lemma block_prepare_used_ok:
  assumes p: "pending N P s B x n" and k: "3 \<le> k" "k \<le> n" and co: "coalesced_but {x} B"
  obtains s' B' where "block_prepare_used s (ptr x) (ptr k) = (s', ptr (x + 2))" "tlsf_inv N P s' B'"
    "used_map B' = (used_map B)(x \<mapsto> (if k + 4 \<le> n then k else n))"
    "same_outside (own_cells N P (used_map B)) (cells (mem s)) (cells (mem s'))"
proof -
  obtain s1 B1 j where s1: "block_trim_free s (ptr x) (ptr k) = s1" "pending N P s1 B1 x j"
    "j = (if k + 4 \<le> n then k else n)" "used_map B1 = used_map B" "coalesced_but {x, x + j + 1} B1"
    "same_outside (own_cells N P (used_map B)) (cells (mem s)) (cells (mem s1))"
    by (rule block_trim_free_ok [OF assms])
  note mark = mark_used_inv [OF s1(2,5)]
  have ok: "heap_ok N P s B ((free_map B)(x := None))" and x: "B x = Some (n, True)"
    using p by (simp_all add: pending_def)
  have "ptr x \<noteq> 0"
    using block_facts(4,6) [OF heap_okD(2) [OF ok] x free_not_sentinel [OF heap_okD(2) [OF ok] x]]
    by (intro ptr_nonzero) simp_all
  then have "block_prepare_used s (ptr x) (ptr k) = (s1\<lparr>mem := block_mark_as_used (mem s1) (ptr x)\<rparr>, ptr (x + 2))"
    by (simp add: block_prepare_used_def s1(1) Let_def)
  then show thesis
    using that mark same_outside_trans [OF s1(6)] s1(3,4) by simp
qed

text \<open>
  The search takes a block of the first class from which every block is large enough; it fails only when every
  free block is in a lower class.
\<close>

definition search_class :: "nat \<Rightarrow> nat" where
  "search_class k = class_of (mapping_search (ptr k))"

lemma class_of_bound: "8 * n < 2 ^ 32 \<Longrightarrow> class_of (size_class n) < 800"
  using size_class_bounds [of n] by (simp add: class_of_def)

lemma block_locate_free_ok:
  assumes inv: "tlsf_inv N P s B" and k: "8 * k < 2 ^ 32" "0 < k"
  obtains "block_locate_free s (ptr k) = (s, 0)" "\<And>x n. B x = Some (n, True) \<Longrightarrow> class_of (size_class n) < search_class k"
  | s' x n where "block_locate_free s (ptr k) = (s', ptr x)" "pending N P s' B x n" "k \<le> n" "ptr x \<noteq> 0"
    "search_ok (free_map B) (mapping_search (ptr k)) x n"
    "same_outside (own_cells N P (used_map B)) (cells (mem s)) (cells (mem s'))"
proof -
  have ok: "heap_ok N P s B (free_map B)" using inv by (simp add: tlsf_inv_def)
  note okD = heap_okD [OF ok]
  obtain fl sl where m: "mapping_search (ptr k) = (fl, sl)" by fastforce
  have kl: "k < cell_limit" using k(1) by (simp add: cell_limit_def)
  have "ptr k \<noteq> 0" by (rule ptr_nonzero [OF k(2) kl])
  have sl: "sl < 32" using mapping_sl_bound m by (metis mapping_search_def snd_conv)
  have size: "8 * n < 2 ^ 32" if "B x = Some (n, True)" for x n
    using block_facts(5) [OF okD(2) that free_not_sentinel [OF okD(2) that]] by simp
  show thesis
  proof (cases "fl < 25")
    case False
    then have "block_locate_free s (ptr k) = (s, 0)"
      using \<open>ptr k \<noteq> 0\<close> by (simp add: block_locate_free_def m tlsf_constants)
    moreover have "class_of (size_class n) < search_class k" if "B x = Some (n, True)" for x n
      using class_of_bound [OF size [OF that]] False by (simp add: search_class_def m class_of_def)
    ultimately show ?thesis using that(1) by blast
  next
    case True
    have loc: "block_locate_free s (ptr k) = (case search_suitable_block s fl sl of (block, fl, sl) \<Rightarrow>
        if block \<noteq> 0 then (remove_free_block s block fl sl, block) else (s, block))"
      using True \<open>ptr k \<noteq> 0\<close> by (simp add: block_locate_free_def m tlsf_constants)
    from search_suitable_block_ok [OF okD(4) True sl] show ?thesis
    proof (elim disjE exE conjE)
      assume none: "fst (search_suitable_block s fl sl) = 0"
        "\<forall>x n. free_map B x = Some n \<longrightarrow> class_of (size_class n) < class_of (fl, sl)"
      then have "block_locate_free s (ptr k) = (s, 0)" by (simp add: loc split_beta)
      then show ?thesis using that(1) none(2) by (simp add: search_class_def m)
    next
      fix x n
      assume found: "search_suitable_block s fl sl = (ptr x, size_class n)" "search_ok (free_map B) (fl, sl) x n"
      have Fx: "free_map B x = Some n" using found(2) by (simp add: search_ok_def)
      then have Bx: "B x = Some (n, True)" by simp
      note bf = block_facts [OF okD(2) Bx free_not_sentinel [OF okD(2) Bx]]
      obtain i j where ij: "size_class n = (i, j)" by fastforce
      note rem = remove_class_ok [OF ok Fx ij]
      have nz: "ptr x \<noteq> 0" using bf(4,6) by (intro ptr_nonzero) simp_all
      then have run: "block_locate_free s (ptr k) = (remove_free_block s (ptr x) i j, ptr x)"
        by (simp add: loc found(1) ij)
      have n: "unat (ptr n) = 8 * n" "unat (ptr k) = 8 * k" using bf(4) kl by (simp_all add: unat_ptr)
      have "unat (ptr k) \<le> unat (ptr n)"
        using found(2) size [OF Bx] k(1)
        by (intro mapping_search_fits) (simp_all add: n search_ok_def m size_class_def)
      then have "k \<le> n" by (simp add: n)
      moreover have "pending N P (remove_free_block s (ptr x) i j) B x n"
        using rem(1) Bx by (simp add: pending_def)
      ultimately show ?thesis using that(2) [OF run] nz found(2) rem(2) by (simp add: m)
    qed
  qed
qed

section \<open>Malloc\<close>

text \<open>The request in cells.\<close>

definition request_cells :: "nat \<Rightarrow> nat" where
  "request_cells sz = adjusted sz div 8"

lemma request_cells:
  assumes "unat sz + 7 < 2 ^ 64"
  shows "adjust_request_size sz ALIGN_SIZE = ptr (request_cells (unat sz))"
    and "request_cells (unat sz) \<noteq> 0 \<Longrightarrow> 3 \<le> request_cells (unat sz)"
    and "request_cells (unat sz) \<noteq> 0 \<Longrightarrow> unat sz \<le> 8 * request_cells (unat sz)"
    and "8 * request_cells (unat sz) < 2 ^ 32"
    and "request_cells (unat sz) = 0 \<longleftrightarrow> sz = 0 \<or> 2 ^ 32 - 8 < unat sz"
proof -
  have a: "adjusted (unat sz) = 8 * request_cells (unat sz)" "adjusted (unat sz) < 2 ^ 32"
    using adjusted_props [of "unat sz"] by (cases "adjusted (unat sz) = 0"; simp add: request_cells_def)+
  have "unat (adjust_request_size sz ALIGN_SIZE) = 8 * request_cells (unat sz)"
    using adjust_request_size_correct [OF assms] a(1) by simp
  then have "of_nat (unat (adjust_request_size sz ALIGN_SIZE)) = (of_nat (8 * request_cells (unat sz)) :: u64)"
    by (rule arg_cong)
  then show "adjust_request_size sz ALIGN_SIZE = ptr (request_cells (unat sz))" by (simp add: ptr_def)
  show "8 * request_cells (unat sz) < 2 ^ 32" using a by simp
  show "3 \<le> request_cells (unat sz)" "unat sz \<le> 8 * request_cells (unat sz)" if "request_cells (unat sz) \<noteq> 0"
    using adjusted_props [of "unat sz"] a that by simp_all
  have "(2::nat) ^ 32 \<le> (unat sz + 7) div 8 * 8 \<longleftrightarrow> 2 ^ 32 - 8 < unat sz"
    using div_le_mono [of "2 ^ 32" "unat sz + 7" 8] by auto
  then have "adjusted (unat sz) = 0 \<longleftrightarrow> sz = 0 \<or> 2 ^ 32 - 8 < unat sz"
    by (auto simp: adjusted_def Let_def unat_eq_0 simp del: power_numeral)
  then show "request_cells (unat sz) = 0 \<longleftrightarrow> sz = 0 \<or> 2 ^ 32 - 8 < unat sz" using a(1) by simp
qed

lemma tlsf_malloc_ok:
  assumes inv: "tlsf_inv N P s B" and sz: "unat sz + 7 < 2 ^ 64"
  defines "k \<equiv> request_cells (unat sz)"
  obtains "tlsf_malloc s sz = (s, 0)" "k = 0 \<or> (\<forall>x n. B x = Some (n, True) \<longrightarrow> class_of (size_class n) < search_class k)"
  | s' B' x n j where "tlsf_malloc s sz = (s', ptr (x + 2))" "tlsf_inv N P s' B'" "B x = Some (n, True)"
    "j = (if k + 4 \<le> n then k else n)" "k \<le> n" "0 < k" "used_map B' = (used_map B)(x \<mapsto> j)"
    "same_outside (own_cells N P (used_map B)) (cells (mem s)) (cells (mem s'))"
proof -
  have adj: "adjust_request_size sz ALIGN_SIZE = ptr k" unfolding k_def by (rule request_cells(1) [OF sz])
  show thesis
  proof (cases "k = 0")
    case True
    then have "tlsf_malloc s sz = (s, 0)"
      by (simp add: tlsf_malloc_def adj block_locate_free_def block_prepare_used_def)
    then show ?thesis using that(1) True by blast
  next
    case False
    have k: "8 * k < 2 ^ 32" "0 < k" "3 \<le> k" using request_cells(2,4) [OF sz] False by (simp_all add: k_def)
    show ?thesis
    proof (rule block_locate_free_ok [OF inv k(1,2)])
      assume "block_locate_free s (ptr k) = (s, 0)"
        "\<And>x n. B x = Some (n, True) \<Longrightarrow> class_of (size_class n) < search_class k"
      then show ?thesis using that(1) by (simp add: tlsf_malloc_def adj block_prepare_used_def)
    next
      fix s1 x n
      assume loc: "block_locate_free s (ptr k) = (s1, ptr x)" "pending N P s1 B x n" "k \<le> n" "ptr x \<noteq> 0"
        "search_ok (free_map B) (mapping_search (ptr k)) x n"
        "same_outside (own_cells N P (used_map B)) (cells (mem s)) (cells (mem s1))"
      have co: "coalesced_but {x} B" using inv coalesced_but_mono [of "{}" B "{x}"] by (simp add: tlsf_inv_def)
      obtain s' B' where prep: "block_prepare_used s1 (ptr x) (ptr k) = (s', ptr (x + 2))" "tlsf_inv N P s' B'"
        "used_map B' = (used_map B)(x \<mapsto> (if k + 4 \<le> n then k else n))"
        "same_outside (own_cells N P (used_map B)) (cells (mem s1)) (cells (mem s'))"
        by (rule block_prepare_used_ok [OF loc(2) k(3) loc(3) co])
      have "tlsf_malloc s sz = (s', ptr (x + 2))" by (simp add: tlsf_malloc_def adj loc(1) prep(1))
      moreover have "B x = Some (n, True)" using loc(2) by (simp add: pending_def)
      ultimately show ?thesis
        using that(2) [of s' x B' n] prep(2,3) loc(3) k(2) same_outside_trans [OF loc(6) prep(4)] by simp
    qed
  qed
qed

end
