(* ===== verification/TlsfPool.thy ===== *)
theory TlsfPool imports TlsfMalloc begin

text \<open>
  Construction of the allocator: the layout of \<open>control_t\<close>, \<open>control_construct\<close>, \<open>tlsf_create\<close>,
  \<open>tlsf_add_pool\<close>, \<open>tlsf_create_with_pool\<close>, \<open>tlsf_remove_pool\<close>, the size constants of the interface; that
  an allocator without pools satisfies the invariant, and that a further pool keeps it.
\<close>

unbundle bit_operations_syntax

section \<open>The control structure in memory\<close>

text \<open>\<open>block_null\<close>, \<open>fl_bitmap\<close>, \<open>sl_bitmap[25]\<close>, \<open>blocks[25][32]\<close>.\<close>

definition control_members :: "(nat \<times> nat) list" where
  "control_members = [(c_sizeof block_header_members, 8), (4, 4), (4 * FL_INDEX_COUNT, 4),
     (8 * SL_INDEX_COUNT * FL_INDEX_COUNT, 8)]"

definition tlsf_size :: u64 where "tlsf_size = of_nat (c_sizeof control_members)"
definition tlsf_align_size :: u64 where "tlsf_align_size = ALIGN_SIZE"
definition tlsf_block_size_min :: u64 where "tlsf_block_size_min = block_size_min"
definition tlsf_block_size_max :: u64 where "tlsf_block_size_max = block_size_max"
definition tlsf_pool_overhead :: u64 where "tlsf_pool_overhead = 2 * block_header_overhead"
definition tlsf_alloc_overhead :: u64 where "tlsf_alloc_overhead = block_header_overhead"

lemma control_size: "c_sizeof control_members = 6536" "tlsf_size = 6536" "tlsf_size = ptr 817"
  by (simp_all add: tlsf_size_def control_members_def block_header_members_def tlsf_constants
      c_sizeof_def c_alignof_def c_align_def Let_def ptr_def)

text \<open>All lists empty; the rest of the fields is overwritten, so that their former content does not matter.\<close>

definition control_construct :: "memory \<Rightarrow> u64 \<Rightarrow> control_t" where
  "control_construct m control =
     (let m = store64 m (next_free_addr control) control;
          m = store64 m (prev_free_addr control) control
      in \<lparr>block_null = control, fl_bitmap = 0, sl_bitmap = replicate FL_INDEX_COUNT 0,
          blocks = replicate FL_INDEX_COUNT (replicate SL_INDEX_COUNT control), mem = m\<rparr>)"

text \<open>
  The result is \<open>None\<close> for the null pointer. An aligned \<open>a\<close> is taken to be the address of memory: 0, for which the C
  code's result could not be told from its failure, is not one that \<open>AllocatePool\<close> gives.
\<close>

definition tlsf_create :: "memory \<Rightarrow> u64 \<Rightarrow> control_t option" where
  "tlsf_create m a = (if a mod ALIGN_SIZE \<noteq> 0 then None else Some (control_construct m a))"

text \<open>
  The state and the returned pool pointer. \<open>None\<close> is undefined behaviour: a use of the null pointer, or a list
  index out of the table of lists.
\<close>

definition tlsf_add_pool :: "control_t option \<Rightarrow> u64 \<Rightarrow> u64 \<Rightarrow> (control_t option \<times> u64) option" where
  "tlsf_add_pool tlsf a bytes =
     (let pool_overhead = tlsf_pool_overhead;
          pool_bytes = align_down (bytes - pool_overhead) ALIGN_SIZE
      in if a mod ALIGN_SIZE \<noteq> 0 then Some (tlsf, 0)
         else if pool_bytes < block_size_min \<or> pool_bytes > block_size_max then Some (tlsf, 0)
         else case tlsf of
             None \<Rightarrow> None
           | Some control \<Rightarrow>
               let block = offset_to_block a (- block_header_overhead);
                   m = block_set_size (mem control) block pool_bytes;
                   m = block_set_free m block;
                   m = block_set_prev_used m block
               in if fst (mapping_insert (block_size m block)) \<ge> FL_INDEX_COUNT then None
                  else
                    let control = block_insert (control\<lparr>mem := m\<rparr>) block;
                        (m, nxt) = block_link_next (mem control) block;
                        m = block_set_size m nxt 0;
                        m = block_set_used m nxt;
                        m = block_set_prev_free m nxt
                    in Some (Some (control\<lparr>mem := m\<rparr>), a))"

definition tlsf_create_with_pool :: "memory \<Rightarrow> u64 \<Rightarrow> u64 \<Rightarrow> control_t option option" where
  "tlsf_create_with_pool m a bytes =
     map_option fst (tlsf_add_pool (tlsf_create m a) (a + tlsf_size) (bytes - tlsf_size))"

definition tlsf_get_pool :: "u64 \<Rightarrow> u64" where "tlsf_get_pool tlsf = tlsf + tlsf_size"

text \<open>\<open>tlsf_destroy\<close> does nothing.\<close>

definition tlsf_destroy :: "control_t option \<Rightarrow> control_t option" where "tlsf_destroy tlsf = tlsf"

definition tlsf_remove_pool :: "control_t \<Rightarrow> u64 \<Rightarrow> control_t" where
  "tlsf_remove_pool control pool =
     (let block = offset_to_block pool (- block_header_overhead);
          (fl, sl) = mapping_insert (block_size (mem control) block)
      in remove_free_block control block fl sl)"

section \<open>A fresh allocator\<close>

lemma control_construct_ok:
  assumes "N + 3 < cell_limit"
  shows "lists_ok N (control_construct m (ptr N)) Map.empty"
    and "same_outside {N + 2, N + 3} (cells m) (cells (mem (control_construct m (ptr N))))"
proof -
  have c: "cells (mem (control_construct m (ptr N))) = (cells m)(N + 2 := ptr N, N + 3 := ptr N)"
    using assms by (simp add: control_construct_def Let_def block_addrs cells_store)
  then show "same_outside {N + 2, N + 3} (cells m) (cells (mem (control_construct m (ptr N))))"
    by (simp add: same_outside_def)
  have "tables_ok (control_construct m (ptr N))"
    by (auto simp: tables_ok_def control_construct_def Let_def tlsf_constants)
  moreover have "free_ok N Map.empty" using assms by (simp add: free_ok_def links_apart_def)
  moreover have "heads_ok N (control_construct m (ptr N)) Map.empty"
    by (rule heads_okI)
      (simp add: linked_def control_construct_def Let_def tlsf_constants)
  ultimately show "lists_ok N (control_construct m (ptr N)) Map.empty"
    by (simp add: lists_ok_def) (simp add: control_construct_def Let_def)
qed

section \<open>The block map with a further pool\<close>

text \<open>A new pool of \<open>t\<close> cells is one free block and the sentinel.\<close>

definition add_map :: "block_map \<Rightarrow> nat \<Rightarrow> nat \<Rightarrow> block_map" where
  "add_map B lo t = B(lo \<mapsto> (t, True), lo + t + 1 \<mapsto> (0, False))"

lemma add_map_cases:
  assumes "add_map B lo t x = Some (n, f)"
  obtains "x = lo" "n = t" "f" | "x = lo + t + 1" "n = 0" "\<not> f" | "B x = Some (n, f)" "x \<noteq> lo" "x \<noteq> lo + t + 1"
proof -
  have "x = lo \<and> n = t \<and> f \<or> x = lo + t + 1 \<and> n = 0 \<and> \<not> f \<or> B x = Some (n, f) \<and> x \<noteq> lo \<and> x \<noteq> lo + t + 1"
    using assms by (cases "x = lo + t + 1"; cases "x = lo") (simp_all add: add_map_def)
  then show thesis using that by blast
qed

text \<open>The blocks of the other pools are apart from it.\<close>

lemma other_pool:
  assumes "pools_ok (insert (lo, t) P)" "(lo, t) \<notin> P" "segments P B" "B x = Some (n, f)"
  shows "x + n + 1 \<le> lo \<or> lo + t + 2 \<le> x" "f \<Longrightarrow> x + n + 1 < lo \<or> lo + t + 2 \<le> x"
proof -
  obtain l u where p: "(l, u) \<in> P" "l \<le> x" "x + n \<le> l + u + 1" "0 < n \<Longrightarrow> x + n \<le> l + u"
  proof (cases "n = 0")
    case True
    then obtain l u where "(l, u) \<in> P" "x = l + u + 1" using segmentsD(4) [OF assms(3)] assms(4) by blast
    then show thesis using that True by simp
  next
    case False
    then obtain l u where "(l, u) \<in> P" "l \<le> x" "x + n \<le> l + u" using segmentsD(6) [OF assms(3,4)] by blast
    then show thesis using that by simp
  qed
  then have "(l, u) \<noteq> (lo, t)" using assms(2) by blast
  then have apart: "l + u + 2 \<le> lo \<or> lo + t + 2 \<le> l"
    using pools_okD(5) [OF assms(1), of l u lo t] p(1) by blast
  then show "x + n + 1 \<le> lo \<or> lo + t + 2 \<le> x" using p(2,3) by auto
  show "x + n + 1 < lo \<or> lo + t + 2 \<le> x" if f
    using free_not_sentinel [OF assms(3)] assms(4) that p(2,4) apart by auto
qed

lemma segments_add:
  assumes ok: "pools_ok (insert (lo, t) P)" and new: "(lo, t) \<notin> P" and seg: "segments P B"
  shows "segments (insert (lo, t) P) (add_map B lo t)"
proof (rule segmentsI [OF ok])
  note D = segmentsD [OF seg] and out = other_pool(1) [OF ok new seg]
  have fresh: "x \<notin> dom B" if "lo \<le> x" "x \<le> lo + t + 1" for x
  proof
    assume "x \<in> dom B"
    then obtain n f where "B x = Some (n, f)" by auto
    then show False using out [of x n f] that by auto
  qed
  have dom: "dom (add_map B lo t) = insert lo (insert (lo + t + 1) (dom B))" by (auto simp: add_map_def)
  have t: "3 \<le> t" using pools_okD(3) [OF ok] by blast
  show "l \<in> dom (add_map B lo t) \<and> add_map B lo t (l + u + 1) = Some (0, False)" if "(l, u) \<in> insert (lo, t) P" for l u
  proof (cases "(l, u) = (lo, t)")
    case False
    then have p: "(l, u) \<in> P" using that by blast
    have "l + u + 1 \<in> dom B" using D(3) [OF p] by blast
    then have "l + u + 1 \<noteq> lo" "l + u + 1 \<noteq> lo + t + 1" using fresh [of "l + u + 1"] by auto
    then show ?thesis unfolding dom using D(2,3) [OF p] by (simp add: add_map_def)
  qed (simp add: dom add_map_def)
  show "\<exists>l u. (l, u) \<in> insert (lo, t) P \<and> x = l + u + 1" if "add_map B lo t x = Some (0, f)" for x f
    using that
  proof (cases rule: add_map_cases)
    case 3
    then show ?thesis using D(4) by blast
  qed (use t in auto)
  show "3 \<le> n \<and> x + n + 1 \<in> dom (add_map B lo t) \<and> (\<exists>l u. (l, u) \<in> insert (lo, t) P \<and> l \<le> x \<and> x + n \<le> l + u)"
    if x: "add_map B lo t x = Some (n, f)" and pos: "0 < n" for x n f
    using x
  proof (cases rule: add_map_cases)
    case 1
    then have "x + n + 1 \<in> dom (add_map B lo t)" "3 \<le> n" "lo \<le> x \<and> x + n \<le> lo + t" using t by (simp_all add: dom)
    then show ?thesis by blast
  next
    case 2
    then show ?thesis using pos by simp
  next
    case 3
    obtain l u where "(l, u) \<in> P" "l \<le> x \<and> x + n \<le> l + u" using D(6) [OF 3(1) pos] by blast
    moreover have "3 \<le> n \<and> x + n + 1 \<in> dom B" by (rule D(5) [OF 3(1) pos])
    ultimately show ?thesis unfolding dom by blast
  qed
  show "x + n + 1 \<le> y" if x: "add_map B lo t x = Some (n, f)" and y: "y \<in> dom (add_map B lo t)" "x < y" for x n f y
  proof -
    have cases: "y = lo \<or> y = lo + t + 1 \<or> y \<in> dom B" using y(1) unfolding dom by simp
    show ?thesis
      using x
    proof (cases rule: add_map_cases)
      case 1
      have "y \<in> dom B \<Longrightarrow> lo + t + 1 \<le> y" using fresh [of y] y(2) 1 by linarith
      then show ?thesis using cases y(2) 1 by auto
    next
      case 2
      then show ?thesis using y by simp
    next
      case 3
      note o = out [OF 3(1)]
      show ?thesis
        using cases
      proof (elim disjE)
        assume "y \<in> dom B"
        then show ?thesis using D(7) [OF 3(1)] y(2) by blast
      qed (use o y(2) in linarith)+
    qed
  qed
qed

lemma prev_free_add:
  assumes "pools_ok (insert (lo, t) P)" "(lo, t) \<notin> P" "segments P B"
  shows "prev_free (add_map B lo t) z \<longleftrightarrow> z = lo + t + 1 \<or> prev_free B z" "\<not> prev_free B lo"
proof -
  have "add_map B lo t x = Some (n, True) \<longleftrightarrow> x = lo \<and> n = t \<or> B x = Some (n, True)" for x n
    using other_pool(1) [OF assms, of x n True] by (auto simp: add_map_def)
  then show "prev_free (add_map B lo t) z \<longleftrightarrow> z = lo + t + 1 \<or> prev_free B z" by (auto simp: prev_free_def)
  show "\<not> prev_free B lo" using other_pool(2) [OF assms] by (fastforce simp: prev_free_def)
qed

lemma free_map_add:
  "(lo, t) \<notin> P \<Longrightarrow> pools_ok (insert (lo, t) P) \<Longrightarrow> segments P B \<Longrightarrow> free_map (add_map B lo t) = (free_map B)(lo \<mapsto> t)"
  using other_pool(1) [of lo t P B "lo + t + 1"]
  by (intro ext) (fastforce simp: free_map_def add_map_def split: option.splits bool.splits)

text \<open>Only the sentinel is added to the used blocks.\<close>

lemma used_map_add: "B lo = None \<Longrightarrow> used_map (add_map B lo t) = (used_map B)(lo + t + 1 \<mapsto> 0)"
  by (intro ext) (simp add: used_map_def add_map_def)

lemma segments_empty: "segments {} Map.empty"
  by (simp add: segments_def pools_ok_def)

section \<open>Sizes and addresses\<close>

lemma align_down_cells: "align_down x ALIGN_SIZE = ptr (unat x div 8)"
proof -
  have "(7 :: u64) = mask 3" by (simp add: mask_numeral One_nat_def)
  then have d: "align_down x ALIGN_SIZE = x - take_bit 3 x"
    by (simp add: align_down_def tlsf_constants take_bit_eq_mask)
  have r: "unat (take_bit 3 x) = unat x mod 8" by (simp only: unsigned_take_bit_eq) (simp add: take_bit_eq_mod)
  then have "take_bit 3 x \<le> x" by (simp add: word_le_nat_alt)
  then have "unat (x - take_bit 3 x) = unat x - unat x mod 8" using r by (simp add: unat_sub)
  then have "unat (align_down x ALIGN_SIZE) = 8 * (unat x div 8)" by (simp add: d minus_mod_eq_mult_div)
  then have "of_nat (unat (align_down x ALIGN_SIZE)) = (of_nat (8 * (unat x div 8)) :: u64)" by (rule arg_cong)
  then show ?thesis by (simp add: ptr_def)
qed

lemma aligned_ptr: "unat a mod 8 = 0 \<Longrightarrow> a = ptr (unat a div 8)"
proof -
  assume "unat a mod 8 = 0"
  then have "8 * (unat a div 8) = unat a" by auto
  then show ?thesis by (simp add: ptr_def)
qed

lemma ptr_aligned: "k < cell_limit \<Longrightarrow> ptr k mod ALIGN_SIZE = 0"
proof -
  assume k: "k < cell_limit"
  have "unat (ptr k mod ALIGN_SIZE) = 0" by (simp add: unat_mod tlsf_constants unat_ptr [OF k])
  then show ?thesis by (simp add: unat_eq_0)
qed

lemma not_aligned: "a mod ALIGN_SIZE = 0 \<longleftrightarrow> unat a mod 8 = 0"
  by (simp add: tlsf_constants unat_mod flip: unat_eq_0)

text \<open>The block header that \<open>tlsf_add_pool\<close> writes first, for a pool of \<open>t\<close> cells.\<close>

lemma pool_header:
  assumes "lo + 1 < cell_limit"
  defines "m1 \<equiv> \<lambda>m t. block_set_prev_used (block_set_free (block_set_size m (ptr lo) (ptr t)) (ptr lo)) (ptr lo)"
  shows "cells (m1 m t) = (cells m)(lo + 1 := size_word t True False)"
    and "header (cells (m1 m t)) lo t True False"
proof -
  note sz = block_set_size_any [OF assms(1), of m t]
  obtain g h where h0: "header (cells (block_set_size m (ptr lo) (ptr t))) lo t g h"
    using assms(1) by (simp add: sz header_def)
  have c0: "cells (block_set_free (block_set_size m (ptr lo) (ptr t)) (ptr lo)) = (cells m)(lo + 1 := size_word t True h)"
    using block_set_cell(1) [OF h0] by (simp add: sz)
  have "header (cells (block_set_free (block_set_size m (ptr lo) (ptr t)) (ptr lo))) lo t True h"
    using assms(1) by (simp add: c0 header_def)
  then show c: "cells (m1 m t) = (cells m)(lo + 1 := size_word t True False)"
    unfolding m1_def by (simp add: block_set_cell(4) c0)
  then show "header (cells (m1 m t)) lo t True False" using assms(1) by (simp add: header_def)
qed

text \<open>The pool size and the first block, in cells.\<close>

lemma pool_block: "offset_to_block (ptr (lo + 1)) (- block_header_overhead) = ptr lo"
  by (simp add: offset_to_block_def block_constants ptr_def)

lemma pool_size_cells:
  assumes "(unat bytes - 16) div 8 = t" "16 \<le> unat bytes"
  shows "align_down (bytes - tlsf_pool_overhead) ALIGN_SIZE = ptr t"
proof -
  have "bytes - tlsf_pool_overhead = of_nat (unat bytes - 16)"
    using assms(2) by (simp add: tlsf_pool_overhead_def block_constants of_nat_diff)
  moreover have "unat (of_nat (unat bytes - 16) :: u64) = unat bytes - 16"
    by (intro unat_of_nat_u64) (use unsigned_less [of bytes, where 'a = nat] in simp)
  ultimately show "align_down (bytes - tlsf_pool_overhead) ALIGN_SIZE = ptr t"
    unfolding align_down_cells using assms(1) by simp
qed

text \<open>
  The steps of \<open>tlsf_add_pool\<close> on memory: the header of the first block, its insertion in the list of its class, and
  the sentinel. The insertion must not touch the header.
\<close>

lemma add_pool_run:
  assumes lim: "lo + t + 2 < cell_limit" and t: "3 \<le> t" "t < 2 ^ 29" and bytes: "(unat bytes - 16) div 8 = t" "16 \<le> unat bytes"
    and ij: "size_class t = (i, j)"
  obtains m1 where "cells m1 = (cells (mem s))(lo + 1 := size_word t True False)"
    "cells (mem (insert_free_block (s\<lparr>mem := m1\<rparr>) (ptr lo) i j)) (lo + 1) = size_word t True False \<longrightarrow>
      (\<exists>m6. cells m6 = (cells (mem (insert_free_block (s\<lparr>mem := m1\<rparr>) (ptr lo) i j)))
             (lo + t + 1 := ptr lo, lo + t + 2 := size_word 0 False True)
        \<and> tlsf_add_pool (Some s) (ptr (lo + 1)) bytes =
            Some (Some ((insert_free_block (s\<lparr>mem := m1\<rparr>) (ptr lo) i j)\<lparr>mem := m6\<rparr>), ptr (lo + 1)))"
proof -
  let ?hi = "lo + t + 1" and ?x = "ptr lo"
  note pb = pool_size_cells [OF bytes] and blk = pool_block [of lo]
  have ut: "unat (ptr t) = 8 * t" using t(2) by (intro unat_ptr) (simp add: cell_limit_def)
  have size: "\<not> ptr t < block_size_min" "\<not> ptr t > block_size_max"
    using t by (simp_all add: word_less_nat_alt ut tlsf_constants)
  define m1 where "m1 = block_set_prev_used (block_set_free (block_set_size (mem s) ?x (ptr t)) ?x) ?x"
  have lim1: "lo + 1 < cell_limit" "?hi < cell_limit" "?hi + 1 < cell_limit" "?hi + 1 = lo + t + 2" using lim by simp_all
  note h1 = pool_header [OF lim1(1), of "mem s" t, folded m1_def]
  have in_table: "\<not> FL_INDEX_COUNT \<le> fst (mapping_insert (block_size m1 ?x))"
    using size_class_bounds(1) [of t] t(2) by (simp add: block_class [OF h1(2)] tlsf_constants)
  define s2 where "s2 = insert_free_block (s\<lparr>mem := m1\<rparr>) ?x i j"
  have s2: "block_insert (s\<lparr>mem := m1\<rparr>) ?x = s2"
    by (simp add: block_insert_def block_class [OF h1(2)] ij s2_def)
  have "\<exists>m6. cells m6 = (cells (mem s2))(?hi := ptr lo, lo + t + 2 := size_word 0 False True)
      \<and> tlsf_add_pool (Some s) (ptr (lo + 1)) bytes = Some (Some (s2\<lparr>mem := m6\<rparr>), ptr (lo + 1))"
    if keep: "cells (mem s2) (lo + 1) = size_word t True False"
  proof -
    have h2: "header (cells (mem s2)) lo t True False" using keep lim1(1) by (simp add: header_def)
    have t1: "1 \<le> t" using t by simp
    define m3 where "m3 = fst (block_link_next (mem s2) ?x)"
    have c3: "cells m3 = (cells (mem s2))(?hi := ptr lo)" and nxt: "snd (block_link_next (mem s2) ?x) = ptr ?hi"
      unfolding m3_def using block_link_next_cell [OF h2 t1 lim1(2)] by simp_all
    have run3: "block_link_next (mem s2) ?x = (m3, ptr ?hi)" using nxt by (simp add: m3_def prod_eq_iff)
    define m4 where "m4 = block_set_size m3 (ptr ?hi) 0"
    obtain g' h' where c4: "cells m4 = (cells m3)(?hi + 1 := size_word 0 g' h')"
      using block_set_size_any [OF lim1(3), of m3 0] by (simp add: m4_def)
    define m5 where "m5 = block_set_used m4 (ptr ?hi)"
    have h4: "header (cells m4) ?hi 0 g' h'" using lim1 by (simp add: c4 header_def)
    have c5: "cells m5 = (cells m3)(?hi + 1 := size_word 0 False h')"
      unfolding m5_def using block_set_cell(2) [OF h4] by (simp add: c4)
    define m6 where "m6 = block_set_prev_free m5 (ptr ?hi)"
    have h5: "header (cells m5) ?hi 0 False h'" using lim1 by (simp add: c5 header_def)
    have "cells m6 = (cells (mem s2))(?hi := ptr lo, lo + t + 2 := size_word 0 False True)"
      unfolding m6_def using block_set_cell(3) [OF h5] by (simp add: c5 c3)
    moreover have "tlsf_add_pool (Some s) (ptr (lo + 1)) bytes = Some (Some (s2\<lparr>mem := m6\<rparr>), ptr (lo + 1))"
      using size in_table ptr_aligned [OF lim1(1)]
      by (simp add: tlsf_add_pool_def Let_def pb blk s2 run3 m4_def [symmetric] m5_def [symmetric] m6_def [symmetric]
          flip: m1_def)
    ultimately show ?thesis by blast
  qed
  then show thesis using that [of m1] h1(1) unfolding s2_def by blast
qed

lemma new_pool_start:
  assumes "pools_ok (insert (lo, t) P)" "(lo, t) \<notin> P" "segments P B"
  shows "B lo = None"
proof (rule ccontr)
  assume "B lo \<noteq> None"
  then obtain n f where "B lo = Some (n, f)" by auto
  then show False using other_pool(1) [OF assms, of lo n f] pools_okD(3) [OF assms(1) insertI1] by auto
qed

text \<open>The insertion of the new block. No link of a listed block lies in a header.\<close>

lemma pool_insert_ok:
  assumes inv: "tlsf_inv N P s B" and apart: "control_apart N (insert (lo, t) P)" and ok: "pools_ok (insert (lo, t) P)"
    and new: "(lo, t) \<notin> P" and m1: "cells m1 = (cells (mem s))(lo + 1 := size_word t True False)" and ij: "size_class t = (i, j)"
  defines "L \<equiv> link_cells (insert N (insert lo (dom (free_map B))))" and "s2 \<equiv> insert_free_block (s\<lparr>mem := m1\<rparr>) (ptr lo) i j"
  shows "k \<in> L \<Longrightarrow> add_map B lo t x = Some (n, f) \<Longrightarrow> k \<noteq> x + 1 \<and> (f \<longrightarrow> k \<noteq> x + n + 1)"
    and "y \<in> insert lo (dom (free_map B)) \<Longrightarrow> \<exists>m. add_map B lo t y = Some (m, True)"
    and "lo + 1 \<notin> L" "lo + t + 1 \<notin> L" "lo + t + 2 \<notin> L"
    and "lists_ok N s2 ((free_map B)(lo \<mapsto> t))" "same_outside L (cells m1) (cells (mem s2))"
    and "cells (mem s2) (lo + 1) = size_word t True False"
proof -
  let ?hi = "lo + t + 1" and ?B = "add_map B lo t" and ?P = "insert (lo, t) P"
  let ?F = "(free_map B)(lo \<mapsto> t)"
  have heap: "heap_ok N P s B (free_map B)" using inv by (simp add: tlsf_inv_def)
  note okD = heap_okD [OF heap]
  note lt = pools_okD(1-4) [OF ok insertI1]
  have seg: "segments ?P ?B" by (rule segments_add [OF ok new okD(2)])
  have lo: "B lo = None" by (rule new_pool_start [OF ok new okD(2)])
  have listed: "?B x = Some (n, True)" if "?F x = Some n" for x n
    using that by (simp flip: free_map_add [OF new ok okD(2)])
  have free: "free_ok N ?F" by (rule free_ok_blocks [OF apart seg listed])
  show A: "\<exists>m. ?B y = Some (m, True)" if "y \<in> insert lo (dom (free_map B))" for y
    using that listed by (cases "y = lo") (fastforce simp: add_map_def)+
  show notlink: "k \<noteq> x + 1 \<and> (f \<longrightarrow> k \<noteq> x + n + 1)" if "k \<in> L" "?B x = Some (n, f)" for k x n f
    using link_not_header [OF apart seg that(1) [unfolded L_def] A that(2)] by blast
  have Blo: "?B lo = Some (t, True)" and Bhi: "?B ?hi = Some (0, False)" by (simp_all add: add_map_def)
  show notlo: "lo + 1 \<notin> L" "?hi \<notin> L" "lo + t + 2 \<notin> L"
    using notlink [OF _ Blo] notlink [OF _ Bhi] by auto
  have "link_cells (insert N (dom (free_map B))) \<subseteq> L" by (auto simp: link_cells_def L_def)
  then have "lists_ok N (s\<lparr>mem := m1\<rparr>) (free_map B)"
    using notlo(1) by (intro lists_ok_frame [OF okD(4)]) (auto simp: m1)
  moreover have "free_map B lo = None" using lo by (simp add: free_map_def)
  ultimately show ins: "lists_ok N s2 ?F" "same_outside L (cells m1) (cells (mem s2))"
    unfolding s2_def L_def using insert_free_block_ok [of N "s\<lparr>mem := m1\<rparr>" "free_map B" lo t i j] free ij by simp_all
  show "cells (mem s2) (lo + 1) = size_word t True False"
    using ins(2) notlo(1) by (simp add: same_outside_def m1)
qed

lemma add_pool_ok:
  assumes inv: "tlsf_inv N P s B" and apart: "control_apart N (insert (lo, t) P)" and ok: "pools_ok (insert (lo, t) P)"
    and new: "(lo, t) \<notin> P" and bytes: "(unat bytes - 16) div 8 = t" "16 \<le> unat bytes"
  obtains s' where "tlsf_add_pool (Some s) (ptr (lo + 1)) bytes = Some (Some s', ptr (lo + 1))"
    "tlsf_inv N (insert (lo, t) P) s' (add_map B lo t)"
    "same_outside (own_cells N (insert (lo, t) P) (used_map B)) (cells (mem s)) (cells (mem s'))"
proof -
  let ?hi = "lo + t + 1" and ?B = "add_map B lo t" and ?P = "insert (lo, t) P"
  let ?F = "(free_map B)(lo \<mapsto> t)"
  have heap: "heap_ok N P s B (free_map B)" and co: "coalesced_but {} B" using inv by (simp_all add: tlsf_inv_def)
  note okD = heap_okD [OF heap]
  note lt = pools_okD(1-4) [OF ok insertI1]
  have seg: "segments ?P ?B" by (rule segments_add [OF ok new okD(2)])
  note out = other_pool [OF ok new okD(2)] and pf = prev_free_add [OF ok new okD(2)]
  have fm: "free_map ?B = ?F" by (rule free_map_add [OF new ok okD(2)])
  have lo: "B lo = None" by (rule new_pool_start [OF ok new okD(2)])
  have listed: "?B x = Some (n, True)" if "?F x = Some n" for x n using that by (simp flip: fm)
  have Blo: "?B lo = Some (t, True)" by (simp add: add_map_def)
  obtain i j where ij: "size_class t = (i, j)" by fastforce
  obtain m1 where m1: "cells m1 = (cells (mem s))(lo + 1 := size_word t True False)"
    "cells (mem (insert_free_block (s\<lparr>mem := m1\<rparr>) (ptr lo) i j)) (lo + 1) = size_word t True False \<longrightarrow>
      (\<exists>m6. cells m6 = (cells (mem (insert_free_block (s\<lparr>mem := m1\<rparr>) (ptr lo) i j)))
             (?hi := ptr lo, lo + t + 2 := size_word 0 False True)
        \<and> tlsf_add_pool (Some s) (ptr (lo + 1)) bytes =
            Some (Some ((insert_free_block (s\<lparr>mem := m1\<rparr>) (ptr lo) i j)\<lparr>mem := m6\<rparr>), ptr (lo + 1)))"
    by (rule add_pool_run [OF lt(2-4) bytes ij, where s = s])
  define s2 where "s2 = insert_free_block (s\<lparr>mem := m1\<rparr>) (ptr lo) i j"
  let ?L = "link_cells (insert N (insert lo (dom (free_map B))))"
  note pi = pool_insert_ok [OF inv apart ok new m1(1) ij, folded s2_def]
  note A = pi(2) and notlo = pi(3-5) and ins = pi(6,7)
  have notlink: "k \<noteq> x + 1" "f \<Longrightarrow> k \<noteq> x + n + 1" if "k \<in> ?L" "?B x = Some (n, f)" for k x n f
    using pi(1) [OF that] by blast+
  have "cells (mem s2) (lo + 1) = size_word t True False" by (rule pi(8))
  with m1(2) [folded s2_def] obtain m6 where c6: "cells m6 = (cells (mem s2))(?hi := ptr lo, lo + t + 2 := size_word 0 False True)"
    and run: "tlsf_add_pool (Some s) (ptr (lo + 1)) bytes = Some (Some (s2\<lparr>mem := m6\<rparr>), ptr (lo + 1))"
    by blast
  have c2: "cells (mem s2) k = ((cells (mem s))(lo + 1 := size_word t True False)) k" if "k \<notin> ?L" for k
    using ins(2) that by (simp add: same_outside_def m1(1))
  have "free_map ?B = ?F" by (rule fm)
  have "lists_ok N (s2\<lparr>mem := m6\<rparr>) ?F"
    using ins(1) notlo(2,3) by (rule_tac lists_ok_frame) (auto simp: c6)
  moreover have "headers_ok (cells m6) ?B"
    unfolding headers_ok_def pf(1)
  proof (intro allI impI)
    fix x n f
    assume x: "?B x = Some (n, f)"
    note nl = notlink [OF _ x]
    from x show "cells m6 (x + 1) = size_word n f (x = ?hi \<or> prev_free B x) \<and> (f \<longrightarrow> cells m6 (x + n + 1) = ptr x)"
    proof (cases rule: add_map_cases)
      case 1
      then show ?thesis using notlo(1) c2 [of "lo + 1"] pf(2) lt(3) by (simp add: c6)
    next
      case 2
      then show ?thesis by (simp add: c6)
    next
      case 3
      have "x + 1 \<notin> ?L" using nl(1) by blast
      from c2 [OF this] have "cells m6 (x + 1) = size_word n f (prev_free B x)"
        using headers_okD(1) [OF okD(3) 3(1)] out(1) [OF 3(1)] by (auto simp: c6)
      moreover have "cells m6 (x + n + 1) = ptr x" if f
      proof -
        have "x + n + 1 \<notin> ?L" using nl(2) that by blast
        from c2 [OF this] show ?thesis
          using headers_okD(2) [OF okD(3) 3(1) that] out(2) [OF 3(1) that] by (auto simp: c6)
      qed
      ultimately show ?thesis using 3 by simp
    qed
  qed
  ultimately have "heap_ok N ?P (s2\<lparr>mem := m6\<rparr>) ?B ?F"
    by (intro heap_okI [OF apart seg _ _ listed]) simp_all
  moreover have "coalesced_but {} ?B"
    unfolding coalesced_but_def pf(1)
  proof (intro allI impI)
    fix x n
    assume "?B x = Some (n, True)"
    then show "\<not> (x = ?hi \<or> prev_free B x)"
      by (cases rule: add_map_cases) (use pf(2) lt(3) coalesced_butD [OF co] in auto)
  qed
  ultimately have "tlsf_inv N ?P (s2\<lparr>mem := m6\<rparr>) ?B" by (simp add: tlsf_inv_def fm)
  moreover have "same_outside (own_cells N ?P (used_map B)) (cells (mem s)) (cells m6)"
  proof -
    have used: "used_map ?B = (used_map B)(?hi \<mapsto> 0)" by (rule used_map_add [of B lo t, OF lo])
    have own: "own_cells N ?P (used_map ?B) \<subseteq> own_cells N ?P (used_map B)"
      unfolding used using out(1) by (fastforce simp: own_cells_def)
    have "?L \<subseteq> own_cells N ?P (used_map ?B)" by (rule link_cells_own [OF seg A])
    moreover have "{lo + 1, ?hi, lo + t + 2} \<subseteq> own_cells N ?P (used_map ?B)"
      using own_cells_block [OF seg Blo, of N] by auto
    ultimately have "?L \<union> {lo + 1, ?hi, lo + t + 2} \<subseteq> own_cells N ?P (used_map B)" using own by blast
    moreover have "same_outside (?L \<union> {lo + 1, ?hi, lo + t + 2}) (cells (mem s)) (cells m6)"
      by (simp add: same_outside_def c6 c2)
    ultimately show ?thesis by (rule same_outside_mono [rotated])
  qed
  ultimately show thesis using that [OF run] by simp
qed

text \<open>\<open>tlsf_create_with_pool\<close> on an aligned region: the control structure, then the pool.\<close>

lemma create_ok:
  assumes "N + 3 < cell_limit"
  obtains s where "tlsf_create m (ptr N) = Some s" "tlsf_inv N {} s Map.empty"
    "same_outside (own_cells N {} Map.empty) (cells m) (cells (mem s))"
proof -
  note c = control_construct_ok [OF assms, of m]
  have "control_apart N {}" using assms by (simp add: control_apart_def pool_cells_def)
  moreover have "headers_ok c Map.empty" for c by (simp add: headers_ok_def)
  ultimately have "heap_ok N {} (control_construct m (ptr N)) Map.empty Map.empty"
    using c(1) by (intro heap_okI segments_empty) simp_all
  moreover have "free_map Map.empty = Map.empty" by (rule ext) (simp add: free_map_def)
  ultimately have "tlsf_inv N {} (control_construct m (ptr N)) Map.empty" by (simp add: tlsf_inv_def coalesced_but_def)
  moreover have "same_outside (own_cells N {} Map.empty) (cells m) (cells (mem (control_construct m (ptr N))))"
    using c(2) by (rule same_outside_mono) (auto simp: own_cells_def)
  moreover have "tlsf_create m (ptr N) = Some (control_construct m (ptr N))"
    using ptr_aligned [of N] assms by (simp add: tlsf_create_def)
  ultimately show thesis using that by blast
qed

lemma create_with_pool_ok:
  assumes N: "N + 817 + t + 2 < cell_limit" and t: "3 \<le> t" "t < 2 ^ 29"
    and bytes: "(unat bytes - 6552) div 8 = t" "6552 \<le> unat bytes"
  obtains s where "tlsf_create_with_pool m (ptr N) bytes = Some (Some s)"
    "tlsf_inv N {(N + 816, t)} s (add_map Map.empty (N + 816) t)"
    "same_outside (own_cells N {(N + 816, t)} Map.empty) (cells m) (cells (mem s))"
proof -
  have lim: "N + 3 < cell_limit" "0 < N + 816" "N + 816 + t + 2 < cell_limit" using N by simp_all
  obtain s0 where s0: "tlsf_create m (ptr N) = Some s0" "tlsf_inv N {} s0 Map.empty"
    "same_outside (own_cells N {} Map.empty) (cells m) (cells (mem s0))"
    by (rule create_ok [OF lim(1)])
  have apart: "control_apart N {(N + 816, t)}" using lim by (auto simp: control_apart_def pool_cells_def)
  have ok: "pools_ok {(N + 816, t)}" using lim t by (simp add: pools_ok_def)
  have "unat (bytes - tlsf_size) = unat bytes - 6536"
    using bytes(2) by (simp add: control_size(2) unat_sub word_le_nat_alt)
  then have b: "(unat (bytes - tlsf_size) - 16) div 8 = t" "16 \<le> unat (bytes - tlsf_size)" using bytes by simp_all
  obtain s where s: "tlsf_add_pool (Some s0) (ptr (N + 816 + 1)) (bytes - tlsf_size) = Some (Some s, ptr (N + 816 + 1))"
    "tlsf_inv N {(N + 816, t)} s (add_map Map.empty (N + 816) t)"
    "same_outside (own_cells N {(N + 816, t)} (used_map Map.empty)) (cells (mem s0)) (cells (mem s))"
    by (rule add_pool_ok [OF s0(2) apart ok _ b]) simp
  have at: "ptr N + tlsf_size = ptr (N + 816 + 1)" by (simp add: control_size(3) ptr_add add.assoc)
  have "tlsf_create_with_pool m (ptr N) bytes = Some (Some s)"
    unfolding tlsf_create_with_pool_def s0(1) at s(1) by simp
  moreover have "used_map Map.empty = Map.empty" by (rule ext) (simp add: used_map_def)
  then have "same_outside (own_cells N {(N + 816, t)} Map.empty) (cells m) (cells (mem s))"
    using same_outside_mono [OF s0(3), of "own_cells N {(N + 816, t)} Map.empty"] s(3)
    by (auto simp: own_cells_def pool_cells_def intro: same_outside_trans)
  ultimately show thesis using that s(2) by blast
qed

end
