(* ===== verification/Allocator.thy ===== *)
theory Allocator imports Memory begin

text \<open>
  What a client of a heap relies on. An ideal heap maps the address of each live allocation to its contents;
  \<open>ideal_step\<close> says what a call of the heap may do to it. The interface \<open>allocator\<close> states the laws of an
  implementation over the map of its live allocations, and inside it the implementation is shown to refine the
  ideal heap. The allocator of \<open>tlsf.c\<close> and the kernel interface of \<open>uacpi_kernel.c\<close> are its two instances.
  The interface \<open>full_allocator\<close> extends it by reallocation and aligned allocation; \<open>tlsf.c\<close> is its instance.
\<close>

section \<open>The ideal heap\<close>

type_synonym allocations = "u64 \<Rightarrow> nat option"
type_synonym ideal = "u64 \<Rightarrow> bytes option"

text \<open>The bytes of an allocation.\<close>

definition region :: "u64 \<Rightarrow> nat \<Rightarrow> nat set" where
  "region p k = {unat p ..< unat p + k}"

text \<open>A call of the heap, or a client's write of byte \<open>i\<close> of the allocation \<open>p\<close>.\<close>

datatype heap_op = Malloc u64 | Free u64 | Poke u64 nat u8

fun legal :: "ideal \<Rightarrow> heap_op \<Rightarrow> bool" where
  "legal H (Malloc sz) \<longleftrightarrow> unat sz + 7 < 2 ^ 64"
| "legal H (Free p) \<longleftrightarrow> p = 0 \<or> H p \<noteq> None"
| "legal H (Poke p i v) \<longleftrightarrow> (case H p of None \<Rightarrow> False | Some bs \<Rightarrow> i < length bs)"

text \<open>A fresh allocation: aligned, not below the request, and apart from every live allocation.\<close>

definition fresh :: "ideal \<Rightarrow> u64 \<Rightarrow> nat \<Rightarrow> bool" where
  "fresh H p k \<longleftrightarrow> p \<noteq> 0 \<and> H p = None \<and> unat p mod 8 = 0 \<and> unat p + k < 2 ^ 64
     \<and> (\<forall>q bs. H q = Some bs \<longrightarrow> region p k \<inter> region q (length bs) = {})"

inductive ideal_step :: "ideal \<Rightarrow> heap_op \<Rightarrow> u64 \<Rightarrow> ideal \<Rightarrow> bool" where
  exhausted: "ideal_step H (Malloc sz) 0 H"
| malloc: "fresh H p (length bs) \<Longrightarrow> unat sz \<le> length bs \<Longrightarrow> ideal_step H (Malloc sz) p (H(p \<mapsto> bs))"
| free_null: "ideal_step H (Free 0) r H"
| free: "H p \<noteq> None \<Longrightarrow> ideal_step H (Free p) r (H(p := None))"
| poke: "H p = Some bs \<Longrightarrow> i < length bs \<Longrightarrow> ideal_step H (Poke p i v) r (H(p \<mapsto> bs[i := v]))"

inductive_cases ideal_mallocE: "ideal_step H (Malloc sz) p H'"
inductive_cases ideal_freeE: "ideal_step H (Free p) r H'"
inductive_cases ideal_pokeE: "ideal_step H (Poke p i v) r H'"

text \<open>The client's record of its allocations after a call with result \<open>r\<close> left the memory \<open>m\<close>.\<close>

fun observe :: "memory \<Rightarrow> nat \<Rightarrow> heap_op \<Rightarrow> u64 \<Rightarrow> ideal \<Rightarrow> ideal" where
  "observe m k (Malloc sz) r H = (if r = 0 then H else H(r \<mapsto> mem_bytes m r k))"
| "observe m k (Free p) r H = (if p = 0 then H else H(p := None))"
| "observe m k (Poke p i v) r H = (case H p of None \<Rightarrow> H | Some bs \<Rightarrow> H(p \<mapsto> bs[i := v]))"

definition agrees :: "memory \<Rightarrow> ideal \<Rightarrow> bool" where
  "agrees m H \<longleftrightarrow> (\<forall>p bs. H p = Some bs \<longrightarrow> mem_bytes m p (length bs) = bs)"

abbreviation sizes :: "ideal \<Rightarrow> allocations" where
  "sizes H \<equiv> \<lambda>p. map_option length (H p)"

lemma sizes_upd: "sizes (H(p := v)) = (sizes H)(p := map_option length v)"
  by auto

section \<open>Runs of a client\<close>

fun heap_call ::
    "('s \<Rightarrow> u64 \<Rightarrow> 's \<times> u64) \<Rightarrow> ('s \<Rightarrow> u64 \<Rightarrow> 's) \<Rightarrow> ('s \<Rightarrow> u64 \<Rightarrow> u8 \<Rightarrow> 's) \<Rightarrow> 's \<Rightarrow> heap_op \<Rightarrow> 's \<times> u64" where
  "heap_call malloc free poke s (Malloc sz) = malloc s sz"
| "heap_call malloc free poke s (Free p) = (free s p, 0)"
| "heap_call malloc free poke s (Poke p i v) = (poke s (p + of_nat i) v, 0)"

text \<open>
  The states a client can bring about with operations that \<open>ok\<close> allows, each with the client's record of its
  allocations, which \<open>obs\<close> brings up to date after every call.
\<close>

inductive heap_reachable ::
    "('s \<Rightarrow> bool) \<Rightarrow> (ideal \<Rightarrow> 'op \<Rightarrow> bool) \<Rightarrow> ('s \<Rightarrow> 'op \<Rightarrow> 's \<times> u64) \<Rightarrow> ('s \<Rightarrow> 'op \<Rightarrow> u64 \<Rightarrow> ideal \<Rightarrow> ideal)
      \<Rightarrow> 's \<Rightarrow> ideal \<Rightarrow> bool"
  for init ok call obs where
  start: "init s \<Longrightarrow> heap_reachable init ok call obs s Map.empty"
| step: "heap_reachable init ok call obs s H \<Longrightarrow> ok H op \<Longrightarrow> call s op = (s', r)
    \<Longrightarrow> heap_reachable init ok call obs s' (obs s' op r H)"

text \<open>An invariant of the calls holds in every reachable state.\<close>

lemma heap_reachable_inv:
  assumes "heap_reachable init ok call obs s H"
    and "\<And>s. init s \<Longrightarrow> I s Map.empty"
    and "\<And>s H op s' r. I s H \<Longrightarrow> ok H op \<Longrightarrow> call s op = (s', r) \<Longrightarrow> I s' (obs s' op r H)"
  shows "I s H"
  using assms by induction blast+

section \<open>The laws\<close>

lemma region_byte: "unat p + k < 2 ^ 64 \<Longrightarrow> i < k \<Longrightarrow> unat (p + of_nat i) \<in> region p k"
  by (simp add: region_def unat_add_of_nat)

locale allocator =
  fixes holds :: "'s \<Rightarrow> allocations \<Rightarrow> bool"
    and view :: "'s \<Rightarrow> memory"
    and capacity :: "'s \<Rightarrow> u64 \<Rightarrow> nat"
    and malloc :: "'s \<Rightarrow> u64 \<Rightarrow> 's \<times> u64"
    and free :: "'s \<Rightarrow> u64 \<Rightarrow> 's"
    and poke :: "'s \<Rightarrow> u64 \<Rightarrow> u8 \<Rightarrow> 's"
  assumes live_bounds: "holds s A \<Longrightarrow> A p = Some k \<Longrightarrow> p \<noteq> 0 \<and> unat p mod 8 = 0 \<and> unat p + k < 2 ^ 64"
    and live_disjoint: "holds s A \<Longrightarrow> A p = Some k \<Longrightarrow> A q = Some j \<Longrightarrow> p \<noteq> q \<Longrightarrow> region p k \<inter> region q j = {}"
    and live_capacity: "holds s A \<Longrightarrow> A p = Some k \<Longrightarrow> capacity s p = k"
    and malloc_null: "holds s A \<Longrightarrow> unat sz + 7 < 2 ^ 64 \<Longrightarrow> malloc s sz = (s', 0) \<Longrightarrow> holds s' A"
    and malloc_fresh: "holds s A \<Longrightarrow> unat sz + 7 < 2 ^ 64 \<Longrightarrow> malloc s sz = (s', p) \<Longrightarrow> p \<noteq> 0 \<Longrightarrow>
      A p = None \<and> (\<exists>k\<ge>unat sz. holds s' (A(p \<mapsto> k)))"
    and malloc_keeps: "holds s A \<Longrightarrow> unat sz + 7 < 2 ^ 64 \<Longrightarrow> malloc s sz = (s', p) \<Longrightarrow> A q = Some j \<Longrightarrow>
      unat a \<in> region q j \<Longrightarrow> view s' a = view s a"
    and free_null: "free s 0 = s"
    and free_holds: "holds s A \<Longrightarrow> A p = Some k \<Longrightarrow> holds (free s p) (A(p := None))"
    and free_keeps: "holds s A \<Longrightarrow> A p = Some k \<Longrightarrow> A q = Some j \<Longrightarrow> p \<noteq> q \<Longrightarrow>
      unat a \<in> region q j \<Longrightarrow> view (free s p) a = view s a"
    and poke_holds: "holds s A \<Longrightarrow> A p = Some k \<Longrightarrow> unat a \<in> region p k \<Longrightarrow> holds (poke s a v) A"
    and poke_view: "view (poke s a v) = (view s)(a := v)"
begin

lemma live_byte: "holds s A \<Longrightarrow> A p = Some k \<Longrightarrow> i < k \<Longrightarrow> unat (p + of_nat i) \<in> region p k"
  using live_bounds region_byte by blast

lemma agrees_frame:
  assumes "holds s A" "agrees (view s) H" "\<And>q j a. sizes H q = Some j \<Longrightarrow> unat a \<in> region q j \<Longrightarrow> m' a = view s a"
    and "sizes H \<subseteq>\<^sub>m A"
  shows "agrees m' H"
  unfolding agrees_def
proof (intro allI impI)
  fix p bs
  assume p: "H p = Some bs"
  then have Ap: "A p = Some (length bs)" using assms(4) by (auto simp: map_le_def dom_def)
  have "m' (p + of_nat i) = view s (p + of_nat i)" if "i < length bs" for i
    using live_byte [OF assms(1) Ap that] p by (intro assms(3) [of p "length bs"]) simp_all
  then have "mem_bytes m' p (length bs) = mem_bytes (view s) p (length bs)" by (simp add: mem_bytes_def)
  then show "mem_bytes m' p (length bs) = bs" using assms(2) p by (simp add: agrees_def)
qed

text \<open>A new live allocation is fresh, and the client's record of it is the memory there.\<close>

lemma serve:
  assumes new: "holds s ((sizes H)(p \<mapsto> k))" "p \<noteq> 0" "H p = None" and agr: "agrees (view s) H"
  shows "fresh H p k" "capacity s p = k" "holds s (sizes (H(p \<mapsto> mem_bytes (view s) p k)))"
    "agrees (view s) (H(p \<mapsto> mem_bytes (view s) p k))"
proof -
  show "capacity s p = k" by (rule live_capacity [OF new(1)]) simp
  have "unat p mod 8 = 0 \<and> unat p + k < 2 ^ 64" using live_bounds [OF new(1), of p] by simp
  moreover have "region p k \<inter> region q (length bs) = {}" if "H q = Some bs" for q bs
  proof -
    have "q \<noteq> p" using that new(3) by auto
    then show ?thesis using live_disjoint [OF new(1), of p k q "length bs"] that by simp
  qed
  ultimately show "fresh H p k" using new(2,3) by (simp add: fresh_def)
  show "holds s (sizes (H(p \<mapsto> mem_bytes (view s) p k)))" using new(1) by (simp only: sizes_upd) simp
  show "agrees (view s) (H(p \<mapsto> mem_bytes (view s) p k))" using agr by (auto simp: agrees_def)
qed

text \<open>Every call is a step of the ideal heap, and the implementation's state follows.\<close>

theorem call_refines:
  assumes h: "holds s (sizes H)" and agr: "agrees (view s) H" and leg: "legal H op"
    and call: "heap_call malloc free poke s op = (s', r)"
  defines "H' \<equiv> observe (view s') (capacity s' r) op r H"
  shows "ideal_step H op r H' \<and> holds s' (sizes H') \<and> agrees (view s') H'"
proof (cases op)
  case (Malloc sz)
  then have sz: "unat sz + 7 < 2 ^ 64" and run: "malloc s sz = (s', r)" using leg call by simp_all
  have agr': "agrees (view s') H"
    using malloc_keeps [OF h sz run] by (intro agrees_frame [OF h agr]) auto
  show ?thesis
  proof (cases "r = 0")
    case True
    then show ?thesis
      using malloc_null [OF h sz] run agr' by (simp add: H'_def Malloc exhausted)
  next
    case False
    obtain k where k: "unat sz \<le> k" "holds s' ((sizes H)(r \<mapsto> k))" and new: "H r = None"
      using malloc_fresh [OF h sz run False] by auto
    note sv = serve [OF k(2) False new agr']
    have "H' = H(r \<mapsto> mem_bytes (view s') r k)" using False by (simp add: H'_def Malloc sv(2))
    then show ?thesis using sv(1,3,4) k(1) by (simp add: Malloc malloc)
  qed
next
  case (Free p)
  then have s': "s' = free s p" using call by simp
  show ?thesis
  proof (cases "p = 0")
    case True
    then show ?thesis using h agr by (simp add: H'_def Free s' free_null ideal_step.free_null)
  next
    case False
    then obtain bs where p: "H p = Some bs" using leg Free by auto
    have H': "H' = H(p := None)" using False by (simp add: H'_def Free)
    have sz: "sizes H p = Some (length bs)" using p by simp
    have "agrees (view s') H'"
    proof (rule agrees_frame [OF h])
      show "agrees (view s) H'" using agr by (simp add: H' agrees_def)
      show "view s' a = view s a" if "sizes H' q = Some j" "unat a \<in> region q j" for q j a
        using free_keeps [OF h sz, of q j a] that by (auto simp: s' H' split: if_splits)
      show "sizes H' \<subseteq>\<^sub>m sizes H" by (auto simp: H' map_le_def)
    qed
    moreover have "holds s' (sizes H')" using free_holds [OF h sz] by (simp only: s' H' sizes_upd) simp
    ultimately show ?thesis using p by (simp add: H' Free ideal_step.free)
  qed
next
  case (Poke p i v)
  then obtain bs where p: "H p = Some bs" "i < length bs" using leg by (auto split: option.splits)
  have s': "s' = poke s (p + of_nat i) v" using call Poke by simp
  have H': "H' = H(p \<mapsto> bs[i := v])" using p by (simp add: H'_def Poke)
  have sz: "sizes H p = Some (length bs)" using p by simp
  have "unat (p + of_nat i) \<in> region p (length bs)" by (rule live_byte [OF h sz p(2)])
  then have "holds s' (sizes H)" unfolding s' by (rule poke_holds [OF h sz])
  moreover have "sizes H' = sizes H" using p(1) by (auto simp: H')
  moreover have "agrees (view s') H'"
    unfolding agrees_def
  proof (intro allI impI)
    fix q cs
    assume q: "H' q = Some cs"
    show "mem_bytes (view s') q (length cs) = cs"
    proof (cases "q = p")
      case True
      have small: "unat p + length bs < 2 ^ 64" using live_bounds [OF h sz] by simp
      have "p + of_nat j = p + of_nat i \<longleftrightarrow> j = i" if "j < length bs" for j
      proof
        assume "p + of_nat j = p + of_nat i"
        then have "unat (p + of_nat j) = unat (p + of_nat i)" by simp
        then show "j = i" using small that p(2) by (simp add: unat_add_of_nat)
      qed simp
      moreover have "mem_bytes (view s) p (length bs) = bs" using agr p(1) by (simp add: agrees_def)
      then have "view s (p + of_nat j) = bs ! j" if "j < length bs" for j
        using that nth_mem_bytes [OF that, of "view s" p] by simp
      moreover have "cs = bs[i := v]" using q True by (simp add: H')
      ultimately show ?thesis
        by (intro nth_equalityI) (auto simp: True s' poke_view nth_list_update)
    next
      case False
      then have Hq: "H q = Some cs" using q by (simp add: H')
      then have szq: "sizes H q = Some (length cs)" by simp
      have "p + of_nat i \<noteq> q + of_nat j" if "j < length cs" for j
        using live_disjoint [OF h szq sz False] live_byte [OF h szq that] live_byte [OF h sz p(2)] by auto
      then have "mem_bytes (view s') q (length cs) = mem_bytes (view s) q (length cs)"
        by (intro nth_equalityI) (force simp: s' poke_view)+
      then show ?thesis using agr Hq by (simp add: agrees_def)
    qed
  qed
  ultimately show ?thesis using p by (simp add: H' Poke ideal_step.poke)
qed

theorem reachable_agrees:
  assumes "heap_reachable init legal (heap_call malloc free poke) (\<lambda>s op r. observe (view s) (capacity s r) op r) s H"
    and "\<And>s. init s \<Longrightarrow> holds s Map.empty"
  shows "holds s (sizes H) \<and> agrees (view s) H"
  using assms(1)
proof (rule heap_reachable_inv)
  show "holds s (sizes Map.empty) \<and> agrees (view s) Map.empty" if "init s" for s
    using assms(2) [OF that] by (simp add: agrees_def)
qed (use call_refines in blast)

end

section \<open>Reallocation and aligned allocation\<close>

datatype client_op = Basic heap_op | Realloc u64 u64 | Memalign u64 u64

text \<open>Sizes of a reallocation are bounded by \<open>limit\<close>; an alignment is a power of two.\<close>

fun legal_client :: "nat \<Rightarrow> ideal \<Rightarrow> client_op \<Rightarrow> bool" where
  "legal_client limit H (Basic op) \<longleftrightarrow> legal H op"
| "legal_client limit H (Realloc p sz) \<longleftrightarrow> (if p = 0 then legal H (Malloc sz) else H p \<noteq> None \<and> unat sz \<le> limit)"
| "legal_client limit H (Memalign al sz) \<longleftrightarrow> legal H (Malloc sz) \<and> list_ex (\<lambda>a. al = 2 ^ a) [0..<63]"

text \<open>
  A reallocation is a free and an allocation in one step: the new place may be the old one, and the new contents
  start with the old.
\<close>

inductive client_step :: "ideal \<Rightarrow> client_op \<Rightarrow> u64 \<Rightarrow> ideal \<Rightarrow> bool" where
  basic: "ideal_step H op r H' \<Longrightarrow> client_step H (Basic op) r H'"
| memalign_exhausted: "client_step H (Memalign al sz) 0 H"
| memalign: "fresh H p (length bs) \<Longrightarrow> unat sz \<le> length bs \<Longrightarrow> unat al dvd unat p
    \<Longrightarrow> client_step H (Memalign al sz) p (H(p \<mapsto> bs))"
| realloc_null: "ideal_step H (Malloc sz) r H' \<Longrightarrow> client_step H (Realloc 0 sz) r H'"
| realloc_zero: "H p \<noteq> None \<Longrightarrow> client_step H (Realloc p 0) 0 (H(p := None))"
| realloc_exhausted: "H p \<noteq> None \<Longrightarrow> sz \<noteq> 0 \<Longrightarrow> client_step H (Realloc p sz) 0 H"
| realloc: "H p = Some bs \<Longrightarrow> sz \<noteq> 0 \<Longrightarrow> fresh (H(p := None)) q (length cs) \<Longrightarrow> unat sz \<le> length cs
    \<Longrightarrow> take (min (length bs) (unat sz)) cs = take (min (length bs) (unat sz)) bs
    \<Longrightarrow> client_step H (Realloc p sz) q (H(p := None, q \<mapsto> cs))"

inductive_cases client_basicE: "client_step H (Basic op) r H'"
inductive_cases client_memalignE: "client_step H (Memalign al sz) r H'"
inductive_cases client_reallocE: "client_step H (Realloc p sz) r H'"

fun client_observe :: "memory \<Rightarrow> nat \<Rightarrow> client_op \<Rightarrow> u64 \<Rightarrow> ideal \<Rightarrow> ideal" where
  "client_observe m k (Basic op) r H = observe m k op r H"
| "client_observe m k (Memalign al sz) r H = observe m k (Malloc sz) r H"
| "client_observe m k (Realloc p sz) r H =
     (if p = 0 then observe m k (Malloc sz) r H
      else if sz = 0 then H(p := None)
      else if r = 0 then H else H(p := None, r \<mapsto> mem_bytes m r k))"

fun client_call ::
    "('s \<Rightarrow> heap_op \<Rightarrow> 's \<times> u64) \<Rightarrow> ('s \<Rightarrow> u64 \<Rightarrow> u64 \<Rightarrow> 's \<times> u64) \<Rightarrow> ('s \<Rightarrow> u64 \<Rightarrow> u64 \<Rightarrow> 's \<times> u64)
      \<Rightarrow> 's \<Rightarrow> client_op \<Rightarrow> 's \<times> u64" where
  "client_call call realloc memalign s (Basic op) = call s op"
| "client_call call realloc memalign s (Realloc p sz) = realloc s p sz"
| "client_call call realloc memalign s (Memalign al sz) = memalign s al sz"

lemma unat_pow2: "a < 64 \<Longrightarrow> unat (2 ^ a :: u64) = 2 ^ a"
proof -
  assume "a < 64"
  then have "(2::nat) ^ a < 2 ^ 64" by (intro power_strict_increasing) simp_all
  then show ?thesis using unat_of_nat_u64 [of "2 ^ a"] by simp
qed

locale full_allocator = allocator holds view capacity malloc free poke
  for holds :: "'s \<Rightarrow> allocations \<Rightarrow> bool"
    and view :: "'s \<Rightarrow> memory"
    and capacity :: "'s \<Rightarrow> u64 \<Rightarrow> nat"
    and malloc :: "'s \<Rightarrow> u64 \<Rightarrow> 's \<times> u64"
    and free :: "'s \<Rightarrow> u64 \<Rightarrow> 's"
    and poke :: "'s \<Rightarrow> u64 \<Rightarrow> u8 \<Rightarrow> 's" +
  fixes realloc :: "'s \<Rightarrow> u64 \<Rightarrow> u64 \<Rightarrow> 's \<times> u64"
    and memalign :: "'s \<Rightarrow> u64 \<Rightarrow> u64 \<Rightarrow> 's \<times> u64"
    and limit :: nat
  assumes realloc_nothing: "realloc s 0 sz = malloc s sz"
    and realloc_to_zero: "p \<noteq> 0 \<Longrightarrow> realloc s p 0 = (free s p, 0)"
    and realloc_kept: "holds s A \<Longrightarrow> A p = Some k \<Longrightarrow> sz \<noteq> 0 \<Longrightarrow> unat sz \<le> limit \<Longrightarrow> realloc s p sz = (s', 0) \<Longrightarrow>
      holds s' A \<and> view s' = view s"
    and realloc_served: "holds s A \<Longrightarrow> A p = Some k \<Longrightarrow> sz \<noteq> 0 \<Longrightarrow> unat sz \<le> limit \<Longrightarrow> realloc s p sz = (s', q) \<Longrightarrow> q \<noteq> 0 \<Longrightarrow>
      (q = p \<or> A q = None) \<and> (\<exists>k'\<ge>unat sz. holds s' (A(p := None, q \<mapsto> k')))"
    and realloc_content: "holds s A \<Longrightarrow> A p = Some k \<Longrightarrow> sz \<noteq> 0 \<Longrightarrow> unat sz \<le> limit \<Longrightarrow> realloc s p sz = (s', q) \<Longrightarrow> q \<noteq> 0 \<Longrightarrow>
      i < min k (unat sz) \<Longrightarrow> view s' (q + of_nat i) = view s (p + of_nat i)"
    and realloc_keeps: "holds s A \<Longrightarrow> A p = Some k \<Longrightarrow> sz \<noteq> 0 \<Longrightarrow> unat sz \<le> limit \<Longrightarrow> realloc s p sz = (s', q) \<Longrightarrow> q \<noteq> 0 \<Longrightarrow>
      (A(p := None)) r = Some j \<Longrightarrow> unat a \<in> region r j \<Longrightarrow> view s' a = view s a"
    and memalign_null: "holds s A \<Longrightarrow> unat sz + 7 < 2 ^ 64 \<Longrightarrow> n < 63 \<Longrightarrow> memalign s (2 ^ n) sz = (s', 0) \<Longrightarrow> holds s' A"
    and memalign_fresh: "holds s A \<Longrightarrow> unat sz + 7 < 2 ^ 64 \<Longrightarrow> n < 63 \<Longrightarrow> memalign s (2 ^ n) sz = (s', p) \<Longrightarrow> p \<noteq> 0 \<Longrightarrow>
      A p = None \<and> 2 ^ n dvd unat p \<and> (\<exists>k\<ge>unat sz. holds s' (A(p \<mapsto> k)))"
    and memalign_keeps: "holds s A \<Longrightarrow> unat sz + 7 < 2 ^ 64 \<Longrightarrow> n < 63 \<Longrightarrow> memalign s (2 ^ n) sz = (s', p) \<Longrightarrow>
      A q = Some j \<Longrightarrow> unat a \<in> region q j \<Longrightarrow> view s' a = view s a"
begin

abbreviation run_call :: "'s \<Rightarrow> client_op \<Rightarrow> 's \<times> u64" where
  "run_call \<equiv> client_call (heap_call malloc free poke) realloc memalign"

lemma memalign_refines:
  assumes h: "holds s (sizes H)" and agr: "agrees (view s) H" and sz: "unat sz + 7 < 2 ^ 64" and n: "n < 63"
    and run: "memalign s (2 ^ n) sz = (s', r)"
  defines "H' \<equiv> observe (view s') (capacity s' r) (Malloc sz) r H"
  shows "client_step H (Memalign (2 ^ n) sz) r H' \<and> holds s' (sizes H') \<and> agrees (view s') H'"
proof -
  have agr': "agrees (view s') H"
    using memalign_keeps [OF h sz n run] by (intro agrees_frame [OF h agr]) auto
  show ?thesis
  proof (cases "r = 0")
    case True
    then show ?thesis using memalign_null [OF h sz n] run agr' by (simp add: H'_def memalign_exhausted)
  next
    case False
    obtain k where k: "unat sz \<le> k" "holds s' ((sizes H)(r \<mapsto> k))" and new: "H r = None" "2 ^ n dvd unat r"
      using memalign_fresh [OF h sz n run False] by auto
    note sv = serve [OF k(2) False new(1) agr']
    have "unat (2 ^ n :: u64) = 2 ^ n" using n by (intro unat_pow2) simp
    moreover have "H' = H(r \<mapsto> mem_bytes (view s') r k)" using False by (simp add: H'_def sv(2))
    ultimately show ?thesis using sv(1,3,4) k(1) new(2) by (simp add: client_step.memalign)
  qed
qed

lemma realloc_refines:
  assumes h: "holds s (sizes H)" and agr: "agrees (view s) H" and p: "H p = Some bs" and sz: "sz \<noteq> 0" "unat sz \<le> limit"
    and run: "realloc s p sz = (s', r)"
  defines "H' \<equiv> (if r = 0 then H else H(p := None, r \<mapsto> mem_bytes (view s') r (capacity s' r)))"
  shows "client_step H (Realloc p sz) r H' \<and> holds s' (sizes H') \<and> agrees (view s') H'"
proof (cases "r = 0")
  case True
  have live: "sizes H p = Some (length bs)" using p by simp
  show ?thesis
    using realloc_kept [OF h live sz] run True agr p sz(1) by (simp add: H'_def realloc_exhausted)
next
  case False
  have live: "sizes H p = Some (length bs)" using p by simp
  define H0 where "H0 = H(p := None)"
  have s0: "sizes H0 = (sizes H)(p := None)" by (auto simp: H0_def)
  obtain k where k: "unat sz \<le> k" "holds s' ((sizes H0)(r \<mapsto> k))" and "r = p \<or> sizes H r = None"
    using realloc_served [OF h live sz run False] unfolding s0 by auto
  then have new: "H0 r = None" by (auto simp: H0_def)
  have agr': "agrees (view s') H0"
  proof (rule agrees_frame [OF h])
    show "agrees (view s) H0" using agr by (simp add: H0_def agrees_def)
    show "view s' a = view s a" if "sizes H0 q = Some j" "unat a \<in> region q j" for q j a
      using realloc_keeps [OF h live sz run False, of q j a, folded s0] that by blast
    show "sizes H0 \<subseteq>\<^sub>m sizes H" by (auto simp: H0_def map_le_def)
  qed
  note sv = serve [OF k(2) False new agr']
  define cs where "cs = mem_bytes (view s') r k"
  have H': "H' = H(p := None, r \<mapsto> cs)" using False by (simp add: H'_def sv(2) cs_def)
  have bs: "mem_bytes (view s) p (length bs) = bs" using agr p by (simp add: agrees_def)
  have same: "cs ! i = bs ! i" if i: "i < min (length bs) (unat sz)" for i
  proof -
    have "cs ! i = view s' (r + of_nat i)" using i k(1) by (simp add: cs_def)
    also have "\<dots> = view s (p + of_nat i)" by (rule realloc_content [OF h live sz run False i])
    also have "\<dots> = mem_bytes (view s) p (length bs) ! i" using i by simp
    finally show ?thesis by (simp add: bs)
  qed
  have "take (min (length bs) (unat sz)) cs = take (min (length bs) (unat sz)) bs"
    using k(1) same by (intro nth_take_lemma) (simp_all add: cs_def)
  then have "client_step H (Realloc p sz) r H'"
    unfolding H' using p sz(1) sv(1) k(1) by (intro realloc [of H p bs]) (simp_all add: H0_def cs_def)
  then show ?thesis using sv(3,4) by (simp add: H' H0_def cs_def)
qed

theorem client_refines:
  assumes h: "holds s (sizes H)" and agr: "agrees (view s) H" and leg: "legal_client limit H op"
    and call: "run_call s op = (s', r)"
  defines "H' \<equiv> client_observe (view s') (capacity s' r) op r H"
  shows "client_step H op r H' \<and> holds s' (sizes H') \<and> agrees (view s') H'"
proof (cases op)
  case (Basic op')
  then show ?thesis using call_refines [OF h agr, of op' s' r] leg call by (simp add: H'_def basic)
next
  case (Memalign al sz)
  then obtain n where n: "al = 2 ^ n" "n < 63" and sz: "unat sz + 7 < 2 ^ 64" using leg by (auto simp: list_ex_iff)
  show ?thesis using memalign_refines [OF h agr sz n(2), of s' r] call by (simp add: Memalign n(1) H'_def)
next
  case (Realloc p sz)
  consider "p = 0" | "p \<noteq> 0" "sz = 0" | "p \<noteq> 0" "sz \<noteq> 0" by blast
  then show ?thesis
  proof cases
    case 1
    then show ?thesis
      using call_refines [OF h agr, of "Malloc sz" s' r] leg call
      by (simp add: Realloc H'_def realloc_nothing realloc_null)
  next
    case 2
    then obtain bs where p: "H p = Some bs" and r: "s' = free s p" "r = 0"
      using leg call by (auto simp: Realloc realloc_to_zero)
    have "H' = observe (view s') (capacity s' 0) (Free p) 0 H" using 2 by (simp add: H'_def Realloc)
    then show ?thesis
      using call_refines [OF h agr, of "Free p" s' 0] 2 p r by (simp add: Realloc realloc_zero)
  next
    case 3
    then obtain bs where "H p = Some bs" "unat sz \<le> limit" using leg by (auto simp: Realloc)
    then show ?thesis using realloc_refines [OF h agr _ 3(2), of p bs s' r] call 3 by (simp add: Realloc H'_def)
  qed
qed

theorem client_reachable:
  assumes "heap_reachable init (legal_client limit) run_call (\<lambda>s op r. client_observe (view s) (capacity s r) op r) s H"
    and "\<And>s. init s \<Longrightarrow> holds s Map.empty"
  shows "holds s (sizes H) \<and> agrees (view s) H"
  using assms(1)
proof (rule heap_reachable_inv)
  show "holds s (sizes Map.empty) \<and> agrees (view s) Map.empty" if "init s" for s
    using assms(2) [OF that] by (simp add: agrees_def)
qed (use client_refines in blast)

end

end
