(* ===== verification/TlsfState.thy ===== *)
theory TlsfState imports TlsfPool Allocator begin

text \<open>
  The allocator as its clients see it: a state and the map of the live allocations, from the address of each to
  its size in bytes. \<open>tlsf_state\<close> relates the two; creation, \<open>tlsf_malloc\<close> and \<open>tlsf_free\<close> are steps of the map
  that keep live allocations disjoint, aligned, inside the pools and unchanged in content. A client also writes
  to its allocations; the invariant holds after every sequence of these steps.
\<close>

unbundle bit_operations_syntax

declare One_nat_def [simp del] add_2_eq_Suc [simp del] add_2_eq_Suc' [simp del]

section \<open>Live allocations\<close>

definition allocations :: "block_map \<Rightarrow> allocations" where
  "allocations B p =
     (if unat p mod 8 = 0 \<and> 16 \<le> unat p
      then case B (unat p div 8 - 2) of Some (n, False) \<Rightarrow> if n = 0 then None else Some (8 * n) | _ \<Rightarrow> None
      else None)"

definition tlsf_state :: "u64 \<Rightarrow> pools \<Rightarrow> control_t \<Rightarrow> allocations \<Rightarrow> bool" where
  "tlsf_state base P s A \<longleftrightarrow> (\<exists>N B. base = ptr N \<and> N + 817 \<le> cell_limit \<and> tlsf_inv N P s B \<and> A = allocations B)"

lemma allocations_ptr:
  assumes "x + 2 < cell_limit"
  shows "allocations B (ptr (x + 2)) = (case B x of Some (n, False) \<Rightarrow> if n = 0 then None else Some (8 * n) | _ \<Rightarrow> None)"
  by (simp add: allocations_def unat_ptr [OF assms])

lemma allocations_cell:
  assumes "allocations B p = Some k"
  obtains x n where "p = ptr (x + 2)" "B x = Some (n, False)" "k = 8 * n" "0 < n"
proof -
  have p: "unat p mod 8 = 0" "16 \<le> unat p" using assms by (auto simp: allocations_def split: if_splits)
  have "2 \<le> unat p div 8" using p(2) by simp
  then have x: "p = ptr (unat p div 8 - 2 + 2)" using aligned_ptr [OF p(1)] by simp
  obtain n where "B (unat p div 8 - 2) = Some (n, False)" "k = 8 * n" "0 < n"
    using assms p by (auto simp: allocations_def split: option.splits prod.splits if_splits bool.splits)
  with x that show thesis by blast
qed

lemma allocations_upd:
  assumes "used_map B' = (used_map B)(x := v)" "x + 2 < cell_limit" "v \<noteq> Some 0"
  shows "allocations B' = (allocations B)(ptr (x + 2) := map_option (\<lambda>n. 8 * n) v)"
proof
  fix p
  have eq: "(case B z of Some (n, False) \<Rightarrow> if n = 0 then None else Some (8 * n) | _ \<Rightarrow> None) =
      (case used_map B z of None \<Rightarrow> None | Some n \<Rightarrow> if n = 0 then None else Some (8 * n))" for B z
    by (simp add: used_map_def split: option.splits bool.splits)
  show "allocations B' p = ((allocations B)(ptr (x + 2) := map_option (\<lambda>n. 8 * n) v)) p"
  proof (cases "p = ptr (x + 2)")
    case True
    then show ?thesis
      unfolding True using assms(1,3) by (simp add: allocations_ptr [OF assms(2)] eq split: option.splits)
  next
    case False
    have "unat p div 8 - 2 \<noteq> x" if "unat p mod 8 = 0" "16 \<le> unat p"
    proof
      assume "unat p div 8 - 2 = x"
      then have "unat p div 8 = x + 2" using that(2) by auto
      then show False using aligned_ptr [OF that(1)] False by simp
    qed
    then show ?thesis using False by (simp add: allocations_def eq assms(1))
  qed
qed

section \<open>Bytes and cells\<close>

lemma same_outside_byte:
  assumes "same_outside S (cells m) (cells m')" "k \<notin> S" "k < cell_limit" "i < 8"
  shows "m' (ptr k + of_nat i) = m (ptr k + of_nat i)"
proof -
  have "load64 m' (ptr k) = load64 m (ptr k)"
    using assms(1) [unfolded same_outside_def, rule_format, OF assms(2)] assms(3) by (simp add: cells_def)
  then have "le_bytes 8 (le_word (mem_bytes m' (ptr k) 8) :: u64) = le_bytes 8 (le_word (mem_bytes m (ptr k) 8) :: u64)"
    by (simp add: load_def)
  then have "mem_bytes m' (ptr k) 8 = mem_bytes m (ptr k) 8"
    by (simp add: le_bytes_le_word)
  then have "mem_bytes m' (ptr k) 8 ! i = mem_bytes m (ptr k) 8 ! i" by simp
  then show ?thesis using assms(4) by simp
qed

lemma byte_cell: "a = ptr (unat a div 8) + of_nat (unat a mod 8)" "unat a div 8 < cell_limit"
proof -
  have "of_nat (8 * (unat a div 8) + unat a mod 8) = a" by simp
  then show "a = ptr (unat a div 8) + of_nat (unat a mod 8)" by (simp only: ptr_def of_nat_add)
  have "unat a < 2 ^ 61 * 8" using unsigned_less [of a, where 'a = nat] by simp
  then show "unat a div 8 < cell_limit" unfolding cell_limit_def by (rule less_mult_imp_div_less)
qed

lemma same_outside_mem:
  "same_outside S (cells m) (cells m') \<Longrightarrow> unat a div 8 \<notin> S \<Longrightarrow> m' a = m a"
  using same_outside_byte [of S m m' "unat a div 8" "unat a mod 8"] byte_cell [of a] by simp

text \<open>Writing bytes changes no other cell.\<close>

lemma cells_byte_write:
  assumes "unat a div 8 \<noteq> k"
  shows "cells (m(a := v)) k = cells m k"
proof (cases "k < cell_limit")
  case True
  have "ptr k + of_nat i \<noteq> a" if "i < 8" for i
  proof
    assume "ptr k + of_nat i = a"
    then have "unat a = 8 * k + i"
      using unat_add_of_nat [of "ptr k" i] that True by (simp add: unat_ptr [OF True] cell_limit_def)
    then show False using assms that by simp
  qed
  then have "mem_bytes (m(a := v)) (ptr k) 8 = mem_bytes m (ptr k) 8" by (intro nth_equalityI) simp_all
  then show ?thesis using True by (simp add: cells_def load_def)
qed (simp add: cells_def)

section \<open>The contract\<close>

text \<open>
  What every operation leaves alone: the live allocations \<open>A\<close> and everything outside of the control structure of
  6536 bytes and the pools.
\<close>

definition outside :: "u64 \<Rightarrow> pools \<Rightarrow> u64 \<Rightarrow> bool" where
  "outside base P a \<longleftrightarrow> \<not> (unat base \<le> unat a \<and> unat a < unat base + 6536) \<and> unat a div 8 \<notin> pool_cells P"

definition keeps :: "u64 \<Rightarrow> pools \<Rightarrow> allocations \<Rightarrow> memory \<Rightarrow> memory \<Rightarrow> bool" where
  "keeps base P A m m' \<longleftrightarrow> (\<forall>a. (\<exists>p k. A p = Some k \<and> unat a \<in> region p k) \<or> outside base P a \<longrightarrow> m' a = m a)"

lemma keepsI:
  assumes "\<And>a p k. A p = Some k \<Longrightarrow> unat a \<in> region p k \<Longrightarrow> m' a = m a"
    and "\<And>a. outside base P a \<Longrightarrow> m' a = m a"
  shows "keeps base P A m m'"
  using assms unfolding keeps_def by blast

lemma keeps_live: "keeps base P A m m' \<Longrightarrow> A p = Some k \<Longrightarrow> unat a \<in> region p k \<Longrightarrow> m' a = m a"
  unfolding keeps_def by blast

lemma keeps_outside: "keeps base P A m m' \<Longrightarrow> outside base P a \<Longrightarrow> m' a = m a"
  unfolding keeps_def by blast

text \<open>A relation of state and block map with the cells of the control structure.\<close>

lemma tlsf_stateI: "base = ptr N \<Longrightarrow> N + 817 \<le> cell_limit \<Longrightarrow> tlsf_inv N P s B \<Longrightarrow> allocations B = A \<Longrightarrow> tlsf_state base P s A"
  unfolding tlsf_state_def by blast

lemma tlsf_stateE:
  assumes "tlsf_state base P s A"
  obtains N B where "base = ptr N" "N + 817 \<le> cell_limit" "tlsf_inv N P s B" "A = allocations B" "segments P B"
    "unat base = 8 * N" "control_apart N P"
proof -
  obtain N B where *: "base = ptr N" "N + 817 \<le> cell_limit" "tlsf_inv N P s B" "A = allocations B"
    using assms unfolding tlsf_state_def by blast
  moreover have "segments P B" "control_apart N P" using *(3) heap_okD(1,2) unfolding tlsf_inv_def by blast+
  moreover have "unat base = 8 * N" using *(1,2) by (simp add: unat_ptr)
  ultimately show thesis using that by blast
qed

lemma live_block:
  assumes "segments P B" "allocations B p = Some k"
  obtains x n where "p = ptr (x + 2)" "B x = Some (n, False)" "k = 8 * n" "0 < n" "unat p = 8 * (x + 2)"
    "{x + 1 .. x + n + 2} \<subseteq> pool_cells P" "3 \<le> n" "x + n + 2 < cell_limit"
proof -
  obtain x n where x: "p = ptr (x + 2)" "B x = Some (n, False)" "k = 8 * n" "0 < n"
    using assms(2) by (rule allocations_cell)
  note bf = block_facts [OF assms(1) x(2,4)]
  then show thesis using that x unat_ptr [of "x + 2"] by simp
qed

lemma region_cell:
  "unat p = 8 * (x + 2) \<Longrightarrow> unat (a :: u64) \<in> region p (8 * n) \<longleftrightarrow> x + 2 \<le> unat a div 8 \<and> unat a div 8 \<le> x + n + 1"
  by (auto simp: region_def)

text \<open>Live allocations are aligned, lie inside a pool and do not overlap.\<close>

lemma tlsf_live:
  assumes "tlsf_state base P s A" "A p = Some k"
  shows "unat p mod 8 = 0" "24 \<le> k" "unat p + k < 2 ^ 64"
    and "\<exists>lo t. (lo, t) \<in> P \<and> 8 * (lo + 2) \<le> unat p \<and> unat p + k \<le> 8 * (lo + t + 2)"
    and "A q = Some j \<Longrightarrow> p \<noteq> q \<Longrightarrow> region p k \<inter> region q j = {}"
proof -
  obtain N B where st: "base = ptr N" "N + 817 \<le> cell_limit" "tlsf_inv N P s B" "A = allocations B" "segments P B"
    "unat base = 8 * N" "control_apart N P"
    by (rule tlsf_stateE [OF assms(1)])
  have Ap: "allocations B p = Some k" using assms(2) st(4) by simp
  obtain x n where x: "p = ptr (x + 2)" "B x = Some (n, False)" "k = 8 * n" "0 < n" "unat p = 8 * (x + 2)"
    "{x + 1 .. x + n + 2} \<subseteq> pool_cells P" "3 \<le> n" "x + n + 2 < cell_limit"
    by (rule live_block [OF st(5) Ap])
  show "unat p mod 8 = 0" "24 \<le> k" "unat p + k < 2 ^ 64" using x by (simp_all add: cell_limit_def)
  obtain lo t where "(lo, t) \<in> P" "lo \<le> x" "x + n \<le> lo + t" using segmentsD(6) [OF st(5) x(2,4)] by blast
  then show "\<exists>lo t. (lo, t) \<in> P \<and> 8 * (lo + 2) \<le> unat p \<and> unat p + k \<le> 8 * (lo + t + 2)"
    by (intro exI [of _ lo] exI [of _ t]) (simp add: x(3,5))
  assume q: "A q = Some j" "p \<noteq> q"
  have Aq: "allocations B q = Some j" using q(1) st(4) by simp
  obtain y m where y: "q = ptr (y + 2)" "B y = Some (m, False)" "j = 8 * m" "0 < m" "unat q = 8 * (y + 2)"
    "{y + 1 .. y + m + 2} \<subseteq> pool_cells P" "3 \<le> m" "y + m + 2 < cell_limit"
    by (rule live_block [OF st(5) Aq])
  have "x \<noteq> y" using q(2) x(1) y(1) by auto
  then have "x + n + 1 \<le> y \<or> y + m + 1 \<le> x" by (rule blocks_disjoint [OF st(5) x(2) y(2)])
  then show "region p k \<inter> region q j = {}" by (auto simp: region_def x(3,5) y(3,5))
qed

lemma live_not_outside:
  assumes "tlsf_state base P s A" "A p = Some k" "unat a \<in> region p k"
  shows "\<not> outside base P a"
proof -
  obtain lo t where p: "(lo, t) \<in> P" "8 * (lo + 2) \<le> unat p" "unat p + k \<le> 8 * (lo + t + 2)"
    using tlsf_live(4) [OF assms(1,2)] by blast
  have "8 * (lo + 1) \<le> unat a \<and> unat a < 8 * (lo + t + 2)" using p(2,3) assms(3) by (auto simp: region_def)
  then have "lo + 1 \<le> unat a div 8 \<and> unat a div 8 \<le> lo + t + 2" by auto
  then show ?thesis using pool_cellsI [OF p(1)] by (auto simp: outside_def)
qed

lemma own_cells_keeps:
  assumes apart: "control_apart N P" and seg: "segments P B" and same: "same_outside (own_cells N P U) (cells m) (cells m')"
    and U: "\<And>x n. used_map B x = Some n \<Longrightarrow> n \<noteq> 0 \<Longrightarrow> ptr (x + 2) \<in> dom A \<Longrightarrow> U x = Some n"
    and A: "A \<subseteq>\<^sub>m allocations B" and base: "unat base = 8 * N"
  shows "keeps base P A m m'"
proof (rule keepsI)
  fix a :: u64 and p k
  assume Ap: "A p = Some k" and a: "unat a \<in> region p k"
  have "allocations B p = Some k" using Ap A by (auto simp: map_le_def dom_def)
  then obtain x n where x: "p = ptr (x + 2)" "B x = Some (n, False)" "k = 8 * n" "0 < n" "unat p = 8 * (x + 2)"
    "{x + 1 .. x + n + 2} \<subseteq> pool_cells P" "3 \<le> n" "x + n + 2 < cell_limit"
    by (rule live_block [OF seg])
  have "U x = Some n" using U [of x n] x(1,2,7) Ap by auto
  moreover have in_block: "x + 2 \<le> unat a div 8 \<and> unat a div 8 \<le> x + n + 1"
    using a unfolding x(3) region_cell [OF x(5)] .
  moreover have "unat a div 8 \<noteq> N + 2 \<and> unat a div 8 \<noteq> N + 3"
    using in_block x(6) apart by (intro control_not_pool) auto
  ultimately have "unat a div 8 \<notin> own_cells N P U" by (auto simp: own_cells_def)
  then show "m' a = m a" by (rule same_outside_mem [OF same])
next
  fix a :: u64
  assume a: "outside base P a"
  then have "unat a div 8 \<noteq> N + 2" "unat a div 8 \<noteq> N + 3" using base by (auto simp: outside_def)
  then have "unat a div 8 \<notin> own_cells N P U" using a by (auto simp: own_cells_def outside_def)
  then show "m' a = m a" by (rule same_outside_mem [OF same])
qed

lemma tlsf_malloc_contract:
  assumes st: "tlsf_state base P s A" and sz: "unat sz + 7 < 2 ^ 64"
  obtains "tlsf_malloc s sz = (s, 0)"
  | s' p k where "tlsf_malloc s sz = (s', p)" "p \<noteq> 0" "A p = None" "unat sz \<le> k" "k \<le> max 24 (unat sz + 7) + 24"
    "tlsf_state base P s' (A(p \<mapsto> k))" "keeps base P A (mem s) (mem s')" "0 < unat sz"
proof -
  obtain N B where a: "base = ptr N" "N + 817 \<le> cell_limit" "tlsf_inv N P s B" "A = allocations B" "segments P B"
    "unat base = 8 * N" "control_apart N P"
    by (rule tlsf_stateE [OF st])
  let ?k = "request_cells (unat sz)"
  show thesis
  proof (rule tlsf_malloc_ok [OF a(3) sz])
    assume "tlsf_malloc s sz = (s, 0)"
    then show thesis by (rule that(1))
  next
    fix s' B' x n j
    assume m: "tlsf_malloc s sz = (s', ptr (x + 2))" "tlsf_inv N P s' B'" "B x = Some (n, True)"
      "j = (if ?k + 4 \<le> n then ?k else n)" "?k \<le> n" "0 < ?k" "used_map B' = (used_map B)(x \<mapsto> j)"
      "same_outside (own_cells N P (used_map B)) (cells (mem s)) (cells (mem s'))"
    note bf = block_facts [OF a(5) m(3) free_not_sentinel [OF a(5) m(3)]]
    have lim: "x + 2 < cell_limit" using bf(2,4) by simp
    have j: "?k \<le> j" "j < ?k + 4" "j \<noteq> 0" using m(4-6) by auto
    have eq: "allocations B' = A(ptr (x + 2) \<mapsto> 8 * j)"
      using allocations_upd [OF m(7) lim] j(3) by (simp add: a(4))
    have "tlsf_state base P s' (A(ptr (x + 2) \<mapsto> 8 * j))"
      by (rule tlsf_stateI [OF a(1,2) m(2) eq])
    moreover have "A (ptr (x + 2)) = None" using m(3) by (simp add: a(4) allocations_ptr [OF lim])
    moreover have "unat sz \<le> 8 * j" using request_cells(3) [OF sz] m(6) j(1) by simp
    moreover have "8 * j \<le> max 24 (unat sz + 7) + 24"
    proof -
      have "adjusted (unat sz) \<noteq> 0" using m(6) by (auto simp: request_cells_def)
      then have "adjusted (unat sz) \<le> max 24 (unat sz + 7)" "8 * ?k = adjusted (unat sz)"
        using adjusted_props [of "unat sz"] by (simp_all add: request_cells_def)
      then show ?thesis using j(2) by simp
    qed
    moreover have "keeps base P A (mem s) (mem s')"
      by (rule own_cells_keeps [OF a(7,5) m(8) _ _ a(6)]) (simp_all add: a(4))
    moreover have "ptr (x + 2) \<noteq> 0" using lim by (intro ptr_nonzero) simp_all
    moreover have "0 < unat sz" using m(6) by (cases "unat sz = 0") (simp_all add: request_cells_def adjusted_def)
    ultimately show thesis using that(2) [OF m(1)] by blast
  qed
qed

lemma tlsf_free_contract:
  assumes st: "tlsf_state base P s A" and p: "A p = Some k"
  shows "tlsf_state base P (tlsf_free s p) (A(p := None))" "keeps base P (A(p := None)) (mem s) (mem (tlsf_free s p))"
proof -
  obtain N B where a: "base = ptr N" "N + 817 \<le> cell_limit" "tlsf_inv N P s B" "A = allocations B" "segments P B"
    "unat base = 8 * N" "control_apart N P"
    by (rule tlsf_stateE [OF st])
  have Ap: "allocations B p = Some k" using p a(4) by simp
  obtain x n where x: "p = ptr (x + 2)" "B x = Some (n, False)" "k = 8 * n" "0 < n" "unat p = 8 * (x + 2)"
    "{x + 1 .. x + n + 2} \<subseteq> pool_cells P" "3 \<le> n" "x + n + 2 < cell_limit"
    by (rule live_block [OF a(5) Ap])
  obtain B' where B': "tlsf_inv N P (tlsf_free s (ptr (x + 2))) B'" "used_map B' = (used_map B)(x := None)"
    "same_outside (own_cells N P ((used_map B)(x := None))) (cells (mem s)) (cells (mem (tlsf_free s (ptr (x + 2)))))"
    by (rule tlsf_free_ok [OF a(3) x(2,4)])
  have lim: "x + 2 < cell_limit" using x(8) by simp
  have eq: "allocations B' = A(ptr (x + 2) := None)" using allocations_upd [OF B'(2) lim] by (simp add: a(4))
  show "tlsf_state base P (tlsf_free s p) (A(p := None))"
    unfolding x(1) by (rule tlsf_stateI [OF a(1,2) B'(1) eq])
  show "keeps base P (A(p := None)) (mem s) (mem (tlsf_free s p))"
    unfolding x(1)
  proof (rule own_cells_keeps [OF a(7,5) B'(3) _ _ a(6)])
    show "((used_map B)(x := None)) y = Some m"
      if "used_map B y = Some m" "m \<noteq> 0" "ptr (y + 2) \<in> dom (A(ptr (x + 2) := None))" for y m
      using that by auto
    show "A(ptr (x + 2) := None) \<subseteq>\<^sub>m allocations B" by (auto simp: a(4) map_le_def)
  qed
qed

text \<open>The contents of the live allocations belong to the client.\<close>

lemma tlsf_inv_payload:
  assumes "tlsf_inv N P s B" "\<And>k. k \<in> own_cells N P (used_map B) \<Longrightarrow> cells m k = cells (mem s) k"
  shows "tlsf_inv N P (s\<lparr>mem := m\<rparr>) B"
proof -
  have ok: "heap_ok N P s B (free_map B)" and co: "coalesced_but {} B" using assms(1) by (simp_all add: tlsf_inv_def)
  note okD = heap_okD [OF ok]
  have "headers_ok (cells m) B"
    using okD(3)
  proof (rule headers_frame)
    show "cells m (x + 1) = cells (mem s) (x + 1)" if "B x = Some (n, f)" for x n f
      by (rule assms(2) [OF own_cells_header [OF okD(2) that]])
    show "cells m (x + n + 1) = cells (mem s) (x + n + 1)" if x: "B x = Some (n, True)" for x n
      using block_facts(2) [OF okD(2) x free_not_sentinel [OF okD(2) x]]
      by (intro assms(2) own_cells_free [OF okD(2) x]) simp_all
  qed
  moreover have "lists_ok N (s\<lparr>mem := m\<rparr>) (free_map B)"
  proof (rule lists_ok_frame [OF okD(4)])
    have sub: "link_cells (insert N (dom (free_map B))) \<subseteq> own_cells N P (used_map B)"
      by (rule link_cells_own [OF okD(2)]) (auto simp: dom_def)
    show "cells m k = cells (mem s) k" if "k \<in> link_cells (insert N (dom (free_map B)))" for k
      using assms(2) that sub by blast
  qed
  ultimately have "heap_ok N P (s\<lparr>mem := m\<rparr>) B (free_map B)"
    using okD(5) by (intro heap_okI [OF okD(1,2)]) simp_all
  then show ?thesis using co by (simp add: tlsf_inv_def)
qed

lemma tlsf_write_contract:
  assumes st: "tlsf_state base P s A" and p: "A p = Some k" "unat a \<in> region p k"
  shows "tlsf_state base P (s\<lparr>mem := (mem s)(a := v)\<rparr>) A"
proof -
  obtain N B where b: "base = ptr N" "N + 817 \<le> cell_limit" "tlsf_inv N P s B" "A = allocations B" "segments P B"
    "unat base = 8 * N" "control_apart N P"
    by (rule tlsf_stateE [OF st])
  have Ap: "allocations B p = Some k" using p(1) b(4) by simp
  obtain x n where x: "p = ptr (x + 2)" "B x = Some (n, False)" "k = 8 * n" "0 < n" "unat p = 8 * (x + 2)"
    "{x + 1 .. x + n + 2} \<subseteq> pool_cells P" "3 \<le> n" "x + n + 2 < cell_limit"
    by (rule live_block [OF b(5) Ap])
  have "x + 2 \<le> unat a div 8 \<and> unat a div 8 \<le> x + n + 1"
    using p(2) unfolding x(3) region_cell [OF x(5)] .
  moreover from this have "unat a div 8 \<in> pool_cells P" using x(6) by auto
  then have "unat a div 8 \<noteq> N + 2 \<and> unat a div 8 \<noteq> N + 3" by (rule control_not_pool [OF b(7)])
  ultimately have "unat a div 8 \<notin> own_cells N P (used_map B)"
    using x(2) by (auto simp: own_cells_def)
  then have "cells ((mem s)(a := v)) j = cells (mem s) j" if "j \<in> own_cells N P (used_map B)" for j
    using that by (intro cells_byte_write) auto
  then have "tlsf_inv N P (s\<lparr>mem := (mem s)(a := v)\<rparr>) B" by (rule tlsf_inv_payload [OF b(3)])
  then show ?thesis unfolding tlsf_state_def using b(1,2,4) by blast
qed

text \<open>What is outside belongs to nobody here.\<close>

lemma tlsf_outside_contract:
  assumes st: "tlsf_state base P s A" and a: "outside base P a"
  shows "tlsf_state base P (s\<lparr>mem := (mem s)(a := v)\<rparr>) A"
proof -
  obtain N B where b: "base = ptr N" "N + 817 \<le> cell_limit" "tlsf_inv N P s B" "A = allocations B" "segments P B"
    "unat base = 8 * N" "control_apart N P"
    by (rule tlsf_stateE [OF st])
  have "unat a div 8 \<noteq> N + 2" "unat a div 8 \<noteq> N + 3" using a b(6) by (auto simp: outside_def)
  then have "unat a div 8 \<notin> own_cells N P (used_map B)" using a by (auto simp: own_cells_def outside_def)
  then have "cells ((mem s)(a := v)) j = cells (mem s) j" if "j \<in> own_cells N P (used_map B)" for j
    using that by (intro cells_byte_write) auto
  then have "tlsf_inv N P (s\<lparr>mem := (mem s)(a := v)\<rparr>) B" by (rule tlsf_inv_payload [OF b(3)])
  then show ?thesis by (rule tlsf_stateI [OF b(1,2)]) (simp add: b(4))
qed

text \<open>The pool of \<open>t\<close> cells behind the control structure, as \<open>tlsf_create_with_pool\<close> makes it.\<close>

definition arena_pools :: "u64 \<Rightarrow> nat \<Rightarrow> pools" where
  "arena_pools base t = {(unat base div 8 + 816, t)}"

lemma arena_outside:
  assumes "unat base mod 8 = 0"
  shows "outside base (arena_pools base t) a \<longleftrightarrow> unat a < unat base \<or> unat base + 6552 + 8 * t \<le> unat a"
proof -
  define N where "N = unat base div 8"
  have "unat base = 8 * N" using assms by (auto simp: N_def)
  then show ?thesis
    unfolding outside_def arena_pools_def pool_cells_def N_def [symmetric] by auto
qed

lemma allocations_add:
  assumes "B (lo + t + 1) = None" "B lo = None"
  shows "allocations (add_map B lo t) = allocations B"
  using assms by (intro ext) (auto simp: allocations_def add_map_def split: option.splits bool.splits prod.splits)

lemma tlsf_create_contract:
  assumes base: "unat base mod 8 = 0" and bytes: "6576 \<le> unat bytes" "unat bytes < 2 ^ 32" "unat base + unat bytes < 2 ^ 64"
  obtains s where "tlsf_create_with_pool m base bytes = Some (Some s)"
    "tlsf_state base (arena_pools base ((unat bytes - 6552) div 8)) s Map.empty"
    "keeps base (arena_pools base ((unat bytes - 6552) div 8)) Map.empty m (mem s)"
proof -
  define t where "t = (unat bytes - 6552) div 8"
  define N where "N = unat base div 8"
  have b: "base = ptr N" "unat base = 8 * N" using aligned_ptr [OF base] base by (auto simp: N_def)
  have P: "arena_pools base t = {(N + 816, t)}" by (simp add: arena_pools_def N_def)
  have t: "3 \<le> t" "t < 2 ^ 29" using bytes by (simp_all add: t_def)
  have "8 * t + 6552 \<le> unat bytes" using bytes(1) by (simp add: t_def)
  then have lim: "N + 817 + t + 2 < cell_limit" using bytes(3) b(2) by (simp add: cell_limit_def)
  have "(unat bytes - 6552) div 8 = t" "6552 \<le> unat bytes" using bytes(1) by (simp_all add: t_def)
  from create_with_pool_ok [OF lim t this, of m] obtain s where s: "tlsf_create_with_pool m (ptr N) bytes = Some (Some s)"
    "tlsf_inv N (arena_pools base t) s (add_map Map.empty (N + 816) t)"
    "same_outside (own_cells N (arena_pools base t) Map.empty) (cells m) (cells (mem s))"
    unfolding P by blast
  have A: "allocations (add_map Map.empty (N + 816) t) = Map.empty"
    by (subst allocations_add) (simp_all add: allocations_def fun_eq_iff)
  have "tlsf_state base (arena_pools base t) s Map.empty" by (rule tlsf_stateI [OF b(1) _ s(2) A]) (use lim in simp)
  moreover have "control_apart N (arena_pools base t)" "segments (arena_pools base t) (add_map Map.empty (N + 816) t)"
    using s(2) heap_okD(1,2) unfolding tlsf_inv_def by blast+
  then have "keeps base (arena_pools base t) Map.empty m (mem s)"
    by (rule own_cells_keeps [OF _ _ s(3) _ _ b(2)]) simp_all
  ultimately show thesis using that s(1) b(1) by (simp add: t_def)
qed

section \<open>The usable size\<close>

definition tlsf_block_size :: "memory \<Rightarrow> u64 \<Rightarrow> u64" where
  "tlsf_block_size m p = (if p \<noteq> 0 then block_size m (block_from_ptr p) else 0)"

lemma tlsf_block_size_contract:
  assumes st: "tlsf_state base P s A" and p: "A p = Some k"
  shows "unat (tlsf_block_size (mem s) p) = k"
proof -
  obtain N B where b: "base = ptr N" "N + 817 \<le> cell_limit" "tlsf_inv N P s B" "A = allocations B" "segments P B"
    "unat base = 8 * N" "control_apart N P"
    by (rule tlsf_stateE [OF st])
  have Ap: "allocations B p = Some k" using p b(4) by simp
  obtain x n where x: "p = ptr (x + 2)" "B x = Some (n, False)" "k = 8 * n" "0 < n" "unat p = 8 * (x + 2)"
    "{x + 1 .. x + n + 2} \<subseteq> pool_cells P" "3 \<le> n" "x + n + 2 < cell_limit"
    by (rule live_block [OF b(5) Ap])
  have "headers_ok (cells (mem s)) B" using b(3) heap_okD(3) unfolding tlsf_inv_def by blast
  then have "header (cells (mem s)) x n False (prev_free B x)" by (rule headers_header [OF _ b(5) x(2)])
  then have "block_size (mem s) (ptr x) = ptr n" by (rule block_size_cell)
  moreover have "block_from_ptr p = ptr x" by (simp add: x(1) block_from_ptr_def block_constants ptr_def)
  moreover have "p \<noteq> 0" using x(5) by auto
  ultimately show ?thesis using x(3,8) by (simp add: tlsf_block_size_def unat_ptr)
qed

section \<open>The allocator as an instance of the heap interface\<close>

abbreviation tlsf_poke :: "control_t \<Rightarrow> u64 \<Rightarrow> u8 \<Rightarrow> control_t" where
  "tlsf_poke s a v \<equiv> s\<lparr>mem := (mem s)(a := v)\<rparr>"

abbreviation tlsf_capacity :: "control_t \<Rightarrow> u64 \<Rightarrow> nat" where
  "tlsf_capacity s p \<equiv> unat (tlsf_block_size (mem s) p)"

lemma tlsf_malloc_null:
  assumes "tlsf_state base P s A" "unat sz + 7 < 2 ^ 64" "tlsf_malloc s sz = (s', 0)"
  shows "s' = s"
  by (rule tlsf_malloc_contract [OF assms(1,2)]) (use assms(3) in auto)

lemma tlsf_malloc_fresh:
  assumes "tlsf_state base P s A" "unat sz + 7 < 2 ^ 64" "tlsf_malloc s sz = (s', p)" "p \<noteq> 0"
  obtains k where "A p = None" "unat sz \<le> k" "k \<le> max 24 (unat sz + 7) + 24" "tlsf_state base P s' (A(p \<mapsto> k))"
    "keeps base P A (mem s) (mem s')" "0 < unat sz"
  by (rule tlsf_malloc_contract [OF assms(1,2)]) (use assms(3,4) in auto)

interpretation tlsf: allocator "tlsf_state base P" mem tlsf_capacity tlsf_malloc tlsf_free tlsf_poke for base P
proof
  fix s s' :: control_t and A :: allocations and p q a sz :: u64 and k j :: nat and v :: u8
  assume st: "tlsf_state base P s A"
  show "p \<noteq> 0 \<and> unat p mod 8 = 0 \<and> unat p + k < 2 ^ 64" if "A p = Some k"
    using tlsf_live(1-4) [OF st that] by auto
  show "region p k \<inter> region q j = {}" if "A p = Some k" "A q = Some j" "p \<noteq> q"
    by (rule tlsf_live(5) [OF st that])
  show "tlsf_capacity s p = k" if "A p = Some k" by (rule tlsf_block_size_contract [OF st that])
  show "tlsf_state base P s' A" if "unat sz + 7 < 2 ^ 64" "tlsf_malloc s sz = (s', 0)"
    using tlsf_malloc_null [OF st that] st by simp
  show "A p = None \<and> (\<exists>k\<ge>unat sz. tlsf_state base P s' (A(p \<mapsto> k)))"
    if "unat sz + 7 < 2 ^ 64" "tlsf_malloc s sz = (s', p)" "p \<noteq> 0"
    by (rule tlsf_malloc_fresh [OF st that]) blast
  show "mem s' a = mem s a"
    if m: "unat sz + 7 < 2 ^ 64" "tlsf_malloc s sz = (s', p)" and q: "A q = Some j" "unat a \<in> region q j"
  proof (cases "p = 0")
    case True
    then show ?thesis using tlsf_malloc_null [OF st m(1), of s'] m(2) by simp
  next
    case False
    show ?thesis by (rule tlsf_malloc_fresh [OF st m False]) (use keeps_live q in blast)
  qed
  show "tlsf_state base P (tlsf_free s p) (A(p := None))" if "A p = Some k"
    by (rule tlsf_free_contract(1) [OF st that])
  show "mem (tlsf_free s p) a = mem s a" if "A p = Some k" "A q = Some j" "p \<noteq> q" "unat a \<in> region q j"
    using keeps_live [OF tlsf_free_contract(2) [OF st that(1)], of q j a] that(2-4) by simp
  show "tlsf_state base P (tlsf_poke s a v) A" if "A p = Some k" "unat a \<in> region p k"
    by (rule tlsf_write_contract [OF st that])
qed (simp_all add: tlsf_free_def)

end
