(* ===== verification/TlsfArena.thy ===== *)
theory TlsfArena imports TlsfState begin

text \<open>
  New arenas for \<open>tlsf.c\<close>: a large enough free block is always found, creation on an aligned arena, and an example
  arena of 64 MiB with one allocation.
\<close>

unbundle bit_operations_syntax

section \<open>A large enough free block is found\<close>

text \<open>The size that \<open>mapping_search\<close> looks up exceeds the request by at most one part in 32.\<close>

lemma search_class_le:
  assumes k: "0 < k" "8 * k < 2 ^ 32" and n: "n < 2 ^ 29" and le: "8 * k + 8 * k div 32 \<le> 8 * n"
  shows "search_class k \<le> class_of (size_class n)"
proof -
  have uk: "unat (ptr k) = 8 * k" and un: "unat (ptr n) = 8 * n"
    using k n by (simp_all add: unat_ptr cell_limit_def)
  show ?thesis
  proof (cases "ptr k \<ge> SMALL_BLOCK_SIZE")
    case False
    then show ?thesis
      unfolding search_class_def size_class_def mapping_search_def using le n by (simp add: class_of_mono uk un)
  next
    case True
    then have large: "256 \<le> 8 * k" using uk by (simp add: tlsf_constants word_le_nat_alt)
    then have "ptr k \<noteq> 0" using uk by auto
    then obtain i where i: "i < 64" "log2_of (8 * k) i" using tlsf_fls_sizet_correct uk by metis
    have fls: "tlsf_fls_sizet (ptr k) = int i" by (rule tlsf_fls_sizet_eq) (simp add: uk i(2))
    have i8: "8 \<le> i"
    proof (rule ccontr)
      assume "\<not> 8 \<le> i"
      then have "(2::nat) ^ (i + 1) \<le> 2 ^ 8" by (intro power_increasing) simp_all
      then show False using i(2) large by (simp add: log2_of_def)
    qed
    have "i < 32"
    proof (rule ccontr)
      assume "\<not> i < 32"
      then have "(2::nat) ^ 32 \<le> 2 ^ i" by (intro power_increasing) simp_all
      then show False using i(2) k(2) by (simp add: log2_of_def)
    qed
    define r where "r = (2::nat) ^ (i - 5)"
    have "5 + (i - 5) = i" using i8 by simp
    then have "(2::nat) ^ i = 32 * r" using power_add [of "2::nat" 5 "i - 5"] by (simp add: r_def)
    then have "32 * r \<le> 8 * k" using i(2) by (simp add: log2_of_def)
    then have "r \<le> 8 * k div 32" by (simp add: less_eq_div_iff_mult_less_eq)
    then have r: "r \<le> 8 * k div 32" "0 < r" by (simp_all add: r_def)
    have "unat (2 ^ (i - 5) - 1 :: u64) = r - 1"
    proof -
      have "(2 ^ (i - 5) - 1 :: u64) = of_nat (r - 1)" using r(2) by (simp add: r_def of_nat_diff)
      then show ?thesis using r k(2) unat_of_nat_u64 [of "r - 1"] by (simp del: of_nat_diff)
    qed
    then have up: "unat (ptr k + (2 ^ (i - 5) - 1)) = 8 * k + (r - 1)"
      using k(2) r by (simp add: unat_word_ariths uk)
    have "mapping_search (ptr k) = mapping_insert (ptr k + (2 ^ (i - 5) - 1))"
      using True i8 by (simp add: mapping_search_def fls tlsf_constants push_bit_eq_mult)
    moreover have "8 * k + (r - 1) \<le> 8 * n" using le r by simp
    ultimately show ?thesis
      unfolding search_class_def size_class_def using n by (simp add: class_of_mono up un)
  qed
qed

lemma request_cells_le:
  assumes "0 < unat sz" "33 * (unat sz + 31) \<le> 256 * n" "n < 2 ^ 29"
  shows "unat sz + 7 < 2 ^ 64" "0 < request_cells (unat sz)"
    "8 * request_cells (unat sz) + 8 * request_cells (unat sz) div 32 \<le> 8 * n"
proof -
  have "(unat sz + 7) div 8 < 2 ^ 29" using assms(2,3) by (intro less_mult_imp_div_less) simp
  then have "adjusted (unat sz) \<noteq> 0" using assms(1) by (auto simp: adjusted_def Let_def)
  then have a: "8 dvd adjusted (unat sz)" "24 \<le> adjusted (unat sz)" "adjusted (unat sz) \<le> max 24 (unat sz + 7)"
    using adjusted_props by blast+
  then have k: "8 * request_cells (unat sz) = adjusted (unat sz)" by (simp add: request_cells_def)
  then show "0 < request_cells (unat sz)" using a(2) by simp
  show "unat sz + 7 < 2 ^ 64" using assms(2,3) by simp
  have "adjusted (unat sz) \<le> unat sz + 24" using a(3) assms(1) by simp
  moreover define d where "d = adjusted (unat sz) div 32"
  have "d * 32 \<le> adjusted (unat sz)" unfolding d_def by (rule div_times_less_eq_dividend)
  ultimately have "adjusted (unat sz) + d \<le> 8 * n" using assms(2) by simp
  then show "8 * request_cells (unat sz) + 8 * request_cells (unat sz) div 32 \<le> 8 * n" by (simp add: k d_def)
qed

lemma tlsf_malloc_finds:
  assumes inv: "tlsf_inv N P s B" and x: "B x = Some (n, True)"
    and sz: "0 < unat sz" "33 * (unat sz + 31) \<le> 256 * n"
  shows "snd (tlsf_malloc s sz) \<noteq> 0"
proof -
  have seg: "segments P B" using inv heap_okD(2) unfolding tlsf_inv_def by blast
  note bf = block_facts [OF seg x free_not_sentinel [OF seg x]]
  note k = request_cells_le [OF sz bf(5)]
  note request = request_cells [OF k(1)]
  have class_le: "search_class (request_cells (unat sz)) \<le> class_of (size_class n)"
    by (rule search_class_le [OF k(2) request(4) bf(5) k(3)])
  show ?thesis
  proof (rule tlsf_malloc_ok [OF inv k(1)])
    assume "request_cells (unat sz) = 0 \<or>
      (\<forall>x n. B x = Some (n, True) \<longrightarrow> class_of (size_class n) < search_class (request_cells (unat sz)))"
    then show ?thesis using k(2) x class_le by fastforce
  next
    fix s' B' y m j
    assume m: "tlsf_malloc s sz = (s', ptr (y + 2))" "B y = Some (m, True)"
    note bfy = block_facts [OF seg m(2) free_not_sentinel [OF seg m(2)]]
    have "ptr (y + 2) \<noteq> 0" using bfy(2,4) by (intro ptr_nonzero) simp_all
    then show ?thesis by (simp add: m(1))
  qed
qed

text \<open>A pool without a live allocation is one free block: everything in it has been merged.\<close>

lemma all_free:
  assumes inv: "tlsf_inv N P s B" and pool: "(lo, t) \<in> P"
    and none: "\<And>x n. B x = Some (n, False) \<Longrightarrow> 0 < n \<Longrightarrow> \<not> (lo \<le> x \<and> x \<le> lo + t)"
  shows "B lo = Some (t, True)"
proof -
  have seg: "segments P B" and co: "coalesced_but {} B"
    using inv heap_okD(2) unfolding tlsf_inv_def by blast+
  obtain n f where lo: "B lo = Some (n, f)" using segmentsD(2) [OF seg pool] by auto
  have pos: "0 < n" and le: "lo + n + 1 \<le> lo + t + 1" using block_in_pool [OF seg pool lo] by simp_all
  then have f: "B lo = Some (n, True)" using none [of lo n] lo by (cases f) auto
  obtain m g where nxt: "B (lo + n + 1) = Some (m, g)" using block_facts(7) [OF seg f pos] by blast
  have "lo + n + 1 = lo + t + 1"
  proof (rule ccontr)
    assume "lo + n + 1 \<noteq> lo + t + 1"
    then have less: "lo + n + 1 < lo + t + 1" using le by simp
    then have "0 < m" using block_in_pool(1) [OF seg pool nxt] by simp
    then have g using none [of "lo + n + 1" m] nxt less by (cases g) auto
    then have "B (lo + n + 1) = Some (m, True)" using nxt by simp
    then have "\<not> prev_free B (lo + n + 1)" by (rule coalesced_butD [OF co]) simp
    then show False using f unfolding prev_free_def by blast
  qed
  then show ?thesis using f by simp
qed

text \<open>No live allocation starts in the pool.\<close>

definition pool_idle :: "nat \<Rightarrow> nat \<Rightarrow> allocations \<Rightarrow> bool" where
  "pool_idle lo t A \<longleftrightarrow> (\<forall>p k. A p = Some k \<longrightarrow> \<not> (8 * (lo + 2) \<le> unat p \<and> unat p < 8 * (lo + t + 2)))"

lemma pool_idle_empty [simp]: "pool_idle lo t Map.empty"
  by (simp add: pool_idle_def)

lemma idle_pool_free:
  assumes seg: "segments P B" and idle: "pool_idle lo t (allocations B)" and x: "B x = Some (n, False)" "0 < n"
  shows "\<not> (lo \<le> x \<and> x < lo + t)"
proof -
  have lim: "x + 2 < cell_limit" using block_facts(2,4) [OF seg x] by simp
  then have "allocations B (ptr (x + 2)) = Some (8 * n)" using x by (simp add: allocations_ptr)
  then have "\<not> (8 * (lo + 2) \<le> 8 * (x + 2) \<and> 8 * (x + 2) < 8 * (lo + t + 2))"
    using idle unat_ptr [OF lim] unfolding pool_idle_def by metis
  then show ?thesis by auto
qed

lemma empty_pool:
  assumes inv: "tlsf_inv N P s B" and pool: "(lo, t) \<in> P" and idle: "pool_idle lo t (allocations B)"
  shows "B lo = Some (t, True)"
proof (rule all_free [OF inv pool])
  have seg: "segments P B" using inv heap_okD(2) unfolding tlsf_inv_def by blast
  fix x n
  assume x: "B x = Some (n, False)" "0 < n"
  show "\<not> (lo \<le> x \<and> x \<le> lo + t)"
  proof
    assume le: "lo \<le> x \<and> x \<le> lo + t"
    then have "x = lo + t" using idle_pool_free [OF seg idle x] by simp
    then have "x + n + 1 \<le> lo + t + 1" using segmentsD(7) [OF seg x(1) segmentsD(3) [OF seg pool]] by simp
    then show False using \<open>x = lo + t\<close> x(2) by simp
  qed
qed

lemma tlsf_malloc_idle:
  assumes st: "tlsf_state base P s A" and pool: "(lo, t) \<in> P" "pool_idle lo t A"
    and sz: "0 < unat sz" "33 * (unat sz + 31) \<le> 256 * t"
  shows "snd (tlsf_malloc s sz) \<noteq> 0"
proof -
  obtain N B where "tlsf_inv N P s B" "A = allocations B" using st by (rule tlsf_stateE)
  with pool have "tlsf_inv N P s B" "B lo = Some (t, True)" using empty_pool [of N P s B lo t] by simp_all
  then show ?thesis by (rule tlsf_malloc_finds [OF _ _ sz])
qed

section \<open>Arenas\<close>

text \<open>An arena: 8-byte aligned, room for the control structure and a minimal pool, below 4 GiB.\<close>

definition arena_ok :: "u64 \<Rightarrow> u64 \<Rightarrow> bool" where
  "arena_ok base bytes \<longleftrightarrow> unat base mod 8 = 0 \<and> 6576 \<le> unat bytes \<and> unat bytes < 2 ^ 32
     \<and> unat base + unat bytes < 2 ^ 64"

definition arena_cells :: "u64 \<Rightarrow> nat" where
  "arena_cells bytes = (unat bytes - 6552) div 8"

abbreviation arena_pool :: "u64 \<Rightarrow> u64 \<Rightarrow> pools" where
  "arena_pool base bytes \<equiv> arena_pools base (arena_cells bytes)"

lemma arena_create:
  assumes "arena_ok base bytes"
  obtains s where "tlsf_create_with_pool m base bytes = Some (Some s)"
    "tlsf_state base (arena_pool base bytes) s Map.empty" "keeps base (arena_pool base bytes) Map.empty m (mem s)"
proof -
  have a: "unat base mod 8 = 0" "6576 \<le> unat bytes" "unat bytes < 2 ^ 32" "unat base + unat bytes < 2 ^ 64"
    using assms unfolding arena_ok_def by blast+
  show thesis by (rule tlsf_create_contract [OF a, of m]) (rule that, simp_all add: arena_cells_def)
qed

lemma arena_cells_le: "arena_ok base bytes \<Longrightarrow> 6552 + 8 * arena_cells bytes \<le> unat bytes"
proof -
  assume "arena_ok base bytes"
  then have "6576 \<le> unat bytes" by (simp add: arena_ok_def)
  moreover have "8 * arena_cells bytes \<le> unat bytes - 6552" unfolding arena_cells_def by (rule times_div_less_eq_dividend)
  ultimately show ?thesis by linarith
qed

lemma created_state:
  assumes "arena_ok base bytes" "tlsf_create_with_pool m base bytes = Some (Some s)"
  shows "tlsf_state base (arena_pool base bytes) s Map.empty" "keeps base (arena_pool base bytes) Map.empty m (mem s)"
  by (rule arena_create [OF assms(1), of m], use assms(2) in simp)+

lemma arena_idle:
  "tlsf_state base (arena_pools base t) s Map.empty \<Longrightarrow> 0 < unat sz \<Longrightarrow> 33 * (unat sz + 31) \<le> 256 * t \<Longrightarrow>
     snd (tlsf_malloc s sz) \<noteq> 0"
  by (rule tlsf_malloc_idle [of base "arena_pools base t" s Map.empty "unat base div 8 + 816" t]) (simp_all add: arena_pools_def)

section \<open>An example\<close>

lemma arena_example: "arena_ok 0x80000000 0x4000000" "arena_cells 0x4000000 = 8387789"
  by (simp_all add: arena_ok_def arena_cells_def)

text \<open>A state of the example arena with an allocation of at least 100 bytes.\<close>

lemma malloc_example:
  obtains s s' p where "tlsf_create_with_pool (\<lambda>_. 0) 0x80000000 0x4000000 = Some (Some s)"
    "tlsf_state 0x80000000 (arena_pool 0x80000000 0x4000000) s (sizes Map.empty)" "tlsf_malloc s 100 = (s', p)" "p \<noteq> 0"
proof -
  obtain s where s: "tlsf_create_with_pool (\<lambda>_. 0) 0x80000000 0x4000000 = Some (Some s)"
    "tlsf_state 0x80000000 (arena_pool 0x80000000 0x4000000) s Map.empty"
    using arena_create [OF arena_example(1)] by metis
  moreover have "snd (tlsf_malloc s 100) \<noteq> 0" by (rule arena_idle [OF s(2)]) (simp_all add: arena_example(2))
  ultimately show thesis using that [of s "fst (tlsf_malloc s 100)" "snd (tlsf_malloc s 100)"] by simp
qed

end
