(* ===== verification/TlsfRealloc.thy ===== *)
theory TlsfRealloc imports TlsfArena begin

text \<open>
  \<open>tlsf_realloc\<close>: shrinking and growing a block in place, moving it, and what happens to its contents.
\<close>

unbundle bit_operations_syntax

section \<open>The operation\<close>

definition tlsf_realloc :: "control_t \<Rightarrow> u64 \<Rightarrow> u64 \<Rightarrow> control_t \<times> u64" where
  "tlsf_realloc control p sz =
     (if p \<noteq> 0 \<and> sz = 0 then (tlsf_free control p, 0)
      else if p = 0 then tlsf_malloc control sz
      else
        let block = block_from_ptr p;
            nxt = block_next (mem control) block;
            cursize = block_size (mem control) block;
            combined = cursize + block_size (mem control) nxt + block_header_overhead;
            adjust = adjust_request_size sz ALIGN_SIZE
        in if adjust > cursize \<and> (\<not> block_is_free (mem control) nxt \<or> adjust > combined) then
             let (control, q) = tlsf_malloc control sz
             in if q \<noteq> 0 then
                  let minsize = min cursize sz;
                      control = control\<lparr>mem := mem_write (mem control) q (mem_bytes (mem control) p (unat minsize))\<rparr>
                  in (tlsf_free control p, q)
                else (control, q)
           else
             let control =
                   (if adjust > cursize then
                      let control = fst (block_merge_next control block)
                      in control\<lparr>mem := block_mark_as_used (mem control) block\<rparr>
                    else control)
             in (block_trim_used control block adjust, p))"

section \<open>Shrinking a used block\<close>

text \<open>The remainder of a used block, free and not listed.\<close>

lemma split_used_ok:
  assumes seg: "segments P B" and x: "B x = Some (n, False)" "0 < n" and h: "headers_ok (cells m) B"
    and k: "3 \<le> k" "k + 4 \<le> n"
  defines "y \<equiv> x + k + 1"
  obtains m1 where "block_split m (ptr x) (ptr k) = (m1, ptr y)"
    "headers_ok (cells (block_set_prev_used m1 (ptr y))) (split_map B x n k False)"
    "same_outside {x + 1, x + k + 2, x + n + 1, x + n + 2} (cells m) (cells (block_set_prev_used m1 (ptr y)))"
proof -
  note bf = block_facts [OF seg x]
  obtain n' f' where nxt: "B (x + n + 1) = Some (n', f')" using bf(7) by blast
  define m1 where "m1 = fst (block_split m (ptr x) (ptr k))"
  note sp = block_split_cell [OF headers_header [OF h seg x(1)] k(2) headers_header [OF h seg nxt], folded y_def m1_def]
  obtain g where c1: "cells m1 = (cells m)(x + 1 := size_word k False (prev_free B x), y + 1 := size_word (n - k - 1) True g,
      x + n + 1 := ptr y, x + n + 2 := size_word n' f' True)"
    using sp(2) by blast
  have run: "block_split m (ptr x) (ptr k) = (m1, ptr y)" using sp(1) by (simp add: m1_def prod_eq_iff)
  have "header (cells m1) y (n - k - 1) True g" using bf(4) k by (simp add: header_def c1 y_def)
  then have c: "cells (block_set_prev_used m1 (ptr y)) = (cells m1)(y + 1 := size_word (n - k - 1) True False)"
    by (rule block_set_cell(4))
  have "headers_ok (cells (block_set_prev_used m1 (ptr y))) (split_map B x n k False)"
    unfolding c using k by (intro headers_split [OF seg x h k nxt]) (auto simp: c1 y_def)
  moreover have "same_outside {x + 1, x + k + 2, x + n + 1, x + n + 2} (cells m) (cells (block_set_prev_used m1 (ptr y)))"
    unfolding c c1 by (simp add: same_outside_def y_def)
  ultimately show thesis using that run by blast
qed

lemma used_map_split:
  "B (x + k + 1) = None \<Longrightarrow> used_map (split_map B x n k False) = (used_map B)(x \<mapsto> k)"
  by (intro ext) (simp add: used_map_def split_map_def)

text \<open>The front part stays used; the remainder is to be merged and listed.\<close>

lemma trim_used_pending:
  assumes inv: "tlsf_inv N P s B" and x: "B x = Some (n, False)" "0 < n" and k: "3 \<le> k" "k + 4 \<le> n"
  defines "y \<equiv> x + k + 1" and "S \<equiv> split_map B x n k False"
  obtains m1 where "block_split (mem s) (ptr x) (ptr k) = (m1, ptr y)"
    "pending N P (s\<lparr>mem := block_set_prev_used m1 (ptr y)\<rparr>) S y (n - k - 1)" "coalesced_but {y + (n - k - 1) + 1} S"
    "used_map S = (used_map B)(x \<mapsto> k)"
    "same_outside (own_cells N P (used_map S)) (cells (mem s)) (cells (block_set_prev_used m1 (ptr y)))"
proof -
  have ok: "heap_ok N P s B (free_map B)" and co: "coalesced_but {} B" using inv by (simp_all add: tlsf_inv_def)
  note okD = heap_okD [OF ok]
  obtain m1 where m1: "block_split (mem s) (ptr x) (ptr k) = (m1, ptr y)"
    "headers_ok (cells (block_set_prev_used m1 (ptr y))) S"
    "same_outside {x + 1, x + k + 2, x + n + 1, x + n + 2} (cells (mem s)) (cells (block_set_prev_used m1 (ptr y)))"
    unfolding y_def S_def by (rule split_used_ok [OF okD(2) x okD(3) k])
  define m2 where "m2 = block_set_prev_used m1 (ptr y)"
  have fresh: "B y = None" unfolding y_def by (rule split_map_fresh [OF okD(2) x k(2)])
  have segS: "segments P S" unfolding S_def by (rule segments_split [OF okD(2) x k])
  have Fx: "free_map B x = None" using x(1) by (simp add: free_map_def)
  have ok2: "heap_ok N P (s\<lparr>mem := m2\<rparr>) S (free_map B)"
    using ok segS m1(2) [folded m2_def]
  proof (rule heap_ok_headers)
    show "S z = Some (j, True)" if "free_map B z = Some j" for z j
      using that fresh x(1) by (auto simp: split_map_def S_def y_def)
    show "same_outside {x + 1, x + k + 2, x + n + 1, x + n + 2} (cells (mem s)) (cells m2)" using m1(3) by (simp add: m2_def)
    show "j \<notin> link_cells (insert N (dom (free_map B)))" if "j \<in> {x + 1, x + k + 2, x + n + 1, x + n + 2}" for j
      using that k by (intro boundary_not_link [OF ok x Fx]) auto
  qed
  have Sy: "S y = Some (n - k - 1, True)" and Sx: "S x = Some (k, False)" by (simp_all add: split_map_def S_def y_def)
  have F: "(free_map S)(y := None) = free_map B"
    using fresh x(1) by (intro ext) (simp add: free_map_def split_map_def S_def y_def)
  have pend: "pending N P (s\<lparr>mem := m2\<rparr>) S y (n - k - 1)" using ok2 Sy by (simp add: pending_def F)
  have len: "y + (n - k - 1) + 1 = x + n + 1" "y + (n - k - 1) + 2 = x + n + 2" using k by (simp_all add: y_def)
  have "coalesced_but {y + (n - k - 1) + 1} S"
    unfolding coalesced_but_def S_def prev_free_split [OF okD(2) x k] len
  proof (intro allI impI)
    fix z j
    assume z: "split_map B x n k False z = Some (j, True)" "z \<notin> {x + n + 1}"
    show "\<not> (if z = x + k + 1 then False else if z = x + n + 1 then True else prev_free B z)"
    proof (cases "z = x + k + 1")
      case False
      then have "B z = Some (j, True)" using z(1) by (auto simp: split_map_def split: if_splits)
      then show ?thesis using coalesced_butD [OF co] z(2) False by simp
    qed simp
  qed
  moreover have "{x + 1, x + k + 2, x + n + 1, x + n + 2} \<subseteq> own_cells N P (used_map S)"
    using own_cells_header [OF segS Sx] own_cells_header [OF segS Sy]
      own_cells_free [OF segS Sy, of "x + n + 1"] own_cells_free [OF segS Sy, of "x + n + 2"] len k
    by (simp add: add.assoc y_def)
  from same_outside_mono [OF m1(3) this]
  have "same_outside (own_cells N P (used_map S)) (cells (mem s)) (cells m2)" by (simp add: m2_def)
  moreover have "used_map S = (used_map B)(x \<mapsto> k)"
    using used_map_split [of B x k n] fresh by (simp add: S_def y_def)
  ultimately show thesis using that m1(1) pend by (simp add: m2_def)
qed

lemma block_trim_used_ok:
  assumes inv: "tlsf_inv N P s B" and x: "B x = Some (n, False)" "0 < n" and k: "3 \<le> k" "k \<le> n"
  obtains B' where "tlsf_inv N P (block_trim_used s (ptr x) (ptr k)) B'"
    "used_map B' = (used_map B)(x \<mapsto> (if k + 4 \<le> n then k else n))"
    "same_outside (own_cells N P (used_map B')) (cells (mem s)) (cells (mem (block_trim_used s (ptr x) (ptr k))))"
proof -
  have ok: "heap_ok N P s B (free_map B)" using inv by (simp add: tlsf_inv_def)
  note okD = heap_okD [OF ok]
  note bf = block_facts [OF okD(2) x]
  have lim: "n < cell_limit" "k + 4 < cell_limit" using bf(5) k(2) by (simp_all add: cell_limit_def)
  have can: "block_can_split (mem s) (ptr x) (ptr k) \<longleftrightarrow> k + 4 \<le> n"
    by (rule block_can_split_cell [OF headers_header [OF okD(3,2) x(1)] lim])
  show thesis
  proof (cases "k + 4 \<le> n")
    case False
    have "(used_map B)(x \<mapsto> n) = used_map B" using x(1) by (intro fun_upd_idem) simp
    then show ?thesis using that [of B] inv False by (simp add: block_trim_used_def can)
  next
    case True
    let ?S = "split_map B x n k False" and ?y = "x + k + 1"
    obtain m1 where m1: "block_split (mem s) (ptr x) (ptr k) = (m1, ptr ?y)"
      "pending N P (s\<lparr>mem := block_set_prev_used m1 (ptr ?y)\<rparr>) ?S ?y (n - k - 1)" "coalesced_but {?y + (n - k - 1) + 1} ?S"
      "used_map ?S = (used_map B)(x \<mapsto> k)"
      "same_outside (own_cells N P (used_map ?S)) (cells (mem s)) (cells (block_set_prev_used m1 (ptr ?y)))"
      by (rule trim_used_pending [OF inv x k(1) True])
    define m2 where "m2 = block_set_prev_used m1 (ptr ?y)"
    obtain s3 B3 n3 where s3: "block_merge_next (s\<lparr>mem := m2\<rparr>) (ptr ?y) = (s3, ptr ?y)" "pending N P s3 B3 ?y n3"
      "used_map B3 = used_map ?S" "coalesced_but {} B3"
      "same_outside (own_cells N P (used_map ?S)) (cells (mem (s\<lparr>mem := m2\<rparr>))) (cells (mem s3))"
      by (rule block_merge_next_ok [OF m1(2,3), folded m2_def])
    note fin = pending_insert [OF s3(2,4)]
    have run: "block_trim_used s (ptr x) (ptr k) = block_insert s3 (ptr ?y)"
      using True s3(1) by (simp add: block_trim_used_def can m1(1) Let_def flip: m2_def)
    have "same_outside (own_cells N P (used_map ?S)) (cells (mem s)) (cells (mem (s\<lparr>mem := m2\<rparr>)))"
      using m1(5) by (simp add: m2_def)
    note frame = same_outside_trans [OF same_outside_trans [OF this s3(5)] fin(2) [unfolded s3(3)]]
    show ?thesis
      using that [of B3] frame fin(1) True s3(3) m1(4) by (simp add: run)
  qed
qed

section \<open>Growing a used block\<close>

text \<open>A used block \<open>x\<close> that takes in the free block behind it.\<close>

definition grow_map :: "block_map \<Rightarrow> nat \<Rightarrow> nat \<Rightarrow> nat \<Rightarrow> block_map" where
  "grow_map B x n n' = B(x \<mapsto> (n + n' + 1, False), x + n + 1 := None)"

text \<open>It is the map of the steps: mark as free, join, mark as used.\<close>

lemma grow_map_steps: "grow_map B x n n' = (join_map (B(x \<mapsto> (n, True))) x n n')(x \<mapsto> (n + n' + 1, False))"
  by (intro ext) (simp add: grow_map_def join_map_def)

lemma grow_facts:
  assumes seg: "segments P B" and x: "B x = Some (n, False)" "0 < n" and y: "B (x + n + 1) = Some (n', True)"
  defines "B1 \<equiv> B(x \<mapsto> (n, True))"
  shows "segments P B1" "B1 x = Some (n, True)" "B1 (x + n + 1) = Some (n', True)"
    and "segments P (join_map B1 x n n')" "join_map B1 x n n' x = Some (n + n' + 1, True)"
    and "segments P (grow_map B x n n')" "grow_map B x n n' x = Some (n + n' + 1, False)"
proof -
  show 1: "segments P B1" "B1 x = Some (n, True)" "B1 (x + n + 1) = Some (n', True)"
    using segments_status [OF seg x] y by (simp_all add: B1_def)
  show 2: "segments P (join_map B1 x n n')" "join_map B1 x n n' x = Some (n + n' + 1, True)"
    using segments_join [OF 1] by (simp_all add: join_map_def)
  show "segments P (grow_map B x n n')"
    unfolding grow_map_steps by (rule segments_status [OF 2 [unfolded B1_def]]) simp
  show "grow_map B x n n' x = Some (n + n' + 1, False)" by (simp add: grow_map_def)
qed

lemma prev_free_grow:
  assumes seg: "segments P B" and x: "B x = Some (n, False)" "0 < n" and y: "B (x + n + 1) = Some (n', True)"
    and z: "z \<noteq> x + n + 1"
  shows "prev_free (grow_map B x n n') z \<longleftrightarrow> z \<noteq> x + n + n' + 2 \<and> prev_free B z"
proof -
  note g = grow_facts [OF seg x y]
  have len: "x + (n + n' + 1) + 1 = x + n + n' + 2" and pos: "0 < n + n' + 1" by simp_all
  have "prev_free (grow_map B x n n') z \<longleftrightarrow> z \<noteq> x + n + n' + 2 \<and> prev_free (join_map (B(x \<mapsto> (n, True))) x n n') z"
    unfolding grow_map_steps prev_free_status [OF g(4,5) pos] len by simp
  moreover have "prev_free (join_map (B(x \<mapsto> (n, True))) x n n') z \<longleftrightarrow> prev_free (B(x \<mapsto> (n, True))) z"
    by (rule prev_free_join [OF g(1-3) z])
  moreover have "prev_free (B(x \<mapsto> (n, True))) z \<longleftrightarrow> prev_free B z"
    unfolding prev_free_status [OF seg x] using z by simp
  ultimately show ?thesis by blast
qed

lemma headers_grow:
  assumes seg: "segments P B" and x: "B x = Some (n, False)" "0 < n" and y: "B (x + n + 1) = Some (n', True)"
    and nxt: "B (x + n + n' + 2) = Some (n2, False)" and h: "headers_ok c B"
    and c': "c' = c(x + 1 := size_word (n + n' + 1) False (prev_free B x), x + n + n' + 2 := ptr x,
      x + n + n' + 3 := size_word n2 False False)"
  shows "headers_ok c' (grow_map B x n n')"
  unfolding headers_ok_def
proof (intro allI impI)
  fix z m e
  let ?G = "grow_map B x n n'"
  assume z: "?G z = Some (m, e)"
  note g = grow_facts [OF seg x y]
  have zy: "z \<noteq> x + n + 1" using z by (auto simp: grow_map_def)
  note pf = prev_free_grow [OF seg x y zy]
  show "c' (z + 1) = size_word m e (prev_free ?G z) \<and> (e \<longrightarrow> c' (z + m + 1) = ptr z)"
  proof (cases "z = x")
    case True
    have "x \<noteq> x + n + n' + 2" by simp
    then show ?thesis using z pf True by (simp add: grow_map_def c')
  next
    case False
    then have Bz: "B z = Some (m, e)" using z zy by (simp add: grow_map_def)
    have len: "x + (n + n' + 1) + 1 = x + n + n' + 2" "x + (n + n' + 1) + 2 = x + n + n' + 3" by simp_all
    note other = other_block_cells [OF g(6,7) _ z False, unfolded len, simplified]
    have "e \<longrightarrow> c' (z + m + 1) = ptr z" using headers_okD(2) [OF h Bz] other(4-6) by (simp add: c')
    moreover have "c' (z + 1) = size_word m e (prev_free ?G z)"
    proof (cases "z = x + n + n' + 2")
      case True
      then have "c' (z + 1) = size_word n2 False False" by (simp add: c')
      then show ?thesis using True Bz nxt pf by simp
    next
      case z2: False
      then show ?thesis using headers_okD(1) [OF h Bz] other(1-3) pf by (simp add: c')
    qed
    ultimately show ?thesis by blast
  qed
qed

text \<open>The two steps of \<open>tlsf_realloc\<close>: take in the next block, then clear the status bits.\<close>

lemma grow_used_ok:
  assumes inv: "tlsf_inv N P s B" and x: "B x = Some (n, False)" "0 < n" and y: "B (x + n + 1) = Some (n', True)"
  defines "s1 \<equiv> fst (block_merge_next s (ptr x))"
  defines "s2 \<equiv> s1\<lparr>mem := block_mark_as_used (mem s1) (ptr x)\<rparr>"
  shows "tlsf_inv N P s2 (grow_map B x n n')"
    and "same_outside (own_cells N P (used_map B)) (cells (mem s)) (cells (mem s2))"
proof -
  have ok: "heap_ok N P s B (free_map B)" and co: "coalesced_but {} B" using inv by (simp_all add: tlsf_inv_def)
  note okD = heap_okD [OF ok]
  let ?y = "x + n + 1" and ?G = "grow_map B x n n'"
  note bx = block_facts [OF okD(2) x]
  have yhi: "0 < n'" by (rule free_not_sentinel [OF okD(2) y])
  note by' = block_facts [OF okD(2) y yhi]
  have len: "?y + n' + 1 = x + n + n' + 2" by simp
  obtain n2 f2 where nx: "B (x + n + n' + 2) = Some (n2, f2)" using by'(7) unfolding len by blast
  have pf: "prev_free B (x + n + n' + 2)" using prev_free_next [OF okD(2) y yhi] unfolding len by simp
  have "\<not> f2"
  proof
    assume f2
    then have "B (x + n + n' + 2) = Some (n2, True)" using nx by simp
    then have "\<not> prev_free B (x + n + n' + 2)" by (rule coalesced_butD [OF co]) simp
    then show False using pf by simp
  qed
  with nx have nx: "B (x + n + n' + 2) = Some (n2, False)" by simp
  define s0 where "s0 = block_remove s (ptr ?y)"
  have Fy: "free_map B ?y = Some n'" using y by simp
  note rem = block_remove_ok [OF ok Fy, folded s0_def]
  note remD = heap_okD [OF rem(1)]
  have hx: "header (cells (mem s)) x n False (prev_free B x)" by (rule headers_header [OF okD(3,2) x(1)])
  have "block_next (mem s) (ptr x) = ptr ?y" using block_next_cell [OF hx] bx(2) by simp
  moreover have "block_is_free (mem s) (ptr ?y)" by (simp add: block_status_cell [OF headers_header [OF okD(3,2) y]])
  ultimately have s1: "s1 = s0\<lparr>mem := block_absorb (mem s0) (ptr x) (ptr ?y)\<rparr>"
    by (simp add: s1_def block_merge_next_def Let_def s0_def)
  have n: "1 \<le> n" "1 \<le> n + n' + 1" "x + (n + n' + 1) + 1 < cell_limit" using bx(2) by'(4) by simp_all
  have c1: "cells (mem s1) = (cells (mem s0))(x + 1 := size_word (n + n' + 1) False (prev_free B x),
      x + (n + n' + 1) + 1 := ptr x)"
    using block_absorb_cell [OF headers_header [OF remD(3,2) x(1)] headers_header [OF remD(3,2) y] n(1,3)]
    by (simp add: s1)
  have h1: "header (cells (mem s1)) x (n + n' + 1) False (prev_free B x)"
    using n(3) by (simp add: c1 header_def)
  have "header (cells (mem s0)) (x + n + n' + 2) n2 False (prev_free B (x + n + n' + 2))"
    by (rule headers_header [OF remD(3,2) nx])
  then have h2: "header (cells (mem s1)) (x + (n + n' + 1) + 1) n2 False (prev_free B (x + n + n' + 2))"
    by (simp add: c1 header_def)
  have c2: "cells (mem s2) = (cells (mem s0))(x + 1 := size_word (n + n' + 1) False (prev_free B x),
      x + n + n' + 2 := ptr x, x + n + n' + 3 := size_word n2 False False)"
  proof -
    have e: "x + (n + n' + 1) + 1 = x + n + n' + 2" "x + (n + n' + 1) + 2 = x + n + n' + 3" by simp_all
    have "cells (mem s2) = (cells (mem s1))(x + (n + n' + 1) + 2 := size_word n2 False False,
        x + 1 := size_word (n + n' + 1) False (prev_free B x))"
      using block_mark_as_used_cell [OF h1 n(2) h2] by (simp only: s2_def) simp
    then show ?thesis unfolding c1 e by (intro ext) simp
  qed
  note g = grow_facts [OF okD(2) x y]
  let ?F = "(free_map B)(?y := None)"
  have Fx: "?F x = None" using x(1) by (simp add: free_map_def)
  have "heap_ok N P (s0\<lparr>mem := mem s2\<rparr>) ?G ?F"
    using rem(1) g(6) headers_grow [OF okD(2) x y nx remD(3) c2]
  proof (rule heap_ok_headers)
    show "?G z = Some (j, True)" if "?F z = Some j" for z j
      using that x(1) by (auto simp: grow_map_def split: if_splits)
    show "same_outside {x + 1, x + n + n' + 2, x + n + n' + 3} (cells (mem s0)) (cells (mem s2))"
      by (simp add: c2 same_outside_def)
    have "?F ?y = None" by simp
    note by_x = boundary_not_link [OF rem(1) x Fx] and by_y = boundary_not_link [OF rem(1) y yhi this]
    show "k \<notin> link_cells (insert N (dom ?F))" if k: "k \<in> {x + 1, x + n + n' + 2, x + n + n' + 3}" for k
    proof (cases "k = x + 1")
      case True
      then show ?thesis by (intro by_x) simp_all
    next
      case False
      then show ?thesis using k by (intro by_y) auto
    qed
  qed
  moreover have "free_map ?G = ?F" using x(1) by (intro ext) (simp add: free_map_def grow_map_def)
  moreover have "s0\<lparr>mem := mem s2\<rparr> = s2" by (simp add: s2_def s1)
  moreover have "coalesced_but {} ?G"
    unfolding coalesced_but_def
  proof (intro allI impI)
    fix z m
    assume z: "?G z = Some (m, True)"
    then have zy: "z \<noteq> ?y" "B z = Some (m, True)" by (auto simp: grow_map_def split: if_splits)
    then have "\<not> prev_free B z" using coalesced_butD [OF co] by simp
    then show "\<not> prev_free ?G z" using prev_free_grow [OF okD(2) x y zy(1)] by simp
  qed
  ultimately show "tlsf_inv N P s2 ?G" by (simp add: tlsf_inv_def)
  have "{x + 1, x + n + n' + 2, x + n + n' + 3} \<subseteq> own_cells N P (used_map B)"
    using own_cells_header [OF okD(2) x(1)] own_cells_free [OF okD(2) y, of "x + n + n' + 2"]
      own_cells_free [OF okD(2) y, of "x + n + n' + 3"] by'(2) by simp
  then have "same_outside (own_cells N P (used_map B)) (cells (mem s0)) (cells (mem s2))"
    by (auto simp: c2 same_outside_def)
  then show "same_outside (own_cells N P (used_map B)) (cells (mem s)) (cells (mem s2))"
    by (rule same_outside_trans [OF rem(2)])
qed

lemma used_map_grow:
  "B (x + n + 1) = Some (n', True) \<Longrightarrow> used_map (grow_map B x n n') = (used_map B)(x \<mapsto> n + n' + 1)"
  by (intro ext) (simp add: used_map_def grow_map_def)

section \<open>The contract\<close>

text \<open>The cells of a used block are not the allocator's.\<close>

lemma own_cells_live:
  assumes "control_apart N P" "segments P B" "B x = Some (n, False)" "0 < n" "k \<in> own_cells N P (used_map B)"
  shows "\<not> (x + 2 \<le> k \<and> k \<le> x + n + 1)"
proof
  assume k: "x + 2 \<le> k \<and> k \<le> x + n + 1"
  then have "k \<in> pool_cells P" using block_facts(1) [OF assms(2-4)] by auto
  then have "k \<noteq> N + 2 \<and> k \<noteq> N + 3" by (rule control_not_pool [OF assms(1)])
  then show False using k assms(3,5) by (auto simp: own_cells_def)
qed

lemma own_cells_shrink:
  assumes "\<And>x n. U x = Some n \<Longrightarrow> \<exists>n'\<ge>n. U' x = Some n'"
  shows "own_cells N P U' \<subseteq> own_cells N P U"
  unfolding own_cells_def using assms by fastforce

text \<open>A client writes anything to one of its allocations.\<close>

lemma tlsf_fill_contract:
  assumes st: "tlsf_state base P s A" and p: "A p = Some k" and same: "\<And>a. unat a \<notin> region p k \<Longrightarrow> m a = mem s a"
  shows "tlsf_state base P (s\<lparr>mem := m\<rparr>) A"
proof -
  obtain N B where b: "base = ptr N" "N + 817 \<le> cell_limit" "tlsf_inv N P s B" "A = allocations B" "segments P B"
    "unat base = 8 * N" "control_apart N P"
    by (rule tlsf_stateE [OF st])
  have Ap: "allocations B p = Some k" using p b(4) by simp
  obtain x n where x: "p = ptr (x + 2)" "B x = Some (n, False)" "k = 8 * n" "0 < n" "unat p = 8 * (x + 2)"
    "{x + 1 .. x + n + 2} \<subseteq> pool_cells P" "3 \<le> n" "x + n + 2 < cell_limit"
    by (rule live_block [OF b(5) Ap])
  have "cells m j = cells (mem s) j" if j: "j \<in> own_cells N P (used_map B)" for j
  proof (cases "j < cell_limit")
    case True
    have "\<not> (x + 2 \<le> j \<and> j \<le> x + n + 1)" by (rule own_cells_live [OF b(7,5) x(2,4) j])
    moreover have u: "unat (ptr j + of_nat i) = 8 * j + i" if "i < 8" for i
      using unat_add_of_nat [of "ptr j" i] that True by (simp add: unat_ptr [OF True] cell_limit_def)
    ultimately have "unat (ptr j + of_nat i) \<notin> region p k" if "i < 8" for i
      unfolding x(3) using u [OF that] that by (subst region_cell [OF x(5)]) simp
    then have "mem_bytes m (ptr j) 8 = mem_bytes (mem s) (ptr j) 8"
      using same by (intro nth_equalityI) simp_all
    then show ?thesis using True by (simp add: cells_def load_def)
  qed (simp add: cells_def)
  then have "tlsf_inv N P (s\<lparr>mem := m\<rparr>) B" by (rule tlsf_inv_payload [OF b(3)])
  then show ?thesis by (rule tlsf_stateI [OF b(1,2)]) (simp add: b(4))
qed

text \<open>The result of a change in place, in terms of the client: \<open>x\<close> keeps its first cells and ends with \<open>j\<close> cells.\<close>

lemma in_place_contract:
  assumes st: "base = ptr N" "N + 817 \<le> cell_limit" "segments P B" "unat base = 8 * N" "control_apart N P"
    and x: "B x = Some (n, False)" "0 < n" "x + 2 < cell_limit" "0 < j"
    and s': "tlsf_inv N P s' B'" "used_map B' = (used_map B)(x \<mapsto> j)"
    and same: "same_outside (own_cells N P ((used_map B)(x \<mapsto> min n j))) (cells (mem s)) (cells (mem s'))"
  shows "tlsf_state base P s' ((allocations B)(ptr (x + 2) \<mapsto> 8 * j))"
    and "keeps base P ((allocations B)(ptr (x + 2) := None)) (mem s) (mem s')"
    and "i < 8 * min n j \<Longrightarrow> mem s' (ptr (x + 2) + of_nat i) = mem s (ptr (x + 2) + of_nat i)"
proof -
  have eq: "allocations B' = (allocations B)(ptr (x + 2) \<mapsto> 8 * j)"
    using allocations_upd [OF s'(2) x(3)] x(4) by simp
  show "tlsf_state base P s' ((allocations B)(ptr (x + 2) \<mapsto> 8 * j))"
    by (rule tlsf_stateI [OF st(1,2) s'(1) eq])
  show "keeps base P ((allocations B)(ptr (x + 2) := None)) (mem s) (mem s')"
  proof (rule own_cells_keeps [OF st(5,3) same _ _ st(4)])
    show "((used_map B)(x \<mapsto> min n j)) y = Some m"
      if "used_map B y = Some m" "m \<noteq> 0" "ptr (y + 2) \<in> dom ((allocations B)(ptr (x + 2) := None))" for y m
      using that by auto
  qed (auto simp: map_le_def)
  assume i: "i < 8 * min n j"
  note bf = block_facts [OF st(3) x(1,2)]
  have "8 * (x + 2) + i < 2 ^ 64" using bf(4) i by (simp add: cell_limit_def)
  then have "unat (ptr (x + 2) + of_nat i) = 8 * (x + 2) + i"
    using unat_add_of_nat [of "ptr (x + 2)" i] by (simp add: unat_ptr [OF x(3)])
  then have "unat (ptr (x + 2) + of_nat i) div 8 = x + 2 + i div 8" by simp
  moreover have "i div 8 < min n j" using i by (intro less_mult_imp_div_less) simp
  ultimately have at: "x + 2 \<le> unat (ptr (x + 2) + of_nat i) div 8" "unat (ptr (x + 2) + of_nat i) div 8 \<le> x + min n j + 1"
    by simp_all
  then have "unat (ptr (x + 2) + of_nat i) div 8 \<in> pool_cells P" using bf(1) by auto
  then have "unat (ptr (x + 2) + of_nat i) div 8 \<notin> own_cells N P ((used_map B)(x \<mapsto> min n j))"
    using control_not_pool [OF st(5)] at by (auto simp: own_cells_def)
  then show "mem s' (ptr (x + 2) + of_nat i) = mem s (ptr (x + 2) + of_nat i)" by (rule same_outside_mem [OF same])
qed

text \<open>The block, the next one and the tests of \<open>tlsf_realloc\<close>, in cells.\<close>

lemma realloc_facts:
  assumes inv: "tlsf_inv N P s B" and x: "B x = Some (n, False)" "0 < n" and sz: "unat sz + 7 < 2 ^ 64"
    and y: "B (x + n + 1) = Some (n', f')"
  defines "r \<equiv> request_cells (unat sz)"
  shows "ptr (x + 2) \<noteq> 0" "block_next (mem s) (ptr x) = ptr (x + n + 1)"
    and "block_size (mem s) (ptr x) = ptr n" "\<not> block_is_free (mem s) (ptr x)"
    and "block_size (mem s) (ptr (x + n + 1)) = ptr n'" "block_is_free (mem s) (ptr (x + n + 1)) \<longleftrightarrow> f'"
    and "ptr n < ptr r \<longleftrightarrow> n < r" "ptr n + ptr n' + 8 < ptr r \<longleftrightarrow> n + n' + 1 < r"
    and "unat (min (ptr n) sz) = min (8 * n) (unat sz)"
proof -
  have ok: "heap_ok N P s B (free_map B)" using inv by (simp add: tlsf_inv_def)
  note okD = heap_okD [OF ok]
  note bf = block_facts [OF okD(2) x]
  have h: "header (cells (mem s)) x n False (prev_free B x)" by (rule headers_header [OF okD(3,2) x(1)])
  have hy: "header (cells (mem s)) (x + n + 1) n' f' (prev_free B (x + n + 1))" by (rule headers_header [OF okD(3,2) y])
  have lim: "n < cell_limit" "r < cell_limit"
    using bf(4) request_cells(4) [OF sz] by (simp_all add: r_def cell_limit_def)
  have lim2: "n + n' + 1 < cell_limit"
  proof (cases "n' = 0")
    case True
    then show ?thesis using bf(4) by simp
  next
    case False
    then show ?thesis using block_facts(4) [OF okD(2) y] by simp
  qed
  have less: "ptr a < ptr b \<longleftrightarrow> a < b" if "a < cell_limit" "b < cell_limit" for a b
    using that by (simp add: word_less_nat_alt unat_ptr)
  show "ptr n < ptr r \<longleftrightarrow> n < r" by (rule less [OF lim])
  have "ptr n + ptr n' + 8 = ptr (n + n' + 1)" by (simp add: ptr_def algebra_simps)
  then show "ptr n + ptr n' + 8 < ptr r \<longleftrightarrow> n + n' + 1 < r" using less [OF lim2 lim(2)] by simp
  show "unat (min (ptr n) sz) = min (8 * n) (unat sz)"
    using unat_ptr [OF lim(1)] by (simp add: min_def word_le_nat_alt)
  show "ptr (x + 2) \<noteq> 0" using bf(2,4) by (intro ptr_nonzero) simp_all
  show "block_next (mem s) (ptr x) = ptr (x + n + 1)" using block_next_cell [OF h] bf(2) by simp
  show "block_size (mem s) (ptr x) = ptr n" "\<not> block_is_free (mem s) (ptr x)"
    using block_size_cell [OF h] block_status_cell(1) [OF h] by simp_all
  show "block_size (mem s) (ptr (x + n + 1)) = ptr n'" "block_is_free (mem s) (ptr (x + n + 1)) \<longleftrightarrow> f'"
    using block_size_cell [OF hy] block_status_cell(1) [OF hy] by simp_all
qed

lemma realloc_cases:
  assumes inv: "tlsf_inv N P s B" and x: "B x = Some (n, False)" "0 < n" and sz: "unat sz + 7 < 2 ^ 64" "sz \<noteq> 0"
    and y: "B (x + n + 1) = Some (n', f')"
  defines "r \<equiv> request_cells (unat sz)"
  shows "tlsf_realloc s (ptr (x + 2)) sz =
    (if n < r \<and> (\<not> f' \<or> n + n' + 1 < r) then
       let (s1, q) = tlsf_malloc s sz
       in if q \<noteq> 0 then (tlsf_free (s1\<lparr>mem := mem_write (mem s1) q
            (mem_bytes (mem s1) (ptr (x + 2)) (min (8 * n) (unat sz)))\<rparr>) (ptr (x + 2)), q)
          else (s1, q)
     else if n < r then
       let s1 = fst (block_merge_next s (ptr x))
       in (block_trim_used (s1\<lparr>mem := block_mark_as_used (mem s1) (ptr x)\<rparr>) (ptr x) (ptr r), ptr (x + 2))
     else (block_trim_used s (ptr x) (ptr r), ptr (x + 2)))"
  using sz(2) by (simp add: tlsf_realloc_def Let_def realloc_facts [OF inv x sz(1) y] request_cells(1) [OF sz(1)]
      block_constants split_beta r_def)

text \<open>The two changes in place.\<close>

lemma resize_ok:
  assumes inv: "tlsf_inv N P s B" and x: "B x = Some (n, False)" "0 < n" and y: "B (x + n + 1) = Some (n', f')"
    and r: "3 \<le> r" "r \<le> n \<or> f' \<and> r \<le> n + n' + 1"
  defines "s2 \<equiv> (if n < r then
      let s1 = fst (block_merge_next s (ptr x)) in s1\<lparr>mem := block_mark_as_used (mem s1) (ptr x)\<rparr> else s)"
  defines "s3 \<equiv> block_trim_used s2 (ptr x) (ptr r)"
  obtains B' j where "tlsf_inv N P s3 B'" "used_map B' = (used_map B)(x \<mapsto> j)" "r \<le> j"
    "same_outside (own_cells N P ((used_map B)(x \<mapsto> min n j))) (cells (mem s)) (cells (mem s3))"
proof (cases "n < r")
  case False
  then have s3: "s3 = block_trim_used s (ptr x) (ptr r)" by (simp add: s3_def s2_def)
  obtain B' where B': "tlsf_inv N P s3 B'" "used_map B' = (used_map B)(x \<mapsto> (if r + 4 \<le> n then r else n))"
    "same_outside (own_cells N P (used_map B')) (cells (mem s)) (cells (mem s3))"
    unfolding s3 by (rule block_trim_used_ok [OF inv x r(1)]) (use False in simp)
  define j where "j = (if r + 4 \<le> n then r else n)"
  have "r \<le> j" "min n j = j" using False by (simp_all add: j_def)
  then show thesis using that [of B' j] B' by (simp add: j_def)
next
  case True
  then have grow: "r \<le> n + n' + 1" and y': "B (x + n + 1) = Some (n', True)" using r(2) y by auto
  have s2: "s2 = (fst (block_merge_next s (ptr x)))
      \<lparr>mem := block_mark_as_used (mem (fst (block_merge_next s (ptr x)))) (ptr x)\<rparr>"
    using True by (simp add: s2_def Let_def)
  note g = grow_used_ok [OF inv x y', folded s2]
  have Gx: "grow_map B x n n' x = Some (n + n' + 1, False)" by (simp add: grow_map_def)
  define j where "j = (if r + 4 \<le> n + n' + 1 then r else n + n' + 1)"
  obtain B' where B': "tlsf_inv N P s3 B'" "used_map B' = (used_map (grow_map B x n n'))(x \<mapsto> j)"
    "same_outside (own_cells N P (used_map B')) (cells (mem s2)) (cells (mem s3))"
    unfolding s3_def j_def by (rule block_trim_used_ok [OF g(1) Gx _ r(1) grow]) simp_all
  have j: "r \<le> j" "n < j" using True grow by (simp_all add: j_def)
  have used: "used_map B' = (used_map B)(x \<mapsto> j)" using B'(2) used_map_grow [of B x n n', OF y'] by simp
  have mn: "min n j = n" "(used_map B)(x \<mapsto> n) = used_map B" using j(2) x(1) by (simp_all add: fun_upd_idem)
  have "same_outside (own_cells N P (used_map B)) (cells (mem s2)) (cells (mem s3))"
    using B'(3) by (rule same_outside_mono) (rule own_cells_shrink, use x(1) j(2) in \<open>auto simp: used\<close>)
  then have "same_outside (own_cells N P ((used_map B)(x \<mapsto> min n j))) (cells (mem s)) (cells (mem s3))"
    unfolding mn by (rule same_outside_trans [OF g(2)])
  then show thesis using that [OF B'(1) used j(1)] by blast
qed

text \<open>The move: copy to the new allocation, then free the old one.\<close>

lemma copy_ok:
  assumes st1: "tlsf_state base P s1 A" and q: "A q = Some k'" and bs: "length bs \<le> k'"
  defines "s2 \<equiv> s1\<lparr>mem := mem_write (mem s1) q bs\<rparr>"
  shows "tlsf_state base P s2 A" "unat a \<notin> region q k' \<Longrightarrow> mem s2 a = mem s1 a"
proof -
  have bound: "unat q + k' < 2 ^ 64" using tlsf.live_bounds [OF st1 q] by simp
  show out: "mem s2 a = mem s1 a" if a: "unat a \<notin> region q k'" for a
  proof -
    have "length bs \<le> unat (a - q)"
    proof (rule ccontr)
      assume "\<not> length bs \<le> unat (a - q)"
      then have "unat (a - q) < k'" using bs by simp
      then have "unat (q + of_nat (unat (a - q))) \<in> region q k'" by (rule region_byte [OF bound])
      then show False using a by simp
    qed
    then show ?thesis by (simp add: s2_def mem_write_outside)
  qed
  have "tlsf_state base P (s1\<lparr>mem := mem s2\<rparr>) A" by (rule tlsf_fill_contract [OF st1 q out])
  moreover have "s1\<lparr>mem := mem s2\<rparr> = s2" by (simp add: s2_def)
  ultimately show "tlsf_state base P s2 A" by (simp only:)
qed

lemma move_ok:
  assumes st: "tlsf_state base P s A" and p: "A p = Some k" and new: "A q = None"
    and st1: "tlsf_state base P s1 (A(q \<mapsto> k'))" "keeps base P A (mem s) (mem s1)" and l: "l \<le> k" "l \<le> k'"
  defines "s2 \<equiv> s1\<lparr>mem := mem_write (mem s1) q (mem_bytes (mem s1) p l)\<rparr>"
  shows "tlsf_state base P (tlsf_free s2 p) (A(p := None, q \<mapsto> k'))"
    and "keeps base P (A(p := None)) (mem s) (mem (tlsf_free s2 p))"
    and "i < l \<Longrightarrow> mem (tlsf_free s2 p) (q + of_nat i) = mem s (p + of_nat i)"
proof -
  have qp: "q \<noteq> p" using new p by auto
  have Aq: "(A(q \<mapsto> k')) q = Some k'" and Ap: "(A(q \<mapsto> k')) p = Some k" using qp p by simp_all
  have bound: "unat q + k' < 2 ^ 64" "unat p + k < 2 ^ 64"
    using tlsf.live_bounds [OF st1(1) Aq] tlsf.live_bounds [OF st p] by simp_all
  have len: "length (mem_bytes (mem s1) p l) \<le> k'" using l(2) by simp
  note st2 = copy_ok(1) [OF st1(1) Aq len, folded s2_def] and out = copy_ok(2) [OF st1(1) Aq len, folded s2_def]
  note fr = tlsf_free_contract [OF st2 Ap]
  show "tlsf_state base P (tlsf_free s2 p) (A(p := None, q \<mapsto> k'))" using fr(1) fun_upd_twist [OF qp, of A "Some k'" None] by (simp only:)
  show "keeps base P (A(p := None)) (mem s) (mem (tlsf_free s2 p))"
  proof (rule keepsI)
    fix a :: u64 and z kz
    assume z: "(A(p := None)) z = Some kz" "unat a \<in> region z kz"
    have zq: "z \<noteq> q" "z \<noteq> p" using z(1) new by (auto split: if_splits)
    have Az: "A z = Some kz" using z(1) zq(2) by simp
    have "(A(q \<mapsto> k', p := None)) z = Some kz" using Az zq by simp
    then have "mem (tlsf_free s2 p) a = mem s2 a" using keeps_live [OF fr(2)] z(2) by blast
    moreover have "unat a \<notin> region q k'" using tlsf_live(5) [OF st1(1), of z kz q k'] Az zq z(2) by auto
    ultimately show "mem (tlsf_free s2 p) a = mem s a" using out keeps_live [OF st1(2) Az z(2)] by simp
  next
    fix a :: u64
    assume a: "outside base P a"
    have "unat a \<notin> region q k'" using live_not_outside [OF st1(1) Aq] a by blast
    moreover have "mem (tlsf_free s2 p) a = mem s2 a" "mem s1 a = mem s a"
      using fr(2) st1(2) a unfolding keeps_def by blast+
    ultimately show "mem (tlsf_free s2 p) a = mem s a" using out by simp
  qed
  assume "i < l"
  then have i: "i < l" "i < k" "i < k'" using l by simp_all
  have "(A(q \<mapsto> k', p := None)) q = Some k'" using qp by simp
  then have "mem (tlsf_free s2 p) (q + of_nat i) = mem s2 (q + of_nat i)"
    using keeps_live [OF fr(2)] region_byte [OF bound(1) i(3)] by blast
  also have "\<dots> = mem s1 (p + of_nat i)" using i bound(1) by (simp add: s2_def mem_write_def)
  also have "\<dots> = mem s (p + of_nat i)" using keeps_live [OF st1(2) p region_byte [OF bound(2) i(2)]] .
  finally show "mem (tlsf_free s2 p) (q + of_nat i) = mem s (p + of_nat i)" .
qed

lemma tlsf_realloc_contract:
  assumes st: "tlsf_state base P s A" and p: "A p = Some k" and sz: "0 < unat sz" "unat sz \<le> 2 ^ 32 - 8"
  obtains (kept) "tlsf_realloc s p sz = (s, 0)"
  | (served) s' q k' where "tlsf_realloc s p sz = (s', q)" "q \<noteq> 0" "q = p \<or> A q = None" "unat sz \<le> k'"
    "tlsf_state base P s' (A(p := None, q \<mapsto> k'))" "keeps base P (A(p := None)) (mem s) (mem s')"
    "\<And>i. i < min k (unat sz) \<Longrightarrow> mem s' (q + of_nat i) = mem s (p + of_nat i)"
proof -
  obtain N B where b: "base = ptr N" "N + 817 \<le> cell_limit" "tlsf_inv N P s B" "A = allocations B" "segments P B"
    "unat base = 8 * N" "control_apart N P"
    by (rule tlsf_stateE [OF st])
  let ?r = "request_cells (unat sz)"
  have Ap: "allocations B p = Some k" using p b(4) by simp
  obtain x n where x: "p = ptr (x + 2)" "B x = Some (n, False)" "k = 8 * n" "0 < n" "unat p = 8 * (x + 2)"
    "{x + 1 .. x + n + 2} \<subseteq> pool_cells P" "3 \<le> n" "x + n + 2 < cell_limit"
    by (rule live_block [OF b(5) Ap])
  obtain n' f' where y: "B (x + n + 1) = Some (n', f')" using block_facts(7) [OF b(5) x(2,4)] by blast
  have sz': "unat sz + 7 < 2 ^ 64" "sz \<noteq> 0" using sz by auto
  note req = request_cells [OF sz'(1)]
  have "?r \<noteq> 0" using req(5) sz by auto
  then have r: "3 \<le> ?r" "unat sz \<le> 8 * ?r" using req(2,3) by blast+
  note cases = realloc_cases [OF b(3) x(2,4) sz' y, folded x(1)]
  show thesis
  proof (cases "n < ?r \<and> (\<not> f' \<or> n + n' + 1 < ?r)")
    case False
    then have fits: "?r \<le> n \<or> f' \<and> ?r \<le> n + n' + 1" by linarith
    define s2 where "s2 = (if n < ?r then
      let s1 = fst (block_merge_next s (ptr x)) in s1\<lparr>mem := block_mark_as_used (mem s1) (ptr x)\<rparr> else s)"
    define s3 where "s3 = block_trim_used s2 (ptr x) (ptr ?r)"
    have run: "tlsf_realloc s p sz = (s3, p)"
      unfolding cases if_not_P [OF False] by (simp add: s3_def s2_def Let_def)
    obtain B' j where j: "tlsf_inv N P s3 B'" "used_map B' = (used_map B)(x \<mapsto> j)" "?r \<le> j"
      "same_outside (own_cells N P ((used_map B)(x \<mapsto> min n j))) (cells (mem s)) (cells (mem s3))"
      unfolding s3_def s2_def by (rule resize_ok [OF b(3) x(2,4) y r(1) fits])
    have lim: "x + 2 < cell_limit" "0 < j" using x(8) j(3) r(1) by simp_all
    note c = in_place_contract [OF b(1,2,5-7) x(2,4) lim j(1,2,4), folded b(4) x(1)]
    show thesis
    proof (rule served [OF run])
      show "mem s3 (p + of_nat i) = mem s (p + of_nat i)" if "i < min k (unat sz)" for i
      proof (rule c(3))
        have "i < 8 * n" "i < unat sz" using that x(3) by simp_all
        moreover have "unat sz \<le> 8 * j" using r(2) j(3) by linarith
        ultimately show "i < 8 * min n j" by (cases "n \<le> j") simp_all
      qed
    qed (use c(1,2) x(5) r(2) j(3) in auto)
  next
    case True
    obtain s1 q where m: "tlsf_malloc s sz = (s1, q)" by fastforce
    show thesis
    proof (cases "q = 0")
      case q: True
      then have "s1 = s" using tlsf_malloc_null [OF st sz'(1)] m by simp
      then show thesis using kept unfolding cases if_P [OF True] by (simp add: m q)
    next
      case q: False
      obtain k' where k': "A q = None" "unat sz \<le> k'" "tlsf_state base P s1 (A(q \<mapsto> k'))" "keeps base P A (mem s) (mem s1)"
        by (rule tlsf_malloc_fresh [OF st sz'(1) m q])
      define l where "l = min k (unat sz)"
      define s2 where "s2 = s1\<lparr>mem := mem_write (mem s1) q (mem_bytes (mem s1) p l)\<rparr>"
      have run: "tlsf_realloc s p sz = (tlsf_free s2 p, q)"
        unfolding cases if_P [OF True] using q by (simp add: m s2_def l_def x(3))
      have l: "l \<le> k" "l \<le> k'" using k'(2) by (simp_all add: l_def)
      note mv = move_ok [OF st p k'(1,3,4) l, folded s2_def]
      show thesis by (rule served [OF run q _ k'(2) mv(1,2) mv(3) [unfolded l_def]]) (use k'(1) in simp_all)
    qed
  qed
qed

section \<open>Properties\<close>

text \<open>
  C25. \<open>tlsf_realloc\<close> of a live allocation to 1 byte up to 4 GiB less 8 either returns the null pointer and changes
  nothing, or returns an allocation of at least the new size, the old one grown or shrunk in place or a fresh
  one, that starts with the old contents; all other allocations and all memory outside of the arena stay as they
  are, and the invariant holds again. Size 0 frees, the null pointer allocates.
\<close>

theorem tlsf_realloc_correct:
  assumes "tlsf_state base P s A" "A p = Some k" "0 < unat sz" "unat sz \<le> 2 ^ 32 - 8"
  shows "(tlsf_realloc s p sz = (s, 0)
      \<or> (\<exists>s' q k'. tlsf_realloc s p sz = (s', q) \<and> q \<noteq> 0 \<and> (q = p \<or> A q = None) \<and> unat sz \<le> k'
          \<and> tlsf_state base P s' (A(p := None, q \<mapsto> k'))
          \<and> keeps base P (A(p := None)) (mem s) (mem s')
          \<and> mem_bytes (mem s') q (min k (unat sz)) = mem_bytes (mem s) p (min k (unat sz))))
    \<and> tlsf_realloc s p 0 = (tlsf_free s p, 0) \<and> tlsf_realloc s 0 sz = tlsf_malloc s sz"
proof -
  have "p \<noteq> 0" "sz \<noteq> 0" using tlsf.live_bounds [OF assms(1,2)] assms(3) by auto
  then have "tlsf_realloc s p 0 = (tlsf_free s p, 0)" "tlsf_realloc s 0 sz = tlsf_malloc s sz"
    by (simp_all add: tlsf_realloc_def)
  moreover from assms have "tlsf_realloc s p sz = (s, 0)
      \<or> (\<exists>s' q k'. tlsf_realloc s p sz = (s', q) \<and> q \<noteq> 0 \<and> (q = p \<or> A q = None) \<and> unat sz \<le> k'
          \<and> tlsf_state base P s' (A(p := None, q \<mapsto> k'))
          \<and> keeps base P (A(p := None)) (mem s) (mem s')
          \<and> mem_bytes (mem s') q (min k (unat sz)) = mem_bytes (mem s) p (min k (unat sz)))"
  proof (cases rule: tlsf_realloc_contract)
    case (served s' q k')
    have "mem_bytes (mem s') q (min k (unat sz)) = mem_bytes (mem s) p (min k (unat sz))"
      using served(7) by (simp add: mem_bytes_def)
    with served(1-6) show ?thesis by blast
  qed blast
  ultimately show ?thesis by blast
qed

theorem tlsf_realloc_correct_witness:
  "\<exists>s s' p s'' q. tlsf_create_with_pool (\<lambda>_. 0) 0x80000000 0x4000000 = Some (Some s) \<and> tlsf_malloc s 100 = (s', p)
    \<and> tlsf_realloc s' p 1000 = (s'', q)
    \<and> (q \<noteq> 0 \<longrightarrow> mem_bytes (mem s'') q 100 = mem_bytes (mem s') p 100)"
proof -
  obtain s s' p where s: "tlsf_create_with_pool (\<lambda>_. 0) 0x80000000 0x4000000 = Some (Some s)"
    "tlsf_state 0x80000000 (arena_pool 0x80000000 0x4000000) s (sizes Map.empty)" "tlsf_malloc s 100 = (s', p)" "p \<noteq> 0"
    by (rule malloc_example)
  have sz: "unat (100 :: u64) + 7 < 2 ^ 64" by simp
  obtain k where k: "unat (100 :: u64) \<le> k" "tlsf_state 0x80000000 (arena_pool 0x80000000 0x4000000) s' ((sizes Map.empty)(p \<mapsto> k))"
    by (rule tlsf_malloc_fresh [OF s(2) sz s(3,4)])
  have live: "((sizes Map.empty)(p \<mapsto> k)) p = Some k" by simp
  have big: "0 < unat (1000 :: u64)" "unat (1000 :: u64) \<le> 2 ^ 32 - 8" by simp_all
  obtain s'' q where r: "tlsf_realloc s' p 1000 = (s'', q)" by fastforce
  have "mem_bytes (mem s'') q 100 = mem_bytes (mem s') p 100" if "q \<noteq> 0"
  proof -
    have "mem_bytes (mem s'') q (min k 1000) = mem_bytes (mem s') p (min k 1000)"
      using tlsf_realloc_correct [OF k(2) live big] that r by auto
    moreover have "mem_bytes m a 100 = take 100 (mem_bytes m a (min k 1000))" for m a
      using k(1) by (simp add: mem_bytes_def take_map)
    ultimately show ?thesis by simp
  qed
  then show ?thesis using s(1,3) r by blast
qed

end
