(* ===== verification/TlsfMemalign.thy ===== *)
theory TlsfMemalign imports TlsfArena begin

text \<open>
  \<open>tlsf_memalign\<close>: an allocation at a multiple of a power of two, with the space before it returned to the pool.
  Alignments up to 8 need no such space, and from 4 GiB on nothing is large enough.
\<close>

unbundle bit_operations_syntax

section \<open>The operation\<close>

text \<open>The distance from the start of the block to the address that is used: 0 or room for a block.\<close>

definition memalign_gap :: "u64 \<Rightarrow> u64 \<Rightarrow> u64" where
  "memalign_gap p align =
     (let gap_minimum = sizeof_block_header;
          aligned = align_ptr p align;
          gap = aligned - p
      in if gap \<noteq> 0 \<and> gap < gap_minimum then
           let gap_remain = gap_minimum - gap;
               offset = max gap_remain align;
               next_aligned = aligned + offset;
               aligned = align_ptr next_aligned align
           in aligned - p
         else gap)"

definition tlsf_memalign :: "control_t \<Rightarrow> u64 \<Rightarrow> u64 \<Rightarrow> control_t \<times> u64" where
  "tlsf_memalign control align sz =
     (let adjust = adjust_request_size sz ALIGN_SIZE;
          gap_minimum = sizeof_block_header;
          size_with_gap = adjust_request_size (adjust + align + gap_minimum) align;
          aligned_size = (if adjust \<noteq> 0 \<and> align > ALIGN_SIZE then size_with_gap else adjust);
          (control, block) = block_locate_free control aligned_size;
          (control, block) =
            (if block \<noteq> 0 then
               let gap = memalign_gap (block_to_ptr block) align
               in if gap \<noteq> 0 then block_trim_free_leading control block gap else (control, block)
             else (control, block))
      in block_prepare_used control block adjust)"

section \<open>The gap\<close>

definition round_up :: "nat \<Rightarrow> nat \<Rightarrow> nat" where
  "round_up n al = (n + (al - 1)) div al * al"

lemma round_up:
  assumes "0 < al"
  shows "n \<le> round_up n al" "round_up n al < n + al" "al dvd round_up n al"
proof -
  have "(n + (al - 1)) div al * al + (n + (al - 1)) mod al = n + (al - 1)" by (rule div_mult_mod_eq)
  moreover have "(n + (al - 1)) mod al < al" using assms by simp
  ultimately show "n \<le> round_up n al" "round_up n al < n + al"
    using assms unfolding round_up_def by linarith+
qed (simp add: round_up_def)

lemma round_up_dvd: "0 < al \<Longrightarrow> al dvd n \<Longrightarrow> round_up n al = n"
proof -
  assume "0 < al" "al dvd n"
  then obtain q where n: "n = al * q" unfolding dvd_def by blast
  have "(al * q + (al - 1)) div al = q" using \<open>0 < al\<close> by (intro div_nat_eqI) simp_all
  then show ?thesis by (simp add: round_up_def n mult.commute)
qed

text \<open>The gap on numbers.\<close>

definition gap_of :: "nat \<Rightarrow> nat \<Rightarrow> nat" where
  "gap_of p al =
     (let g = round_up p al - p
      in if g \<noteq> 0 \<and> g < 32 then round_up (round_up p al + max (32 - g) al) al - p else g)"

lemma pow_cases:
  assumes "3 \<le> a"
  shows "(2::nat) ^ a = 8 \<or> (2::nat) ^ a = 16 \<or> 32 \<le> (2::nat) ^ a"
proof -
  consider "a = 3" | "a = 4" | "5 \<le> a" using assms by linarith
  then show ?thesis
  proof cases
    case 3
    then have "(2::nat) ^ 5 \<le> 2 ^ a" by (intro power_increasing) simp_all
    then show ?thesis by simp
  qed simp_all
qed

lemma gap_props:
  assumes a: "3 \<le> a" and p: "8 dvd p"
  defines "al \<equiv> (2::nat) ^ a"
  shows "gap_of p al = 0 \<or> 32 \<le> gap_of p al" "gap_of p al \<le> al + 24" "8 dvd gap_of p al" "al dvd p + gap_of p al"
proof -
  have al: "0 < al" "8 dvd al" using a unfolding al_def by (simp_all add: le_imp_power_dvd [of 3 a 2, simplified])
  define A where "A = round_up p al"
  define g where "g = A - p"
  note r = round_up [OF al(1), of p, folded A_def]
  have A: "A = p + g" using r(1) by (simp add: g_def)
  have "8 dvd A" using al(2) r(3) by (rule dvd_trans)
  then have g: "8 dvd g" "g < al" using p r(2) by (simp_all add: A dvd_add_right_iff)
  have "(gap_of p al = 0 \<or> 32 \<le> gap_of p al) \<and> gap_of p al \<le> al + 24 \<and> 8 dvd gap_of p al \<and> al dvd p + gap_of p al"
  proof (cases "g \<noteq> 0 \<and> g < 32")
    case False
    then have "gap_of p al = g" by (auto simp: gap_of_def Let_def simp flip: A_def g_def)
    then show ?thesis using False g r(3) by (auto simp flip: A)
  next
    case True
    define b where "b = round_up (A + max (32 - g) al) al"
    have gap: "gap_of p al = b - p" using True by (simp add: gap_of_def Let_def b_def flip: A_def g_def)
    have g24: "g \<le> 24" using True g(1) by (auto elim!: dvdE)
    consider "al = 8" | "al = 16" | "32 \<le> al" using pow_cases [OF a] by (auto simp: al_def)
    then have "b = A + 32 \<and> al = 16 \<and> g = 8 \<or> b = A + al \<and> 32 \<le> al"
    proof cases
      case 1
      then show ?thesis using g True by (auto elim!: dvdE)
    next
      case 2
      then have g8: "g = 8" using g True by (auto elim!: dvdE)
      then have "b = round_up (A + 24) 16" by (simp add: b_def 2)
      also have "\<dots> = A + 32"
      proof -
        obtain q where "A = 16 * q" using r(3) 2 by (auto elim!: dvdE)
        then show ?thesis by (simp add: round_up_def)
      qed
      finally show ?thesis using g8 2 by simp
    next
      case 3
      then have "max (32 - g) al = al" by simp
      then have "b = round_up (A + al) al" by (simp only: b_def)
      also have "\<dots> = A + al" using r(3) by (intro round_up_dvd [OF al(1)]) simp
      finally show ?thesis using 3 by simp
    qed
    then show ?thesis
    proof (elim disjE conjE)
      assume b: "b = A + 32" "al = 16" "g = 8"
      then have "gap_of p al = 40" unfolding gap using A by simp
      moreover have "al dvd A + 32" using r(3) b(2) by (intro dvd_add) simp_all
      moreover have "A + 32 = p + 40" using A b(3) by simp
      ultimately show ?thesis using b(2) by simp
    next
      assume b: "b = A + al" "32 \<le> al"
      then have e: "gap_of p al = g + al" by (simp add: gap A)
      have "p + gap_of p al = A + al" by (simp add: e A)
      then have "al dvd p + gap_of p al" using r(3) by simp
      then show ?thesis using b(2) g24 g(1) al(2) by (simp add: e)
    qed
  qed
  then show "gap_of p al = 0 \<or> 32 \<le> gap_of p al" "gap_of p al \<le> al + 24" "8 dvd gap_of p al" "al dvd p + gap_of p al"
    by blast+
qed

text \<open>The code computes it, without wrap-around when the block lies in the address space.\<close>

lemma multiple_below:
  assumes "a < 64" "(2::nat) ^ a dvd r" "r < 2 ^ 64"
  shows "r + 2 ^ a \<le> 2 ^ 64"
proof -
  have "a + (64 - a) = 64" using assms(1) by simp
  then have top: "(2::nat) ^ 64 = 2 ^ a * 2 ^ (64 - a)" by (metis power_add)
  obtain q where q: "r = 2 ^ a * q" using assms(2) unfolding dvd_def by blast
  then have "2 ^ a * q < 2 ^ a * 2 ^ (64 - a)" using assms(3) unfolding top by simp
  then have "q + 1 \<le> 2 ^ (64 - a)" by simp
  then have "2 ^ a * (q + 1) \<le> 2 ^ a * 2 ^ (64 - a)" by (rule mult_le_mono2)
  then show ?thesis by (simp only: top q distrib_left mult_1_right)
qed

lemma align_ptr_round_up:
  assumes "a < 64" "round_up (unat p) (2 ^ a) < 2 ^ 64"
  shows "unat (align_ptr p (2 ^ a)) = round_up (unat p) (2 ^ a)"
proof -
  have "round_up (unat p) (2 ^ a) + 2 ^ a \<le> 2 ^ 64"
    using round_up(3) [of "2 ^ a" "unat p"] by (intro multiple_below [OF assms(1) _ assms(2)]) simp
  moreover have "(1::nat) \<le> 2 ^ a" by simp
  ultimately have "unat p + (2 ^ a - 1) < 2 ^ 64" using round_up(1) [of "2 ^ a" "unat p"] by linarith
  from align_up_correct [OF this assms(1)] show ?thesis by (simp add: align_ptr_def align_up_def round_up_def)
qed

lemma memalign_gap_unat:
  assumes a: "3 \<le> a" "a < 64" and p: "8 dvd unat p" "unat p + 2 ^ a + 56 \<le> 2 ^ 64"
  shows "unat (memalign_gap p (2 ^ a)) = gap_of (unat p) (2 ^ a)"
proof -
  define al where "al = (2::nat) ^ a"
  define A where "A = round_up (unat p) al"
  define g where "g = A - unat p"
  have al: "0 < al" "unat (2 ^ a :: u64) = al" by (simp_all add: al_def unat_pow2 [OF a(2)])
  note r = round_up [OF al(1), of "unat p", folded A_def]
  have A: "A = unat p + g" using r(1) by (simp add: g_def)
  have uA: "unat (align_ptr p (2 ^ a)) = A"
    using align_ptr_round_up [OF a(2), of p] r(2) p(2) by (simp add: A_def al_def)
  then have "p \<le> align_ptr p (2 ^ a)" by (simp add: word_le_nat_alt A)
  then have ug: "unat (align_ptr p (2 ^ a) - p) = g" by (simp add: unat_sub uA g_def)
  have "align_ptr p (2 ^ a) - p = 0 \<longleftrightarrow> g = 0" using ug by (metis unat_eq_zero)
  then have g0: "align_ptr p (2 ^ a) = p \<longleftrightarrow> g = 0" by simp
  have g32: "align_ptr p (2 ^ a) - p < 32 \<longleftrightarrow> g < 32" by (simp add: word_less_nat_alt ug)
  show ?thesis
  proof (cases "g \<noteq> 0 \<and> g < 32")
    case False
    then have "gap_of (unat p) al = g" by (auto simp: gap_of_def Let_def simp flip: A_def g_def)
    then show ?thesis
      using False ug by (auto simp: memalign_gap_def Let_def block_header_layout(1) g0 g32 simp flip: al_def)
  next
    case True
    define b where "b = round_up (A + max (32 - g) al) al"
    have gap: "gap_of (unat p) al = b - unat p" using True by (simp add: gap_of_def Let_def b_def flip: A_def g_def)
    have b: "A + max (32 - g) al \<le> b" unfolding b_def by (rule round_up(1) [OF al(1)])
    then have pb: "unat p \<le> b" using A by simp
    have "gap_of (unat p) al \<le> al + 24" unfolding al_def by (rule gap_props(2) [OF a(1) p(1)])
    then have b64: "b < 2 ^ 64" using p(2) pb gap by (simp add: al_def)
    have um: "unat (max (32 - (align_ptr p (2 ^ a) - p)) (2 ^ a)) = max (32 - g) al"
    proof -
      have "align_ptr p (2 ^ a) - p \<le> 32" using True g32 by simp
      then have "unat (32 - (align_ptr p (2 ^ a) - p)) = 32 - g" by (simp add: unat_sub ug)
      then show ?thesis by (simp add: max_def word_le_nat_alt al(2))
    qed
    define nxt where "nxt = align_ptr p (2 ^ a) + max (32 - (align_ptr p (2 ^ a) - p)) (2 ^ a)"
    have un: "unat nxt = A + max (32 - g) al"
      using b b64 unat_add_lem [THEN iffD1, of "align_ptr p (2 ^ a)" "max (32 - (align_ptr p (2 ^ a) - p)) (2 ^ a)"]
      by (simp add: nxt_def uA um)
    have ub: "unat (align_ptr nxt (2 ^ a)) = b"
      using align_ptr_round_up [OF a(2), of nxt] b64 unfolding un al_def [symmetric] b_def [symmetric] by blast
    then have "p \<le> align_ptr nxt (2 ^ a)" using pb by (simp add: word_le_nat_alt)
    then have "unat (align_ptr nxt (2 ^ a) - p) = b - unat p" by (simp add: unat_sub ub)
    then show ?thesis
      using True gap by (simp add: memalign_gap_def Let_def block_header_layout(1) g0 g32 flip: al_def nxt_def)
  qed
qed

section \<open>Returning the space before the allocation\<close>

lemma block_trim_free_leading_ok:
  assumes p: "pending N P s B x n" and g: "4 \<le> g" "g + 4 \<le> n" and co: "coalesced_but {} B"
  obtains s' B' where "block_trim_free_leading s (ptr x) (ptr g) = (s', ptr (x + g))" "pending N P s' B' (x + g) (n - g)"
    "used_map B' = used_map B" "coalesced_but {x + g} B'"
    "same_outside (own_cells N P (used_map B)) (cells (mem s)) (cells (mem s'))"
proof -
  have ok: "heap_ok N P s B ((free_map B)(x := None))" and x: "B x = Some (n, True)"
    using p by (simp_all add: pending_def)
  note okD = heap_okD [OF ok]
  have pos: "0 < n" by (rule free_not_sentinel [OF okD(2) x])
  note bf = block_facts [OF okD(2) x pos]
  define k where "k = g - 1"
  have k: "3 \<le> k" "k + 4 \<le> n" "x + k + 1 = x + g" "n - k - 1 = n - g" using g by (simp_all add: k_def)
  have lim: "n < cell_limit" "g + 4 < cell_limit" using bf(4) g(2) by simp_all
  have can: "block_can_split (mem s) (ptr x) (ptr g)"
    using block_can_split_cell [OF headers_header [OF okD(3,2) x] lim] g(2) by simp
  let ?S = "split_map B x n k True" and ?y = "x + k + 1" and ?F = "(free_map B)(x := None)"
  obtain m1 where m1: "block_split (mem s) (ptr x) (ptr k) = (m1, ptr ?y)"
    "headers_ok (cells (block_set_prev_free (fst (block_link_next m1 (ptr x))) (ptr ?y))) ?S"
    "headers_ok (cells (fst (block_link_next (block_set_prev_free m1 (ptr ?y)) (ptr x)))) ?S"
    "same_outside {x + 1 .. x + n + 2} (cells (mem s)) (cells (block_set_prev_free (fst (block_link_next m1 (ptr x))) (ptr ?y)))"
    "same_outside {x + 1 .. x + n + 2} (cells (mem s)) (cells (fst (block_link_next (block_set_prev_free m1 (ptr ?y)) (ptr x))))"
    by (rule split_free_ok [OF okD(2) x okD(3) k(1,2)])
  define m2 where "m2 = fst (block_link_next (block_set_prev_free m1 (ptr ?y)) (ptr x))"
  have fresh: "B ?y = None" by (rule split_map_fresh [OF okD(2) x pos k(2)])
  have segS: "segments P ?S" by (rule segments_split [OF okD(2) x pos k(1,2)])
  have ok2: "heap_ok N P (s\<lparr>mem := m2\<rparr>) ?S ?F"
    using ok segS m1(3) [folded m2_def]
  proof (rule heap_ok_headers)
    show "?S z = Some (j, True)" if "?F z = Some j" for z j
      using that fresh by (auto simp: split_map_def split: if_splits)
    show "same_outside {x + 1 .. x + n + 2} (cells (mem s)) (cells m2)" using m1(5) by (simp add: m2_def)
    show "j \<notin> link_cells (insert N (dom ?F))" if "j \<in> {x + 1 .. x + n + 2}" for j
      using that by (intro boundary_not_link [OF ok x pos]) auto
  qed
  have Sx: "?S x = Some (k, True)" and Sy: "?S ?y = Some (n - k - 1, True)" by (simp_all add: split_map_def)
  have Fx: "?F x = None" by simp
  note ins = block_insert_ok [OF ok2 Sx Fx]
  have "ptr g - block_header_overhead = ptr k"
    using ptr_less_8 [of g] g(1) by (simp add: block_constants k_def)
  then have run: "block_trim_free_leading s (ptr x) (ptr g) = (block_insert (s\<lparr>mem := m2\<rparr>) (ptr x), ptr ?y)"
    using can by (simp add: block_trim_free_leading_def m1(1) m2_def Let_def)
  have F: "?F(x \<mapsto> k) = (free_map ?S)(?y := None)"
    using fresh by (intro ext) (simp add: free_map_def split_map_def)
  have used: "used_map ?S = used_map B" using x fresh by (intro ext) (simp add: used_map_def split_map_def)
  have "pending N P (block_insert (s\<lparr>mem := m2\<rparr>) (ptr x)) ?S ?y (n - k - 1)"
    using ins(1) Sy by (simp only: F pending_def)
  moreover have "coalesced_but {?y} ?S"
    unfolding coalesced_but_def prev_free_split [OF okD(2) x pos k(1,2)]
  proof (intro allI impI)
    fix z j
    assume z: "?S z = Some (j, True)" "z \<notin> {?y}"
    then obtain j' where Bz: "B z = Some (j', True)" using x by (auto simp: split_map_def split: if_splits)
    then have "\<not> prev_free B z" using coalesced_butD [OF co] by simp
    moreover have "prev_free B (x + n + 1)" using x by (auto simp: prev_free_def)
    ultimately show "\<not> (if z = ?y then True else if z = x + n + 1 then True else prev_free B z)" using z(2) by auto
  qed
  moreover have "same_outside (own_cells N P (used_map B)) (cells (mem s)) (cells m2)"
    using m1(5) own_cells_block [OF okD(2) x] unfolding m2_def by (rule same_outside_mono)
  then have "same_outside (own_cells N P (used_map B)) (cells (mem s)) (cells (mem (block_insert (s\<lparr>mem := m2\<rparr>) (ptr x))))"
    by (rule same_outside_trans) (use ins(2) used in simp)
  ultimately show thesis using that [OF run [unfolded k(3)]] used unfolding k(3,4) by blast
qed

section \<open>The contract\<close>

text \<open>The request with room for the gap, in cells; 0 when it is refused.\<close>

lemma gap_request:
  assumes a: "3 \<le> a" "a < 32" and k: "3 \<le> k" "8 * k < 2 ^ 32"
  obtains K where "adjust_request_size (ptr k + 2 ^ a + sizeof_block_header) (2 ^ a) = ptr K"
    "K = 0 \<or> 8 * k + 2 ^ a + 32 \<le> 8 * K \<and> 8 * K < 2 ^ 32"
proof -
  define r where "r = ptr k + 2 ^ a + sizeof_block_header"
  have al: "(2::nat) ^ a \<le> 2 ^ 31" using a(2) by (intro power_increasing) simp_all
  have "unat (ptr k) = 8 * k" using k(2) by (simp add: unat_ptr cell_limit_def)
  moreover have "unat (2 ^ a :: u64) = 2 ^ a" using a(2) by (intro unat_pow2) simp
  ultimately have ur: "unat r = 8 * k + 2 ^ a + 32"
    using al k(2) by (simp add: r_def block_header_layout(1) unat_word_ariths)
  then have "unat r + (2 ^ a - 1) < 2 ^ 64" using al k(2) by simp
  then have "unat (align_up r (2 ^ a)) = (unat r + (2 ^ a - 1)) div 2 ^ a * 2 ^ a"
    using a(2) by (intro align_up_correct) simp_all
  then have up: "unat (align_up r (2 ^ a)) = round_up (unat r) (2 ^ a)" by (simp only: round_up_def)
  define R where "R = round_up (unat r) (2 ^ a)"
  have R: "unat r \<le> R" "2 ^ a dvd R" using round_up [of "2 ^ a" "unat r"] by (simp_all add: R_def)
  have "(2::nat) ^ 3 dvd 2 ^ a" by (rule le_imp_power_dvd [OF a(1)])
  then have R8: "8 dvd R" using R(2) by (auto intro: dvd_trans)
  have "r \<noteq> 0" using ur by auto
  have adj: "adjust_request_size r (2 ^ a) = (if R < 2 ^ 32 then align_up r (2 ^ a) else 0)"
    using \<open>r \<noteq> 0\<close> up R(1) ur by (simp add: adjust_request_size_def tlsf_constants Let_def word_less_nat_alt R_def)
  show thesis
  proof (cases "R < 2 ^ 32")
    case False
    then show thesis using that [of 0] adj by (simp add: r_def)
  next
    case True
    have "align_up r (2 ^ a) = ptr (R div 8)"
      using aligned_ptr [of "align_up r (2 ^ a)"] R8 by (simp add: up R_def [symmetric])
    moreover have "8 * (R div 8) = R" using R8 by simp
    ultimately show thesis using that [of "R div 8"] adj True R(1) ur by (simp add: r_def)
  qed
qed

lemma used_pending: "pending N P s B x n \<Longrightarrow> used_map B x = None"
  by (simp add: pending_def used_map_def)

text \<open>The choice of the address inside of the block that was found.\<close>

lemma memalign_gap_cells:
  assumes p: "pending N P s B x n" and a: "3 \<le> a" "a < 32" and k: "3 \<le> k" "k \<le> n"
    and room: "a \<noteq> 3 \<Longrightarrow> 8 * k + 2 ^ a + 32 \<le> 8 * n"
  defines "gap \<equiv> memalign_gap (ptr (x + 2)) (2 ^ a)"
  obtains "gap = 0" "2 ^ a dvd 8 * (x + 2)"
  | G where "gap = ptr G" "gap \<noteq> 0" "4 \<le> G" "G + 4 \<le> n" "k \<le> n - G" "2 ^ a dvd 8 * (x + G + 2)"
proof -
  have ok: "heap_ok N P s B ((free_map B)(x := None))" and x: "B x = Some (n, True)"
    using p by (simp_all add: pending_def)
  note okD = heap_okD [OF ok]
  note bf = block_facts [OF okD(2) x free_not_sentinel [OF okD(2) x]]
  define A where "A = 8 * (x + 2)"
  have uA: "unat (ptr (x + 2)) = A" using bf(2,4) by (simp add: unat_ptr A_def)
  have A8: "8 dvd A" by (simp add: A_def)
  have top: "A + 8 * n \<le> 2 ^ 64" using bf(4) by (simp add: A_def cell_limit_def)
  note gp = gap_props [OF a(1) A8]
  have ug: "unat gap = gap_of A (2 ^ a)"
  proof (cases "a = 3")
    case True
    have r: "round_up A 8 = A" using A8 by (intro round_up_dvd) simp_all
    have "A < 2 ^ 64" using top bf(2) by simp
    then have "unat (align_ptr (ptr (x + 2)) 8) = A" using align_ptr_round_up [of 3 "ptr (x + 2)"] by (simp add: uA r)
    then have "align_ptr (ptr (x + 2)) 8 = ptr (x + 2)" using uA by (simp add: word_unat_eq_iff)
    then show ?thesis by (simp add: gap_def True memalign_gap_def Let_def gap_of_def r)
  next
    case False
    have "A + 2 ^ a + 56 \<le> 2 ^ 64" using room [OF False] top k(1) by linarith
    then show ?thesis using memalign_gap_unat [of a "ptr (x + 2)"] a A8 by (simp add: gap_def uA)
  qed
  show thesis
  proof (cases "gap = 0")
    case True
    then have "2 ^ a dvd 8 * (x + 2)" using gp(4) ug by (simp add: A_def)
    then show thesis using that(1) True by blast
  next
    case False
    then have g: "32 \<le> unat gap" "unat gap \<le> 2 ^ a + 24" "8 dvd unat gap" "2 ^ a dvd A + unat gap"
      using gp ug by (auto simp: unat_eq_zero)
    have "a \<noteq> 3"
    proof
      assume "a = 3"
      then have "round_up A (2 ^ a) = A" using A8 by (intro round_up_dvd) simp_all
      then show False using g(1) ug by (simp add: gap_of_def)
    qed
    define G where "G = unat gap div 8"
    have G: "unat gap = 8 * G" using g(3) by (simp add: G_def)
    then have gap: "gap = ptr G" using aligned_ptr [of gap] by simp
    have G4: "4 \<le> G" "G + 4 \<le> n" "k \<le> n - G" using room [OF \<open>a \<noteq> 3\<close>] g(1,2) k(1) unfolding G by linarith+
    have "2 ^ a dvd 8 * (x + G + 2)" using g(4) by (simp add: A_def G algebra_simps)
    then show thesis using that(2) [OF gap False G4] by blast
  qed
qed

lemma memalign_place:
  assumes p: "pending N P s B x n" and co: "coalesced_but {} B" and a: "3 \<le> a" "a < 32" and k: "3 \<le> k" "k \<le> n"
    and room: "a \<noteq> 3 \<Longrightarrow> 8 * k + 2 ^ a + 32 \<le> 8 * n"
  defines "gap \<equiv> memalign_gap (ptr (x + 2)) (2 ^ a)"
  obtains s' B' y m where
    "(if gap \<noteq> 0 then block_trim_free_leading s (ptr x) gap else (s, ptr x)) = (s', ptr y)"
    "pending N P s' B' y m" "k \<le> m" "used_map B' = used_map B" "coalesced_but {y} B'" "2 ^ a dvd 8 * (y + 2)"
    "same_outside (own_cells N P (used_map B)) (cells (mem s)) (cells (mem s'))"
proof (rule memalign_gap_cells [OF p a k room, folded gap_def])
  assume "gap = 0" "2 ^ a dvd 8 * (x + 2)"
  then show thesis using that [of s x B n] p k(2) coalesced_but_mono [OF co, of "{x}"] by simp
next
  fix G
  assume G: "gap = ptr G" "gap \<noteq> 0" "4 \<le> G" "G + 4 \<le> n" "k \<le> n - G" "2 ^ a dvd 8 * (x + G + 2)"
  obtain s' B' where s': "block_trim_free_leading s (ptr x) (ptr G) = (s', ptr (x + G))" "pending N P s' B' (x + G) (n - G)"
    "used_map B' = used_map B" "coalesced_but {x + G} B'"
    "same_outside (own_cells N P (used_map B)) (cells (mem s)) (cells (mem s'))"
    by (rule block_trim_free_leading_ok [OF p G(3,4) co])
  then show thesis using that [of s' "x + G" B' "n - G"] G by simp
qed

text \<open>The size that is looked for, in cells.\<close>

definition memalign_size :: "u64 \<Rightarrow> u64 \<Rightarrow> u64" where
  "memalign_size adjust align =
     (if adjust \<noteq> 0 \<and> align > ALIGN_SIZE then adjust_request_size (adjust + align + sizeof_block_header) align else adjust)"

lemma small_alignment: "a \<le> 3 \<Longrightarrow> \<not> (2 ^ a :: u64) > ALIGN_SIZE"
  using unat_pow2 [of a] power_increasing [of a 3 "2 :: nat"] by (simp add: word_less_nat_alt tlsf_constants)

lemma memalign_size_cells:
  assumes k: "0 < k \<Longrightarrow> 3 \<le> k" "8 * k < 2 ^ 32" and a: "a < 32" and nz: "memalign_size (ptr k) (2 ^ a) \<noteq> 0"
  obtains c where "memalign_size (ptr k) (2 ^ a) = ptr c" "8 * c < 2 ^ 32" "0 < k" "3 \<le> k" "k \<le> c"
    "3 < a \<Longrightarrow> 8 * k + 2 ^ a + 32 \<le> 8 * c"
proof -
  have k0: "ptr k = 0 \<longleftrightarrow> k = 0" using ptr_inj [of k 0] k(2) by (simp add: cell_limit_def)
  have pos: "0 < k" using nz k0 by (auto simp: memalign_size_def intro: gr0I)
  show thesis
  proof (cases "a \<le> 3")
    case True
    then show thesis using that [of k] small_alignment [OF True] k pos by (simp add: memalign_size_def)
  next
    case False
    obtain c where c: "adjust_request_size (ptr k + 2 ^ a + sizeof_block_header) (2 ^ a) = ptr c"
      "c = 0 \<or> 8 * k + 2 ^ a + 32 \<le> 8 * c \<and> 8 * c < 2 ^ 32"
      by (rule gap_request [OF _ a k(1) [OF pos] k(2)]) (use False in simp)
    have "(2::nat) ^ 3 < 2 ^ a" using False by (intro power_strict_increasing) simp_all
    then have "(2 ^ a :: u64) > ALIGN_SIZE" using a unat_pow2 [of a] by (simp add: word_less_nat_alt tlsf_constants)
    then have "memalign_size (ptr k) (2 ^ a) = ptr c" using c(1) k0 pos by (simp add: memalign_size_def)
    then show thesis using that [of c] c(2) nz k(1) pos by auto
  qed
qed

lemma tlsf_memalign_ok:
  assumes inv: "tlsf_inv N P s B" and sz: "unat sz + 7 < 2 ^ 64" and a: "3 \<le> a" "a < 32"
  obtains "tlsf_memalign s (2 ^ a) sz = (s, 0)"
  | s' B' y j where "tlsf_memalign s (2 ^ a) sz = (s', ptr (y + 2))" "tlsf_inv N P s' B'" "used_map B y = None"
    "request_cells (unat sz) \<le> j" "0 < request_cells (unat sz)" "used_map B' = (used_map B)(y \<mapsto> j)" "2 ^ a dvd 8 * (y + 2)"
    "same_outside (own_cells N P (used_map B)) (cells (mem s)) (cells (mem s'))"
proof -
  define k where "k = request_cells (unat sz)"
  have adj: "adjust_request_size sz ALIGN_SIZE = ptr k" unfolding k_def by (rule request_cells(1) [OF sz])
  have klim: "8 * k < 2 ^ 32" unfolding k_def by (rule request_cells(4) [OF sz])
  define K where "K = memalign_size (ptr k) (2 ^ a)"
  have run: "tlsf_memalign s (2 ^ a) sz = (case block_locate_free s K of (control, block) \<Rightarrow>
      case (if block \<noteq> 0 then
              (if memalign_gap (block_to_ptr block) (2 ^ a) \<noteq> 0
               then block_trim_free_leading control block (memalign_gap (block_to_ptr block) (2 ^ a)) else (control, block))
            else (control, block)) of (control, block) \<Rightarrow> block_prepare_used control block (ptr k))"
    unfolding tlsf_memalign_def adj Let_def K_def memalign_size_def by simp
  have refused: "tlsf_memalign s (2 ^ a) sz = (s, 0)" if "block_locate_free s K = (s, 0)"
    unfolding run that by (simp add: block_prepare_used_def)
  show thesis
  proof (cases "K = 0")
    case True
    then show thesis using refused that(1) by (simp add: block_locate_free_def)
  next
    case False
    have k3: "0 < k \<Longrightarrow> 3 \<le> k" using request_cells(2) [OF sz] by (simp add: k_def)
    obtain c where c': "K = ptr c" "8 * c < 2 ^ 32" "0 < k" "3 \<le> k" "k \<le> c" "3 < a \<Longrightarrow> 8 * k + 2 ^ a + 32 \<le> 8 * c"
      using memalign_size_cells [OF k3 klim a(2) False [unfolded K_def]] unfolding K_def by metis
    note k = c'(3,4)
    have c: "K = ptr c" "8 * c < 2 ^ 32" "k \<le> c" "a \<noteq> 3 \<Longrightarrow> 8 * k + 2 ^ a + 32 \<le> 8 * c" using c' a(1) by simp_all
    have "0 < c" using c(3) k(1) by simp
    show thesis
    proof (rule block_locate_free_ok [OF inv c(2) \<open>0 < c\<close>])
      assume "block_locate_free s (ptr c) = (s, 0)"
      then show thesis using refused that(1) c(1) by simp
    next
      fix s1 x n
      assume loc: "block_locate_free s (ptr c) = (s1, ptr x)" "pending N P s1 B x n" "c \<le> n" "ptr x \<noteq> 0"
        "same_outside (own_cells N P (used_map B)) (cells (mem s)) (cells (mem s1))"
      have co: "coalesced_but {} B" using inv by (simp add: tlsf_inv_def)
      have kn: "k \<le> n" using c(3) loc(3) by simp
      have room: "8 * k + 2 ^ a + 32 \<le> 8 * n" if "a \<noteq> 3" using c(4) [OF that] loc(3) by linarith
      obtain s2 B2 y m where pl: "(if memalign_gap (ptr (x + 2)) (2 ^ a) \<noteq> 0
          then block_trim_free_leading s1 (ptr x) (memalign_gap (ptr (x + 2)) (2 ^ a)) else (s1, ptr x)) = (s2, ptr y)"
        "pending N P s2 B2 y m" "k \<le> m" "used_map B2 = used_map B" "coalesced_but {y} B2" "2 ^ a dvd 8 * (y + 2)"
        "same_outside (own_cells N P (used_map B)) (cells (mem s1)) (cells (mem s2))"
        by (rule memalign_place [OF loc(2) co a k(2) kn room])
      obtain s' B' where prep: "block_prepare_used s2 (ptr y) (ptr k) = (s', ptr (y + 2))" "tlsf_inv N P s' B'"
        "used_map B' = (used_map B2)(y \<mapsto> (if k + 4 \<le> m then k else m))"
        "same_outside (own_cells N P (used_map B2)) (cells (mem s2)) (cells (mem s'))"
        by (rule block_prepare_used_ok [OF pl(2) k(2) pl(3,5)])
      have "tlsf_memalign s (2 ^ a) sz = (s', ptr (y + 2))"
        by (simp only: run c(1) loc(1) prod.case block_to_ptr_cell if_P [OF loc(4)] pl(1) prep(1))
      moreover have "used_map B y = None" using used_pending [OF pl(2)] pl(4) by simp
      moreover have "same_outside (own_cells N P (used_map B)) (cells (mem s)) (cells (mem s'))"
        using same_outside_trans [OF loc(5) same_outside_trans [OF pl(7)]] prep(4) pl(4) by simp
      ultimately show thesis
        using that(2) [of s' y B' "if k + 4 \<le> m then k else m"] prep(2,3) pl(3,4,6) k(1) by (simp add: k_def)
    qed
  qed
qed

section \<open>Small and large alignments\<close>

text \<open>Up to the base alignment \<open>tlsf_memalign\<close> is \<open>tlsf_malloc\<close>.\<close>

lemma memalign_gap_small:
  assumes p: "pending N P s B x n" and a: "a < 3"
  shows "memalign_gap (ptr (x + 2)) (2 ^ a) = 0"
proof -
  have x: "B x = Some (n, True)" and seg: "segments P B"
    using p heap_okD(2) by (auto simp: pending_def)
  have lim: "x + 2 < cell_limit" using block_facts(2,4) [OF seg x free_not_sentinel [OF seg x]] by simp
  have "8 dvd unat (ptr (x + 2))" by (simp add: unat_ptr [OF lim])
  moreover have "(2::nat) ^ a dvd 2 ^ 3" using a by (intro le_imp_power_dvd) simp
  ultimately have "2 ^ a dvd unat (ptr (x + 2))" using dvd_trans [of "2 ^ a" 8] by simp
  then have up: "round_up (unat (ptr (x + 2))) (2 ^ a) = unat (ptr (x + 2))" by (intro round_up_dvd) simp_all
  then have "unat (align_ptr (ptr (x + 2)) (2 ^ a)) = unat (ptr (x + 2))"
    using align_ptr_round_up [of a "ptr (x + 2)"] a unsigned_less [of "ptr (x + 2)", where 'a = nat] by simp
  then have "align_ptr (ptr (x + 2)) (2 ^ a) = ptr (x + 2)" by (simp only: unsigned_word_eqI)
  then show ?thesis by (simp add: memalign_gap_def)
qed

lemma tlsf_memalign_small:
  assumes inv: "tlsf_inv N P s B" and sz: "unat sz + 7 < 2 ^ 64" and a: "a < 3"
  shows "tlsf_memalign s (2 ^ a) sz = tlsf_malloc s sz"
proof -
  define k where "k = request_cells (unat sz)"
  have adj: "adjust_request_size sz ALIGN_SIZE = ptr k" unfolding k_def by (rule request_cells(1) [OF sz])
  have klim: "8 * k < 2 ^ 32" unfolding k_def by (rule request_cells(4) [OF sz])
  have small: "\<not> (2 ^ a :: u64) > ALIGN_SIZE" using small_alignment [of a] a by simp
  have run: "tlsf_memalign s (2 ^ a) sz = (case block_locate_free s (ptr k) of (control, block) \<Rightarrow>
      case (if block \<noteq> 0 then
              (if memalign_gap (block_to_ptr block) (2 ^ a) \<noteq> 0
               then block_trim_free_leading control block (memalign_gap (block_to_ptr block) (2 ^ a)) else (control, block))
            else (control, block)) of (control, block) \<Rightarrow> block_prepare_used control block (ptr k))"
    unfolding tlsf_memalign_def adj Let_def using small by simp
  have plain: "tlsf_malloc s sz = (case block_locate_free s (ptr k) of (control, block) \<Rightarrow>
      block_prepare_used control block (ptr k))"
    unfolding tlsf_malloc_def adj Let_def ..
  show ?thesis
  proof (cases "k = 0")
    case True
    then show ?thesis by (simp add: run plain block_locate_free_def)
  next
    case False
    show ?thesis
    proof (rule block_locate_free_ok [OF inv klim])
      fix s' x n
      assume loc: "block_locate_free s (ptr k) = (s', ptr x)" "pending N P s' B x n" "ptr x \<noteq> 0"
      have "memalign_gap (ptr (x + 2)) (2 ^ a) = 0" by (rule memalign_gap_small [OF loc(2) a])
      then show ?thesis by (simp add: run plain loc(1) block_to_ptr_cell)
    qed (use False in \<open>simp_all add: run plain block_prepare_used_def\<close>)
  qed
qed

text \<open>From 4 GiB on no block is large enough.\<close>

lemma memalign_size_large:
  assumes klim: "8 * k < 2 ^ 32" and a: "32 \<le> a" "a < 63"
  shows "memalign_size (ptr k) (2 ^ a) = 0"
proof -
  define r where "r = ptr k + 2 ^ a + sizeof_block_header"
  have al: "(2::nat) ^ a \<le> 2 ^ 62" using a(2) by (intro power_increasing) simp_all
  have big: "(2::nat) ^ 32 \<le> 2 ^ a" using a(1) by (intro power_increasing) simp_all
  have "unat (ptr k) = 8 * k" using klim by (simp add: unat_ptr cell_limit_def)
  moreover have ua: "unat (2 ^ a :: u64) = 2 ^ a" using a(2) by (intro unat_pow2) simp
  ultimately have ur: "unat r = 8 * k + 2 ^ a + 32"
    using al klim by (simp add: r_def block_header_layout(1) unat_word_ariths)
  then have "unat r + (2 ^ a - 1) < 2 ^ 64" using al klim by simp
  then have "unat (align_up r (2 ^ a)) = round_up (unat r) (2 ^ a)"
    unfolding round_up_def using a(2) by (intro align_up_correct) simp_all
  then have "unat r \<le> unat (align_up r (2 ^ a))" using round_up(1) [of "2 ^ a" "unat r"] by simp
  then have "\<not> align_up r (2 ^ a) < block_size_max"
    using ur big by (simp add: word_less_nat_alt tlsf_constants)
  then have K: "adjust_request_size r (2 ^ a) = 0" by (simp add: adjust_request_size_def Let_def)
  have "(2 ^ a :: u64) > ALIGN_SIZE" using ua big by (simp add: word_less_nat_alt tlsf_constants)
  then show ?thesis using K by (simp add: memalign_size_def r_def)
qed

lemma tlsf_memalign_large:
  assumes sz: "unat sz + 7 < 2 ^ 64" and a: "32 \<le> a" "a < 63"
  shows "tlsf_memalign s (2 ^ a) sz = (s, 0)"
proof -
  define k where "k = request_cells (unat sz)"
  have adj: "adjust_request_size sz ALIGN_SIZE = ptr k" unfolding k_def by (rule request_cells(1) [OF sz])
  have "memalign_size (ptr k) (2 ^ a) = 0"
    unfolding k_def by (rule memalign_size_large [OF request_cells(4) [OF sz] a])
  then show ?thesis
    unfolding tlsf_memalign_def adj Let_def memalign_size_def
    by (simp add: block_locate_free_def block_prepare_used_def)
qed

section \<open>The contract\<close>

lemma tlsf_memalign_middle:
  assumes "tlsf_state base P s A" "unat sz + 7 < 2 ^ 64" "3 \<le> a" "a < 32"
  shows "tlsf_memalign s (2 ^ a) sz = (s, 0)
    \<or> (\<exists>s' p k. tlsf_memalign s (2 ^ a) sz = (s', p) \<and> p \<noteq> 0 \<and> A p = None \<and> unat sz \<le> k \<and> 2 ^ a dvd unat p
        \<and> tlsf_state base P s' (A(p \<mapsto> k)) \<and> keeps base P A (mem s) (mem s'))"
proof -
  obtain N B where b: "base = ptr N" "N + 817 \<le> cell_limit" "tlsf_inv N P s B" "A = allocations B" "segments P B"
    "unat base = 8 * N" "control_apart N P"
    by (rule tlsf_stateE [OF assms(1)])
  show ?thesis
  proof (rule tlsf_memalign_ok [OF b(3) assms(2-4)])
    fix s' B' y j
    assume m: "tlsf_memalign s (2 ^ a) sz = (s', ptr (y + 2))" "tlsf_inv N P s' B'" "used_map B y = None"
      "request_cells (unat sz) \<le> j" "0 < request_cells (unat sz)" "used_map B' = (used_map B)(y \<mapsto> j)" "2 ^ a dvd 8 * (y + 2)"
      "same_outside (own_cells N P (used_map B)) (cells (mem s)) (cells (mem s'))"
    have seg: "segments P B'" using m(2) heap_okD(2) unfolding tlsf_inv_def by blast
    have y: "B' y = Some (j, False)" using m(6) by (metis fun_upd_same used_map_Some)
    have "0 < j" using m(4,5) by simp
    then have lim: "y + 2 < cell_limit" using block_facts(2,4) [OF seg y] by simp
    have A: "allocations B' = A(ptr (y + 2) \<mapsto> 8 * j)"
      using allocations_upd [OF m(6) lim] m(4,5) by (simp add: b(4))
    have "tlsf_state base P s' (A(ptr (y + 2) \<mapsto> 8 * j))"
      by (rule tlsf_stateI [OF b(1,2) m(2) A])
    moreover have "A (ptr (y + 2)) = None"
    proof (cases "B y")
      case (Some v)
      then show ?thesis using m(3) by (cases v) (auto simp: b(4) allocations_ptr [OF lim] used_map_def split: bool.splits)
    qed (simp add: b(4) allocations_ptr [OF lim])
    moreover have "unat sz \<le> 8 * j" using request_cells(3) [OF assms(2)] m(4,5) by simp
    moreover have "keeps base P A (mem s) (mem s')"
      by (rule own_cells_keeps [OF b(7,5) m(8) _ _ b(6)]) (simp_all add: b(4))
    moreover have "ptr (y + 2) \<noteq> 0" using lim by (intro ptr_nonzero) simp_all
    moreover have "2 ^ a dvd unat (ptr (y + 2))" using m(7) by (simp add: unat_ptr [OF lim])
    ultimately show ?thesis using m(1) by blast
  qed blast
qed

lemma tlsf_memalign_contract:
  assumes st: "tlsf_state base P s A" and sz: "unat sz + 7 < 2 ^ 64" and a: "a < 63"
  obtains "tlsf_memalign s (2 ^ a) sz = (s, 0)"
  | s' p k where "tlsf_memalign s (2 ^ a) sz = (s', p)" "p \<noteq> 0" "A p = None" "unat sz \<le> k" "2 ^ a dvd unat p"
    "tlsf_state base P s' (A(p \<mapsto> k))" "keeps base P A (mem s) (mem s')"
proof -
  consider "a < 3" | "3 \<le> a" "a < 32" | "32 \<le> a" by linarith
  then show thesis
  proof cases
    case 1
    obtain N B where "tlsf_inv N P s B" using st by (rule tlsf_stateE)
    then have run: "tlsf_memalign s (2 ^ a) sz = tlsf_malloc s sz" by (rule tlsf_memalign_small [OF _ sz 1])
    show thesis
    proof (rule tlsf_malloc_contract [OF st sz])
      fix s' p k
      assume m: "tlsf_malloc s sz = (s', p)" "p \<noteq> 0" "A p = None" "unat sz \<le> k" "tlsf_state base P s' (A(p \<mapsto> k))"
        "keeps base P A (mem s) (mem s')"
      have "8 dvd unat p" using tlsf.live_bounds [OF m(5), of p k] by auto
      moreover have "(2::nat) ^ a dvd 2 ^ 3" using 1 by (intro le_imp_power_dvd) simp
      ultimately have "2 ^ a dvd unat p" using dvd_trans [of "2 ^ a" 8] by simp
      then show thesis using that(2) [of s' p k] m run by simp
    qed (use that(1) run in simp)
  next
    case 2
    show thesis using tlsf_memalign_middle [OF st sz 2] that by blast
  next
    case 3
    show thesis using tlsf_memalign_large [OF sz 3 a] that(1) by simp
  qed
qed

section \<open>Properties\<close>

text \<open>
  C27. \<open>tlsf_memalign\<close> at a power of two below 2^63 either returns the null pointer and changes nothing, or
  returns a fresh allocation of at least the requested size at a multiple of the alignment; every live
  allocation and all memory outside of the arena keep their contents, and the invariant holds again (the
  space before the allocation is a free block of its own or empty).
\<close>

theorem tlsf_memalign_correct:
  assumes "tlsf_state base P s A" "unat sz + 7 < 2 ^ 64" "a < 63"
  shows "tlsf_memalign s (2 ^ a) sz = (s, 0)
    \<or> (\<exists>s' p k. tlsf_memalign s (2 ^ a) sz = (s', p) \<and> p \<noteq> 0 \<and> A p = None \<and> unat sz \<le> k \<and> 2 ^ a dvd unat p
        \<and> tlsf_state base P s' (A(p \<mapsto> k)) \<and> keeps base P A (mem s) (mem s'))"
  by (rule tlsf_memalign_contract [OF assms]) blast+

theorem tlsf_memalign_correct_witness:
  "\<exists>s s' p. tlsf_create_with_pool (\<lambda>_. 0) 0x80000000 0x4000000 = Some (Some s)
    \<and> tlsf_memalign s 4096 100 = (s', p) \<and> (p \<noteq> 0 \<longrightarrow> 4096 dvd unat p)"
proof -
  obtain s s' p where s: "tlsf_create_with_pool (\<lambda>_. 0) 0x80000000 0x4000000 = Some (Some s)"
    "tlsf_state 0x80000000 (arena_pool 0x80000000 0x4000000) s (sizes Map.empty)" "tlsf_malloc s 100 = (s', p)" "p \<noteq> 0"
    by (rule malloc_example)
  have sz: "unat (100 :: u64) + 7 < 2 ^ 64" "(12 :: nat) < 63" by simp_all
  obtain s'' q where r: "tlsf_memalign s 4096 100 = (s'', q)" by fastforce
  have "4096 dvd unat q" if "q \<noteq> 0" using tlsf_memalign_correct [OF s(2) sz] r that by auto
  then show ?thesis using s(1) r by blast
qed

end
