(* ===== verification/TlsfClient.thy ===== *)
theory TlsfClient imports TlsfRealloc TlsfMemalign begin

text \<open>
  What the clients of \<open>tlsf.c\<close> get: the properties of creation and of every sequence of the calls \<open>tlsf_malloc\<close>,
  \<open>tlsf_free\<close>, \<open>tlsf_realloc\<close> and \<open>tlsf_memalign\<close>, and that freed memory is served again.
\<close>

unbundle bit_operations_syntax

section \<open>The allocator as an instance of the full interface\<close>

interpretation tlsf_full: full_allocator "tlsf_state base P" mem tlsf_capacity tlsf_malloc tlsf_free tlsf_poke
  tlsf_realloc tlsf_memalign "2 ^ 32 - 8" for base P
proof
  fix s s' :: control_t and A :: allocations and p q r a sz :: u64 and k j i n :: nat
  show "tlsf_realloc s 0 sz = tlsf_malloc s sz" by (simp add: tlsf_realloc_def)
  show "tlsf_realloc s p 0 = (tlsf_free s p, 0)" if "p \<noteq> 0" using that by (simp add: tlsf_realloc_def)
  assume st: "tlsf_state base P s A"
  {
    assume p: "A p = Some k" and sz: "sz \<noteq> 0" "unat sz \<le> 2 ^ 32 - 8"
    have "0 < unat sz" using sz(1) by (simp add: unat_gt_0)
    note contract = tlsf_realloc_contract [OF st p this sz(2)]
    show "tlsf_state base P s' A \<and> mem s' = mem s" if "tlsf_realloc s p sz = (s', 0)"
      by (rule contract) (use that st in auto)
    assume run: "tlsf_realloc s p sz = (s', q)" and q: "q \<noteq> 0"
    obtain k' where served: "q = p \<or> A q = None" "unat sz \<le> k'" "tlsf_state base P s' (A(p := None, q \<mapsto> k'))"
      "keeps base P (A(p := None)) (mem s) (mem s')"
      "\<And>i. i < min k (unat sz) \<Longrightarrow> mem s' (q + of_nat i) = mem s (p + of_nat i)"
      by (rule contract) (use run q in auto)
    show "(q = p \<or> A q = None) \<and> (\<exists>k'\<ge>unat sz. tlsf_state base P s' (A(p := None, q \<mapsto> k')))"
      using served(1-3) by blast
    show "mem s' (q + of_nat i) = mem s (p + of_nat i)" if "i < min k (unat sz)" by (rule served(5) [OF that])
    show "mem s' a = mem s a" if "(A(p := None)) r = Some j" "unat a \<in> region r j"
      by (rule keeps_live [OF served(4) that])
  next
    assume sz: "unat sz + 7 < 2 ^ 64" and n: "n < 63"
    note contract = tlsf_memalign_contract [OF st sz n]
    show "tlsf_state base P s' A" if "tlsf_memalign s (2 ^ n) sz = (s', 0)"
      by (rule contract) (use that st in auto)
    assume run: "tlsf_memalign s (2 ^ n) sz = (s', p)"
    have keeps: "keeps base P A (mem s) (mem s')" by (rule contract) (use run in \<open>auto simp: keeps_def\<close>)
    show "A p = None \<and> 2 ^ n dvd unat p \<and> (\<exists>k\<ge>unat sz. tlsf_state base P s' (A(p \<mapsto> k)))" if "p \<noteq> 0"
      by (rule contract) (use that run in auto)
    show "mem s' a = mem s a" if "A q = Some j" "unat a \<in> region q j"
      by (rule keeps_live [OF keeps that])
  }
qed

section \<open>Runs of the allocator\<close>

abbreviation tlsf_call :: "control_t \<Rightarrow> client_op \<Rightarrow> control_t \<times> u64" where
  "tlsf_call \<equiv> client_call (heap_call tlsf_malloc tlsf_free tlsf_poke) tlsf_realloc tlsf_memalign"

abbreviation tlsf_legal :: "ideal \<Rightarrow> client_op \<Rightarrow> bool" where
  "tlsf_legal \<equiv> legal_client (2 ^ 32 - 8)"

abbreviation tlsf_reachable :: "memory \<Rightarrow> u64 \<Rightarrow> u64 \<Rightarrow> control_t \<Rightarrow> ideal \<Rightarrow> bool" where
  "tlsf_reachable m base bytes \<equiv>
     heap_reachable (\<lambda>s. tlsf_create_with_pool m base bytes = Some (Some s)) tlsf_legal tlsf_call
       (\<lambda>s op r. client_observe (mem s) (tlsf_capacity s r) op r)"

lemma reachable_state:
  assumes "arena_ok base bytes" "tlsf_reachable m base bytes s H"
  shows "tlsf_state base (arena_pool base bytes) s (sizes H)" "agrees (mem s) H"
  using tlsf_full.client_reachable [OF assms(2)] created_state(1) [OF assms(1)] by blast+

lemma malloc_outside:
  assumes st: "tlsf_state base P s A" and m: "unat sz + 7 < 2 ^ 64" "tlsf_malloc s sz = (s', r)" and a: "outside base P a"
  shows "mem s' a = mem s a"
proof (cases "r = 0")
  case True
  then show ?thesis using tlsf_malloc_null [OF st m(1)] m(2) by simp
next
  case False
  show ?thesis by (rule tlsf_malloc_fresh [OF st m False]) (use keeps_outside a in blast)
qed

lemma basic_outside:
  assumes st: "tlsf_state base P s (sizes H)" and leg: "legal H op"
    and call: "heap_call tlsf_malloc tlsf_free tlsf_poke s op = (s', r)" and a: "outside base P a"
  shows "mem s' a = mem s a"
proof (cases op)
  case (Malloc sz)
  then show ?thesis using malloc_outside [OF st _ _ a] leg call by simp
next
  case (Free p)
  then have s': "s' = tlsf_free s p" using call by simp
  show ?thesis
  proof (cases "p = 0")
    case True
    then show ?thesis by (simp add: s' tlsf_free_def)
  next
    case False
    then obtain bs where "H p = Some bs" using leg Free by auto
    then have "sizes H p = Some (length bs)" by simp
    then show ?thesis
      unfolding s' using tlsf_free_contract(2) [OF st] keeps_outside a by blast
  qed
next
  case (Poke p i v)
  then obtain bs where p: "H p = Some bs" "i < length bs" using leg by (auto split: option.splits)
  then have live: "sizes H p = Some (length bs)" by simp
  have "unat (p + of_nat i) \<in> region p (length bs)" by (rule tlsf.live_byte [OF st live p(2)])
  then have "\<not> outside base P (p + of_nat i)" by (rule live_not_outside [OF st live])
  then have "a \<noteq> p + of_nat i" using a by auto
  then show ?thesis using call Poke by auto
qed

lemma call_outside:
  assumes st: "tlsf_state base P s (sizes H)" and leg: "tlsf_legal H op" and call: "tlsf_call s op = (s', r)"
    and a: "outside base P a"
  shows "mem s' a = mem s a"
proof (cases op)
  case (Basic op')
  then show ?thesis using basic_outside [OF st _ _ a] leg call by simp
next
  case (Memalign al sz)
  then obtain n where n: "al = 2 ^ n" "n < 63" and sz: "unat sz + 7 < 2 ^ 64" using leg by (auto simp: list_ex_iff)
  show ?thesis
    by (rule tlsf_memalign_contract [OF st sz n(2)]) (use call Memalign n(1) keeps_outside a in auto)
next
  case (Realloc p sz)
  consider "p = 0" | "p \<noteq> 0" "sz = 0" | "p \<noteq> 0" "sz \<noteq> 0" by blast
  then show ?thesis
  proof cases
    case 1
    then show ?thesis using malloc_outside [OF st _ _ a, of sz s' r] leg call by (simp add: Realloc tlsf_realloc_def)
  next
    case 2
    then have "legal H (Free p)" "heap_call tlsf_malloc tlsf_free tlsf_poke s (Free p) = (s', r)"
      using leg call by (simp_all add: Realloc tlsf_realloc_def)
    then show ?thesis by (rule basic_outside [OF st _ _ a])
  next
    case 3
    then obtain bs where p: "H p = Some bs" "unat sz \<le> 2 ^ 32 - 8" using leg by (auto simp: Realloc)
    have live: "sizes H p = Some (length bs)" "0 < unat sz" using p(1) 3(2) by (simp_all add: unat_gt_0)
    show ?thesis
      by (rule tlsf_realloc_contract [OF st live p(2)]) (use call Realloc keeps_outside a in auto)
  qed
qed

lemma reachable_outside:
  assumes "tlsf_reachable m base bytes s H" "arena_ok base bytes" "outside base (arena_pool base bytes) a"
  shows "mem s a = m a"
  using assms(1)
proof induction
  case (start s)
  then show ?case using created_state(2) [OF assms(2)] keeps_outside assms(3) by blast
next
  case (step s H op s' r)
  have "mem s' a = mem s a"
    by (rule call_outside [OF reachable_state(1) [OF assms(2) step.hyps(1)] step.hyps(2,3) assms(3)])
  then show ?case using step.IH by simp
qed

lemma arena_live:
  assumes "arena_ok base bytes" "tlsf_state base (arena_pool base bytes) s A" "A p = Some k"
  shows "unat base + 6544 \<le> unat p" "unat p + k \<le> unat base + unat bytes"
proof -
  have "unat base mod 8 = 0" using assms(1) by (simp add: arena_ok_def)
  then have "8 * (unat base div 8) = unat base" by auto
  moreover have "8 * (unat base div 8 + 816 + 2) \<le> unat p" "unat p + k \<le> 8 * (unat base div 8 + 816 + arena_cells bytes + 2)"
    using tlsf_live(4) [OF assms(2,3)] by (auto simp: arena_pools_def)
  ultimately show "unat base + 6544 \<le> unat p" "unat p + k \<le> unat base + unat bytes"
    using arena_cells_le [OF assms(1)] by simp_all
qed

section \<open>Properties\<close>

text \<open>
  C28. \<open>tlsf_create_with_pool\<close> on an aligned arena of at least 6576 bytes and less than 4 GiB succeeds, whatever the
  memory held: no list index leaves the table, the state satisfies the invariant of the heap (block headers,
  boundary tags, free lists and bitmaps agree) with no live allocation, and no byte outside of the arena changes.
\<close>

theorem tlsf_create_correct:
  assumes "arena_ok base bytes"
  shows "\<exists>s. tlsf_create_with_pool m base bytes = Some (Some s)
    \<and> tlsf_state base (arena_pool base bytes) s Map.empty
    \<and> (\<forall>a. outside base (arena_pool base bytes) a \<longrightarrow> mem s a = m a)"
  using arena_create [OF assms, of m] keeps_outside by metis

theorem tlsf_create_correct_witness:
  "\<exists>s. tlsf_create_with_pool (\<lambda>_. 0xFF) 0x80000000 0x4000000 = Some (Some s)
    \<and> tlsf_state 0x80000000 (arena_pool 0x80000000 0x4000000) s Map.empty"
  using tlsf_create_correct [OF arena_example(1), of "\<lambda>_. 0xFF"] by blast

text \<open>
  C2. \<open>tlsf_malloc\<close>, \<open>tlsf_free\<close>, \<open>tlsf_realloc\<close>, \<open>tlsf_memalign\<close> and the client's writes refine the ideal heap, over any
  number of pools: from a state that satisfies the invariant, every legal call is a step of the ideal heap (a null result, or a fresh
  allocation, aligned as asked, of at least the requested size that overlaps no live one; exactly the freed
  allocation disappears; a reallocation starts with the old contents), the contents of all other allocations
  stay, and the invariant holds again.
\<close>

theorem tlsf_refines_heap:
  assumes "tlsf_state base P s (sizes H)" "agrees (mem s) H" "tlsf_legal H op" "tlsf_call s op = (s', r)"
  shows "\<exists>H'. client_step H op r H' \<and> tlsf_state base P s' (sizes H') \<and> agrees (mem s') H'"
  using tlsf_full.client_refines [OF assms] by blast

theorem tlsf_refines_heap_witness:
  "\<exists>s s' p H'. tlsf_create_with_pool (\<lambda>_. 0) 0x80000000 0x4000000 = Some (Some s) \<and> tlsf_malloc s 100 = (s', p)
    \<and> p \<noteq> 0 \<and> client_step Map.empty (Basic (Malloc 100)) p H' \<and> tlsf_state 0x80000000 (arena_pool 0x80000000 0x4000000) s' (sizes H')"
proof -
  obtain s s' p where s: "tlsf_create_with_pool (\<lambda>_. 0) 0x80000000 0x4000000 = Some (Some s)"
    "tlsf_state 0x80000000 (arena_pool 0x80000000 0x4000000) s (sizes Map.empty)" "tlsf_malloc s 100 = (s', p)" "p \<noteq> 0"
    by (rule malloc_example)
  have "\<exists>H'. client_step Map.empty (Basic (Malloc 100)) p H' \<and> tlsf_state 0x80000000 (arena_pool 0x80000000 0x4000000) s' (sizes H') \<and> agrees (mem s') H'"
    by (rule tlsf_refines_heap [OF s(2)]) (simp_all add: agrees_def s(3))
  then show ?thesis using s by blast
qed

text \<open>
  After every sequence of calls on a new arena, each live allocation is 8-byte aligned, has at least 24 bytes,
  lies inside the pool, overlaps no other one, has the size that \<open>tlsf_block_size\<close> reports, and
  holds exactly the bytes that its owner wrote last.
\<close>

theorem tlsf_allocations_sound:
  assumes "arena_ok base bytes" "tlsf_reachable m base bytes s H" "H p = Some bs"
  shows "unat p mod 8 = 0 \<and> 24 \<le> length bs \<and> unat base + 6544 \<le> unat p
    \<and> unat p + length bs \<le> unat base + unat bytes
    \<and> (\<forall>q cs. H q = Some cs \<longrightarrow> q \<noteq> p \<longrightarrow> region p (length bs) \<inter> region q (length cs) = {})
    \<and> unat (tlsf_block_size (mem s) p) = length bs \<and> mem_bytes (mem s) p (length bs) = bs"
proof -
  note st = reachable_state [OF assms(1,2)]
  have p: "sizes H p = Some (length bs)" using assms(3) by simp
  have "region p (length bs) \<inter> region q (length cs) = {}" if "H q = Some cs" "q \<noteq> p" for q cs
    using tlsf_live(5) [OF st(1) p, of q "length cs"] that by simp
  then show ?thesis
    using tlsf_live(1,2) [OF st(1) p] arena_live [OF assms(1) st(1) p] tlsf_block_size_contract [OF st(1) p]
      st(2) assms(3) by (simp add: agrees_def)
qed

theorem tlsf_allocations_sound_witness:
  "\<exists>s p bs. tlsf_reachable (\<lambda>_. 0) 0x80000000 0x4000000 s [p \<mapsto> bs] \<and> unat p mod 8 = 0 \<and> 24 \<le> length bs"
proof -
  obtain s s' p where s: "tlsf_create_with_pool (\<lambda>_. 0) 0x80000000 0x4000000 = Some (Some s)"
    "tlsf_state 0x80000000 (arena_pool 0x80000000 0x4000000) s (sizes Map.empty)" "tlsf_malloc s 100 = (s', p)" "p \<noteq> 0"
    by (rule malloc_example)
  have "tlsf_reachable (\<lambda>_. 0) 0x80000000 0x4000000 s Map.empty" using s(1) by (rule heap_reachable.start)
  moreover have "tlsf_legal Map.empty (Basic (Malloc 100))" "tlsf_call s (Basic (Malloc 100)) = (s', p)" using s(3) by simp_all
  ultimately have "tlsf_reachable (\<lambda>_. 0) 0x80000000 0x4000000 s'
      (client_observe (mem s') (tlsf_capacity s' p) (Basic (Malloc 100)) p Map.empty)"
    by (rule heap_reachable.step)
  then have "tlsf_reachable (\<lambda>_. 0) 0x80000000 0x4000000 s' [p \<mapsto> mem_bytes (mem s') p (tlsf_capacity s' p)]"
    using s(4) by simp
  moreover from tlsf_allocations_sound [OF arena_example(1) this, of p]
  have "unat p mod 8 = 0 \<and> 24 \<le> length (mem_bytes (mem s') p (tlsf_capacity s' p))" by simp
  ultimately show ?thesis
    by (intro exI [of _ s'] exI [of _ p] exI [of _ "mem_bytes (mem s') p (tlsf_capacity s' p)"]) (rule conjI)
qed

text \<open>
  C30. The allocator never writes outside of its arena: after every sequence of calls, every byte outside of the
  control structure and the pool is what it was before the arena was created.
\<close>

theorem tlsf_stays_in_arena:
  assumes "arena_ok base bytes" "tlsf_reachable m base bytes s H"
    and "unat a < unat base \<or> unat base + unat bytes \<le> unat a"
  shows "mem s a = m a"
proof (rule reachable_outside [OF assms(2,1)])
  have al: "unat base mod 8 = 0" using assms(1) by (simp add: arena_ok_def)
  show "outside base (arena_pool base bytes) a"
    unfolding arena_outside [OF al] using assms(3) arena_cells_le [OF assms(1)] by auto
qed

theorem tlsf_stays_in_arena_witness:
  "\<exists>s. tlsf_reachable (\<lambda>_. 7) 0x80000000 0x4000000 s Map.empty \<and> mem s 0x84000000 = 7"
proof -
  obtain s where "tlsf_create_with_pool (\<lambda>_. 7) 0x80000000 0x4000000 = Some (Some s)"
    by (rule arena_create [OF arena_example(1)])
  then have "tlsf_reachable (\<lambda>_. 7) 0x80000000 0x4000000 s Map.empty" by (rule heap_reachable.start)
  moreover from tlsf_stays_in_arena [OF arena_example(1) this] have "mem s 0x84000000 = 7" by simp
  ultimately show ?thesis by blast
qed

text \<open>
  C29. Freed memory is merged and served again: whenever a sequence of calls leaves nothing allocated, in whatever
  order the allocations were freed, a request of up to 32/33 of the pool (less 31 bytes) succeeds.
\<close>

theorem tlsf_malloc_live:
  assumes "arena_ok base bytes" "tlsf_reachable m base bytes s Map.empty"
    and "0 < unat sz" "33 * (unat sz + 31) \<le> 256 * arena_cells bytes"
  shows "\<exists>s' p k. tlsf_malloc s sz = (s', p) \<and> p \<noteq> 0 \<and> unat sz \<le> k
    \<and> tlsf_state base (arena_pool base bytes) s' [p \<mapsto> k]"
proof -
  have st: "tlsf_state base (arena_pool base bytes) s Map.empty" using reachable_state(1) [OF assms(1,2)] by simp
  obtain s' p where p: "tlsf_malloc s sz = (s', p)" by fastforce
  then have nz: "p \<noteq> 0" using arena_idle [OF st assms(3,4)] by simp
  have "unat bytes < 2 ^ 32" using assms(1) by (simp add: arena_ok_def)
  then have "unat sz + 7 < 2 ^ 64" using assms(4) by (simp add: arena_cells_def)
  then show ?thesis by (rule tlsf_malloc_fresh [OF st _ p nz]) (use p nz in blast)
qed

theorem tlsf_malloc_live_witness:
  "\<exists>s s' p. tlsf_create_with_pool (\<lambda>_. 0) 0x80000000 0x4000000 = Some (Some s)
    \<and> tlsf_malloc s 65000000 = (s', p) \<and> p \<noteq> 0"
proof -
  obtain s where s: "tlsf_create_with_pool (\<lambda>_. 0) 0x80000000 0x4000000 = Some (Some s)"
    by (rule arena_create [OF arena_example(1)])
  then have "tlsf_reachable (\<lambda>_. 0) 0x80000000 0x4000000 s Map.empty" by (rule heap_reachable.start)
  from tlsf_malloc_live [OF arena_example(1) this, of 65000000] s show ?thesis by (auto simp: arena_example(2))
qed

end
