(* ===== verification/TlsfCheck.thy ===== *)
theory TlsfCheck imports TlsfClient begin

text \<open>
  The debugging utilities of \<open>tlsf.c\<close>: \<open>tlsf_walk_pool\<close> with its walkers, \<open>tlsf_check_pool\<close> and
  \<open>tlsf_check\<close>. On every state that a sequence of calls reaches they end, the walk reports exactly the blocks of the
  pool in address order, and both checks find nothing.
\<close>

unbundle bit_operations_syntax

section \<open>The walk and the checks\<close>

text \<open>A walker gets the user pointer, the size, the used flag and its own state \<open>user\<close>.\<close>

type_synonym 'u tlsf_walker = "u64 \<Rightarrow> u64 \<Rightarrow> bool \<Rightarrow> 'u \<Rightarrow> 'u"

partial_function (option) walk_blocks :: "memory \<Rightarrow> 'u tlsf_walker \<Rightarrow> u64 \<Rightarrow> 'u \<Rightarrow> 'u option" where
  "walk_blocks m walker block user =
     (if block \<noteq> 0 \<and> \<not> block_is_last m block
      then walk_blocks m walker (block_next m block)
             (walker (block_to_ptr block) (block_size m block) (\<not> block_is_free m block) user)
      else Some user)"

definition tlsf_walk_pool :: "memory \<Rightarrow> u64 \<Rightarrow> 'u tlsf_walker \<Rightarrow> 'u \<Rightarrow> 'u option" where
  "tlsf_walk_pool m pool walker user = walk_blocks m walker (offset_to_block pool (- block_header_overhead)) user"

text \<open>One line of the default walker's output, collected: pointer, used flag, size, block.\<close>

definition default_walker :: "(u64 \<times> bool \<times> u64 \<times> u64) list tlsf_walker" where
  "default_walker p sz used out = out @ [(p, used, sz, block_from_ptr p)]"

definition tlsf_insist :: "bool \<Rightarrow> int \<Rightarrow> int" where
  "tlsf_insist x status = (if x then status else status - 1)"

record integrity_t =
  prev_status :: int
  status :: int

definition integrity_walker :: "memory \<Rightarrow> integrity_t tlsf_walker" where
  "integrity_walker m p sz used integ =
     (let block = block_from_ptr p;
          this_prev_status = (if block_is_prev_free m block then 1 else 0);
          this_status = (if block_is_free m block then 1 else 0);
          this_block_size = block_size m block;
          st = 0;
          st = tlsf_insist (prev_status integ = this_prev_status) st;
          st = tlsf_insist (sz = this_block_size) st
      in integ\<lparr>prev_status := this_status, status := status integ + st\<rparr>)"

definition tlsf_check_pool :: "memory \<Rightarrow> u64 \<Rightarrow> int option" where
  "tlsf_check_pool m pool =
     map_option status (tlsf_walk_pool m pool (integrity_walker m) \<lparr>prev_status = 0, status = 0\<rparr>)"

text \<open>The loop over one free list.\<close>

partial_function (option) check_list :: "control_t \<Rightarrow> nat \<Rightarrow> nat \<Rightarrow> u64 \<Rightarrow> int \<Rightarrow> int option" where
  "check_list control i j block st =
     (if block \<noteq> block_null control then
        let m = mem control;
            st = tlsf_insist (block_is_free m block) st;
            st = tlsf_insist (\<not> block_is_prev_free m block) st;
            st = tlsf_insist (\<not> block_is_free m (block_next m block)) st;
            st = tlsf_insist (block_is_prev_free m (block_next m block)) st;
            st = tlsf_insist (block_size m block \<ge> block_size_min) st;
            (fli, sli) = mapping_insert (block_size m block);
            st = tlsf_insist (fli = i \<and> sli = j) st
        in check_list control i j (load64 m (next_free_addr block)) st
      else Some st)"

text \<open>The body of the loops over the table.\<close>

definition check_class :: "control_t \<Rightarrow> nat \<times> nat \<Rightarrow> int \<Rightarrow> int option" where
  "check_class control = (\<lambda>(i, j) st.
     let fl_map = fl_bitmap control AND push_bit i 1;
         sl_list = sl_bitmap control ! i;
         sl_map = sl_list AND push_bit j 1;
         block = blocks control ! i ! j;
         st = (if fl_map = 0 then tlsf_insist (sl_map = 0) st else st)
     in if sl_map = 0 then Some (tlsf_insist (block = block_null control) st)
        else
          let st = tlsf_insist (sl_list \<noteq> 0) st;
              st = tlsf_insist (block \<noteq> block_null control) st
          in check_list control i j block st)"

definition tlsf_check :: "control_t \<Rightarrow> int option" where
  "tlsf_check control =
     fold (\<lambda>k st. Option.bind st (check_class control k)) (List.product [0..<FL_INDEX_COUNT] [0..<SL_INDEX_COUNT]) (Some 0)"

section \<open>The blocks of a pool in order\<close>

definition blocks_from :: "block_map \<Rightarrow> nat \<Rightarrow> nat \<Rightarrow> nat list" where
  "blocks_from B hi x = sorted_list_of_set {y \<in> dom B. x \<le> y \<and> y < hi}"

lemma blocks_from_sentinel [simp]: "blocks_from B hi hi = []"
proof -
  have "{y \<in> dom B. hi \<le> y \<and> y < hi} = {}" by auto
  then show ?thesis by (simp only: blocks_from_def sorted_list_of_set.sorted_key_list_of_set_empty)
qed

lemma blocks_from_Cons:
  assumes "segments P B" "(lo, t) \<in> P" "B x = Some (n, f)" "lo \<le> x" "x < lo + t + 1"
  shows "blocks_from B (lo + t + 1) x = x # blocks_from B (lo + t + 1) (x + n + 1)"
proof -
  let ?hi = "lo + t + 1"
  let ?A = "{y \<in> dom B. x \<le> y \<and> y < ?hi}"
  have x: "x \<in> ?A" using assms(3,5) by auto
  have fin: "finite ?A" by (rule finite_subset [of _ "{..<?hi}"]) auto
  have "Min ?A = x" by (rule Min_eqI [OF fin _ x]) simp
  moreover have "?A - {x} = {y \<in> dom B. x + n + 1 \<le> y \<and> y < ?hi}"
  proof (intro set_eqI iffI)
    fix y
    assume "y \<in> ?A - {x}"
    then obtain v where y: "B y = Some v" "x < y" "y < ?hi" by auto
    then show "y \<in> {y \<in> dom B. x + n + 1 \<le> y \<and> y < ?hi}" using segmentsD(7) [OF assms(1,3) y(1,2)] by auto
  qed auto
  ultimately show ?thesis
    using sorted_list_of_set_nonempty [OF fin] x unfolding blocks_from_def by auto
qed

text \<open>Induction from a block of a pool to the sentinel of the pool.\<close>

lemma blocks_induct [consumes 4, case_names sentinel block]:
  assumes "segments P B" "(lo, t) \<in> P" "x \<in> dom B" "lo \<le> x \<and> x \<le> lo + t + 1" "Q (lo + t + 1)"
    and "\<And>x n f. B x = Some (n, f) \<Longrightarrow> lo \<le> x \<Longrightarrow> x < lo + t + 1 \<Longrightarrow> 0 < n \<Longrightarrow> Q (x + n + 1) \<Longrightarrow> Q x"
  shows "Q x"
  using assms(3,4)
proof (induction "lo + t + 1 - x" arbitrary: x rule: less_induct)
  case less
  show ?case
  proof (cases "x = lo + t + 1")
    case False
    then have le: "lo \<le> x" "x < lo + t + 1" using less.prems(2) by auto
    obtain n f where x: "B x = Some (n, f)" using less.prems(1) by auto
    note in_pool = block_in_pool [OF assms(1,2) x le]
    have "x + n + 1 \<in> dom B" using block_facts(7) [OF assms(1) x in_pool(1)] by auto
    moreover have "lo + t + 1 - (x + n + 1) < lo + t + 1 - x" using le(2) by simp
    ultimately have "Q (x + n + 1)" using less.hyps in_pool(2) le(1) by simp
    then show ?thesis by (rule assms(6) [OF x le in_pool(1)])
  qed (simp add: assms(5))
qed

definition visit :: "block_map \<Rightarrow> 'u tlsf_walker \<Rightarrow> nat \<Rightarrow> 'u \<Rightarrow> 'u" where
  "visit B walker x user = (case B x of None \<Rightarrow> user | Some (n, f) \<Rightarrow> walker (ptr (x + 2)) (ptr n) (\<not> f) user)"

lemma walk_blocks_ok:
  assumes "segments P B" "headers_ok (cells m) B" "(lo, t) \<in> P" "x \<in> dom B" "lo \<le> x \<and> x \<le> lo + t + 1"
  shows "walk_blocks m walker (ptr x) user = Some (fold (visit B walker) (blocks_from B (lo + t + 1) x) user)"
  using assms(1,3-5)
proof (induction x arbitrary: user rule: blocks_induct)
  case sentinel
  have "header (cells m) (lo + t + 1) 0 False (prev_free B (lo + t + 1))"
    by (rule headers_header [OF assms(2,1) segmentsD(3) [OF assms(1,3)]])
  then have "block_is_last m (ptr (lo + t + 1))" by (simp add: block_is_last_cell cell_limit_def)
  then show ?case by (simp add: walk_blocks.simps)
next
  case (block x n f)
  note bf = block_facts [OF assms(1) block(1,4)]
  have h: "header (cells m) x n f (prev_free B x)" by (rule headers_header [OF assms(2,1) block(1)])
  have n: "n < cell_limit" "1 \<le> n" "n \<noteq> 0" using bf(2,4) by simp_all
  have "ptr x \<noteq> 0" using bf(4,6) by (intro ptr_nonzero) simp_all
  then have "walk_blocks m walker (ptr x) user
      = walk_blocks m walker (ptr (x + n + 1)) (walker (ptr (x + 2)) (ptr n) (\<not> f) user)"
    using n by (subst walk_blocks.simps)
      (simp add: block_is_last_cell [OF h] block_next_cell [OF h] block_size_cell [OF h] block_status_cell [OF h])
  also have "\<dots> = Some (fold (visit B walker) (blocks_from B (lo + t + 1) (x + n + 1)) (walker (ptr (x + 2)) (ptr n) (\<not> f) user))"
    by (rule block(5))
  also have "\<dots> = Some (fold (visit B walker) (blocks_from B (lo + t + 1) x) user)"
    by (simp add: blocks_from_Cons [OF assms(1,3) block(1-3)] visit_def block(1))
  finally show ?case .
qed

section \<open>The checks find nothing\<close>

lemma integrity_walk:
  assumes "segments P B" "headers_ok (cells m) B" "(lo, t) \<in> P" "x \<in> dom B" "lo \<le> x \<and> x \<le> lo + t + 1"
  shows "status (fold (visit B (integrity_walker m)) (blocks_from B (lo + t + 1) x)
    \<lparr>prev_status = (if prev_free B x then 1 else 0), status = 0\<rparr>) = 0"
  using assms(1,3-5)
proof (induction x rule: blocks_induct)
  case (block x n f)
  have h: "header (cells m) x n f (prev_free B x)" by (rule headers_header [OF assms(2,1) block(1)])
  have "prev_free B (x + n + 1) \<longleftrightarrow> f" by (rule prev_free_next [OF assms(1) block(1,4)])
  then have "visit B (integrity_walker m) x \<lparr>prev_status = (if prev_free B x then 1 else 0), status = 0\<rparr>
      = \<lparr>prev_status = (if prev_free B (x + n + 1) then 1 else 0), status = 0\<rparr>"
    by (simp add: visit_def block(1) integrity_walker_def Let_def tlsf_insist_def block_status_cell [OF h]
        block_size_cell [OF h])
  then show ?case using block(5) by (simp add: blocks_from_Cons [OF assms(1,3) block(1-3)])
qed simp

lemma first_prev_used:
  assumes seg: "segments P B" and pool: "(lo, t) \<in> P"
  shows "\<not> prev_free B lo"
proof
  note ok = segmentsD(1) [OF seg]
  assume "prev_free B lo"
  then obtain x n where x: "B x = Some (n, True)" "x + n + 1 = lo" by (auto simp: prev_free_def)
  obtain l u where l: "(l, u) \<in> P" "l \<le> x" "x + n \<le> l + u"
    using segmentsD(6) [OF seg x(1) free_not_sentinel [OF seg x(1)]] by blast
  then show False using pools_okD(5) [OF ok pool l(1)] x(2) by auto
qed

lemma check_pool_ok:
  assumes "segments P B" "headers_ok (cells m) B" "(lo, t) \<in> P"
  shows "tlsf_check_pool m (ptr (lo + 1)) = Some 0"
proof -
  have lo: "lo \<in> dom B" "lo \<le> lo \<and> lo \<le> lo + t + 1" using segmentsD(2) [OF assms(1,3)] by simp_all
  show ?thesis
    using integrity_walk [OF assms lo] first_prev_used [OF assms(1,3)]
    by (simp add: tlsf_check_pool_def tlsf_walk_pool_def pool_block walk_blocks_ok [OF assms lo])
qed

lemma check_list_ok:
  assumes inv: "tlsf_inv N P s B" and "chain (cells (mem s)) p xs N"
    and "\<And>x. x \<in> set xs \<Longrightarrow> \<exists>n. B x = Some (n, True) \<and> size_class n = (i, j)"
  shows "check_list s i j (ptr (hd_cell xs N)) 0 = Some 0"
  using assms(2,3)
proof (induction xs arbitrary: p)
  case Nil
  have "block_null s = ptr N" using inv by (simp add: tlsf_inv_def heap_ok_def lists_ok_def)
  then show ?case by (simp add: check_list.simps)
next
  case (Cons x xs)
  have ok: "heap_ok N P s B (free_map B)" and co: "coalesced_but {} B" using inv by (simp_all add: tlsf_inv_def)
  note okD = heap_okD [OF ok]
  have lists: "block_null s = ptr N" "free_ok N (free_map B)" using okD(4) by (simp_all add: lists_ok_def)
  obtain n where x: "B x = Some (n, True)" "size_class n = (i, j)" using Cons.prems(2) [of x] by auto
  have pos: "0 < n" by (rule free_not_sentinel [OF okD(2) x(1)])
  note bf = block_facts [OF okD(2) x(1) pos]
  have prev: "\<not> prev_free B x" by (rule coalesced_butD [OF co x(1)]) simp
  have h: "header (cells (mem s)) x n True False" using headers_header [OF okD(3,2) x(1)] prev by simp
  obtain n' f' where nx: "B (x + n + 1) = Some (n', f')" using bf(7) by blast
  have pf: "prev_free B (x + n + 1)" using prev_free_next [OF okD(2) x(1) pos] by simp
  have "\<not> f'"
  proof
    assume f'
    then have "B (x + n + 1) = Some (n', True)" using nx by simp
    then have "\<not> prev_free B (x + n + 1)" by (rule coalesced_butD [OF co]) simp
    then show False using pf by simp
  qed
  then have h': "header (cells (mem s)) (x + n + 1) n' False True" using headers_header [OF okD(3,2) nx] pf by simp
  have nxt: "block_next (mem s) (ptr x) = ptr (x + n + 1)" using block_next_cell [OF h] bf(2) by simp
  have "x \<noteq> N" using lists(2) x(1) by (auto simp: free_ok_def domIff)
  then have ne: "ptr x \<noteq> ptr N" using ptr_inj [of x N] bf(4) lists(2) by (simp add: free_ok_def)
  have size: "block_size_min \<le> block_size (mem s) (ptr x)"
    using bf(2,4) by (simp add: block_size_cell [OF h] word_le_nat_alt unat_ptr block_size_min_def)
  have link: "load64 (mem s) (next_free_addr (ptr x)) = ptr (hd_cell xs N)"
    using Cons.prems(1) bf(2,4) by (simp add: block_addrs load_cell)
  have "check_list s i j (ptr x) 0 = check_list s i j (ptr (hd_cell xs N)) 0"
    using ne x(2) by (subst check_list.simps)
      (simp add: lists(1) Let_def tlsf_insist_def nxt size link block_status_cell [OF h] block_status_cell [OF h']
        block_class [OF h])
  then show ?case using Cons.IH [of x] Cons.prems by simp
qed

lemma and_bit_zero: "(w :: u32) AND push_bit i 1 = 0 \<longleftrightarrow> \<not> bit w i"
  by (simp add: push_bit_eq_mult and_exp_eq_0_iff_not_bit)

lemma check_class_ok:
  assumes inv: "tlsf_inv N P s B" and k: "i < 25" "j < 32"
  shows "check_class s (i, j) 0 = Some 0"
proof -
  have lists: "lists_ok N s (free_map B)" using inv by (simp add: tlsf_inv_def heap_ok_def)
  then have null: "block_null s = ptr N" and tab: "tables_ok s" and heads: "heads_ok N s (free_map B)"
    and fr: "free_ok N (free_map B)" by (simp_all add: lists_ok_def)
  obtain xs where xs: "linked N (cells (mem s)) (free_map B) (i, j) xs" "blocks s ! i ! j = ptr (hd_cell xs N)"
    "bit (sl_bitmap s ! i) j \<longleftrightarrow> xs \<noteq> []"
    by (rule heads_okE [OF heads k])
  have fl: "bit (fl_bitmap s) i \<longleftrightarrow> sl_bitmap s ! i \<noteq> 0" using tab k(1) by (simp add: tables_ok_def)
  show ?thesis
  proof (cases "xs = []")
    case True
    then have "blocks s ! i ! j = block_null s" "\<not> bit (sl_bitmap s ! i) j" using xs(2,3) null by simp_all
    then show ?thesis by (simp add: check_class_def Let_def and_bit_zero tlsf_insist_def del: push_bit_of_1)
  next
    case False
    then obtain x ys where ys: "xs = x # ys" by (cases xs) auto
    have "x \<in> set xs" using ys by simp
    then have x: "x \<in> dom (free_map B)" using xs(1) unfolding linked_def by blast
    have "x \<noteq> N" using x fr unfolding free_ok_def by blast
    moreover have "x + 3 < cell_limit" "N + 3 < cell_limit" using x fr unfolding free_ok_def by blast+
    ultimately have ne: "blocks s ! i ! j \<noteq> block_null s" using ptr_inj [of x N] xs(2) null ys by simp
    have bits: "bit (sl_bitmap s ! i) j" "sl_bitmap s ! i \<noteq> 0" using xs(3) False by auto
    have "check_list s i j (blocks s ! i ! j) 0 = Some 0"
      unfolding xs(2) using xs(1) by (intro check_list_ok [OF inv, of N]) (auto simp: linked_def)
    then show ?thesis
      using ne bits fl by (simp add: check_class_def Let_def and_bit_zero tlsf_insist_def del: push_bit_of_1)
  qed
qed

lemma tlsf_check_ok:
  assumes "tlsf_inv N P s B"
  shows "tlsf_check s = Some 0"
proof -
  have "fold (\<lambda>k st. Option.bind st (check_class s k)) ks (Some 0) = Some 0"
    if "\<And>i j. (i, j) \<in> set ks \<Longrightarrow> i < 25 \<and> j < 32" for ks
    using that
  proof (induction ks)
    case (Cons k ks)
    obtain i j where k: "k = (i, j)" by fastforce
    then have "i < 25 \<and> j < 32" by (intro Cons.prems) simp
    then have "check_class s k 0 = Some 0" by (simp add: k check_class_ok [OF assms])
    moreover have "fold (\<lambda>k st. Option.bind st (check_class s k)) ks (Some 0) = Some 0"
      by (rule Cons.IH) (rule Cons.prems, simp)
    ultimately show ?case by simp
  qed simp
  from this [of "List.product [0..<25] [0..<32]"] show ?thesis by (auto simp: tlsf_check_def tlsf_constants)
qed

section \<open>The report of the default walker\<close>

text \<open>The line that the default walker prints for the block at a cell.\<close>

definition walk_line :: "block_map \<Rightarrow> nat \<Rightarrow> (u64 \<times> bool \<times> u64 \<times> u64) list" where
  "walk_line B x = (case B x of None \<Rightarrow> [] | Some (n, f) \<Rightarrow> [(ptr (x + 2), \<not> f, ptr n, ptr x)])"

lemma default_walk: "fold (visit B default_walker) xs out = out @ concat (map (walk_line B) xs)"
  by (induction xs arbitrary: out)
    (simp_all add: visit_def walk_line_def default_walker_def split: option.splits)

lemma walk_line_pointer:
  assumes "segments P B" "(lo, t) \<in> P" "lo \<le> x" "x < lo + t + 1" "a \<in> set (walk_line B x)"
  shows "unat (fst a) = 8 * (x + 2)"
proof -
  obtain n f where x: "B x = Some (n, f)" "fst a = ptr (x + 2)" using assms(5) by (cases "B x") (auto simp: walk_line_def)
  show ?thesis using x block_facts(2,4) [OF assms(1) x(1) block_in_pool(1) [OF assms(1,2) x(1) assms(3,4)]] by (simp add: unat_ptr)
qed

lemma walk_sorted:
  assumes "segments P B" "(lo, t) \<in> P" "sorted_wrt (<) xs" "\<And>x. x \<in> set xs \<Longrightarrow> lo \<le> x \<and> x < lo + t + 1"
  shows "sorted_wrt (\<lambda>a b. unat (fst a) < unat (fst b)) (concat (map (walk_line B) xs))"
  using assms(3,4)
proof (induction xs)
  case (Cons x xs)
  have "unat (fst a) < unat (fst b)" if "a \<in> set (walk_line B x)" "b \<in> set (walk_line B y)" "y \<in> set xs" for a b y
    using walk_line_pointer [OF assms(1,2) _ _ that(1)] walk_line_pointer [OF assms(1,2) _ _ that(2)] Cons.prems that(3) by auto
  moreover have "sorted_wrt (\<lambda>a b. unat (fst a) < unat (fst b)) (walk_line B x)"
    by (simp add: walk_line_def split: option.splits)
  ultimately show ?case using Cons by (auto simp: sorted_wrt_append)
qed simp

lemma blocks_from_set: "set (blocks_from B hi x) = {y \<in> dom B. x \<le> y \<and> y < hi}"
proof -
  have "finite {y \<in> dom B. x \<le> y \<and> y < hi}" by (rule finite_subset [of _ "{..<hi}"]) auto
  then show ?thesis by (simp add: blocks_from_def)
qed

lemma walk_used:
  assumes seg: "segments P B" and pool: "(lo, t) \<in> P"
  shows "(\<exists>sz block. (p, True, sz, block) \<in> set (concat (map (walk_line B) (blocks_from B (lo + t + 1) lo))) \<and> unat sz = k)
    \<longleftrightarrow> allocations B p = Some k \<and> 8 * (lo + 2) \<le> unat p \<and> unat p < 8 * (lo + t + 3)"
proof
  assume "\<exists>sz block. (p, True, sz, block) \<in> set (concat (map (walk_line B) (blocks_from B (lo + t + 1) lo))) \<and> unat sz = k"
  then obtain sz block x where a: "x \<in> set (blocks_from B (lo + t + 1) lo)" "(p, True, sz, block) \<in> set (walk_line B x)" "unat sz = k"
    by auto
  then obtain n where x: "B x = Some (n, False)" "p = ptr (x + 2)" "k = unat (ptr n)"
    by (cases "B x") (auto simp: walk_line_def)
  have le: "lo \<le> x" "x < lo + t + 1" using a(1) by (auto simp: blocks_from_set)
  note bf = block_facts(2,4) [OF seg x(1) block_in_pool(1) [OF seg pool x(1) le]]
  then show "allocations B p = Some k \<and> 8 * (lo + 2) \<le> unat p \<and> unat p < 8 * (lo + t + 3)"
    using x le by (simp add: allocations_ptr unat_ptr)
next
  assume a: "allocations B p = Some k \<and> 8 * (lo + 2) \<le> unat p \<and> unat p < 8 * (lo + t + 3)"
  then obtain x n where x: "p = ptr (x + 2)" "B x = Some (n, False)" "k = 8 * n" "0 < n" "unat p = 8 * (x + 2)"
    "{x + 1 .. x + n + 2} \<subseteq> pool_cells P" "3 \<le> n" "x + n + 2 < cell_limit"
    using live_block [OF seg] by blast
  have "x \<in> set (blocks_from B (lo + t + 1) lo)" unfolding blocks_from_set using x(2,5) a by auto
  then have "(p, True, ptr n, ptr x) \<in> set (concat (map (walk_line B) (blocks_from B (lo + t + 1) lo)))"
    using x(1,2) by (force simp: walk_line_def)
  moreover have "unat (ptr n) = k" using x(3,8) by (simp add: unat_ptr)
  ultimately show "\<exists>sz block. (p, True, sz, block) \<in> set (concat (map (walk_line B) (blocks_from B (lo + t + 1) lo))) \<and> unat sz = k"
    by blast
qed

text \<open>Every pool of a state, with what the default walker reports of it.\<close>

lemma walk_pool_ok:
  assumes st: "tlsf_state base P s A" and pool: "(lo, t) \<in> P"
  obtains out where "tlsf_walk_pool (mem s) (ptr (lo + 1)) default_walker [] = Some out"
    "sorted_wrt (\<lambda>a b. unat (fst a) < unat (fst b)) out"
    "\<And>p k. (\<exists>sz block. (p, True, sz, block) \<in> set out \<and> unat sz = k) \<longleftrightarrow>
      A p = Some k \<and> 8 * (lo + 2) \<le> unat p \<and> unat p < 8 * (lo + t + 3)"
proof -
  obtain N B where b: "tlsf_inv N P s B" "A = allocations B" "segments P B" using st by (rule tlsf_stateE)
  have hd: "headers_ok (cells (mem s)) B" using b(1) heap_okD(3) unfolding tlsf_inv_def by blast
  have lo: "lo \<in> dom B" "lo \<le> lo \<and> lo \<le> lo + t + 1" using segmentsD(2) [OF b(3) pool] by simp_all
  define out where "out = concat (map (walk_line B) (blocks_from B (lo + t + 1) lo))"
  have "tlsf_walk_pool (mem s) (ptr (lo + 1)) default_walker [] = Some out"
    unfolding tlsf_walk_pool_def pool_block walk_blocks_ok [OF b(3) hd pool lo] default_walk out_def by simp
  moreover have "sorted_wrt (\<lambda>a b. unat (fst a) < unat (fst b)) out"
    unfolding out_def
  proof (rule walk_sorted [OF b(3) pool])
    show "lo \<le> x \<and> x < lo + t + 1" if "x \<in> set (blocks_from B (lo + t + 1) lo)" for x
      using that by (simp add: blocks_from_set)
    have "finite {y \<in> dom B. lo \<le> y \<and> y < lo + t + 1}" by (rule finite_subset [of _ "{..<lo + t + 1}"]) auto
    then show "sorted_wrt (<) (blocks_from B (lo + t + 1) lo)" by (simp add: blocks_from_def)
  qed
  ultimately show thesis using that walk_used [OF b(3) pool] b(2) unfolding out_def by simp
qed

lemma checks_ok:
  assumes st: "tlsf_state base P s A"
  shows "tlsf_check s = Some 0" "(lo, t) \<in> P \<Longrightarrow> tlsf_check_pool (mem s) (ptr (lo + 1)) = Some 0"
proof -
  obtain N B where b: "tlsf_inv N P s B" "segments P B" using st by (rule tlsf_stateE)
  have hd: "headers_ok (cells (mem s)) B" using b(1) heap_okD(3) unfolding tlsf_inv_def by blast
  show "tlsf_check s = Some 0" by (rule tlsf_check_ok [OF b(1)])
  show "tlsf_check_pool (mem s) (ptr (lo + 1)) = Some 0" if "(lo, t) \<in> P" by (rule check_pool_ok [OF b(2) hd that])
qed

text \<open>The pool of an arena.\<close>

lemma arena_get_pool:
  assumes "unat base mod 8 = 0"
  shows "tlsf_get_pool base = ptr (unat base div 8 + 816 + 1)"
proof -
  have "tlsf_get_pool (ptr (unat base div 8)) = ptr (unat base div 8 + 816 + 1)"
    by (simp add: tlsf_get_pool_def control_size(3) ptr_add add.assoc)
  then show ?thesis using aligned_ptr [OF assms] by simp
qed

section \<open>Properties\<close>

text \<open>
  The allocator's own checks: after every sequence of calls, \<open>tlsf_check\<close> (free lists, bitmaps, coalescing,
  classes) and \<open>tlsf_check_pool\<close> (physical order and status bits) end and report nothing.
\<close>

theorem tlsf_checks_pass:
  assumes "arena_ok base bytes" "tlsf_reachable m base bytes s H"
  shows "tlsf_check s = Some 0 \<and> tlsf_check_pool (mem s) (tlsf_get_pool base) = Some 0"
proof -
  have "unat base mod 8 = 0" using assms(1) by (simp add: arena_ok_def)
  note st = reachable_state(1) [OF assms] and pool = arena_get_pool [OF this]
  show ?thesis using checks_ok [OF st] by (simp add: pool arena_pools_def)
qed

theorem tlsf_checks_pass_witness:
  "\<exists>s. tlsf_create_with_pool (\<lambda>_. 0) 0x80000000 0x4000000 = Some (Some s) \<and> tlsf_check s = Some 0
    \<and> tlsf_check_pool (mem s) (tlsf_get_pool 0x80000000) = Some 0"
proof -
  obtain s where s: "tlsf_create_with_pool (\<lambda>_. 0) 0x80000000 0x4000000 = Some (Some s)"
    by (rule arena_create [OF arena_example(1)])
  then have "tlsf_reachable (\<lambda>_. 0) 0x80000000 0x4000000 s Map.empty" by (rule heap_reachable.start)
  from tlsf_checks_pass [OF arena_example(1) this] s show ?thesis by blast
qed

text \<open>
  C31. \<open>tlsf_walk_pool\<close> with the default walker ends after every sequence of calls, in address order, and the lines
  it marks as used are exactly the live allocations with their sizes.
\<close>

theorem tlsf_walk_reports:
  assumes "arena_ok base bytes" "tlsf_reachable m base bytes s H"
  shows "\<exists>out. tlsf_walk_pool (mem s) (tlsf_get_pool base) default_walker [] = Some out
    \<and> sorted_wrt (\<lambda>a b. unat (fst a) < unat (fst b)) out
    \<and> (\<forall>p k. (\<exists>sz block. (p, True, sz, block) \<in> set out \<and> unat sz = k) \<longleftrightarrow> sizes H p = Some k)"
proof -
  have al: "unat base mod 8 = 0" using assms(1) by (simp add: arena_ok_def)
  note st = reachable_state(1) [OF assms]
  let ?lo = "unat base div 8 + 816" and ?t = "arena_cells bytes"
  have pool: "(?lo, ?t) \<in> arena_pool base bytes" by (simp add: arena_pools_def)
  obtain out where out: "tlsf_walk_pool (mem s) (ptr (?lo + 1)) default_walker [] = Some out"
    "sorted_wrt (\<lambda>a b. unat (fst a) < unat (fst b)) out"
    "\<And>p k. (\<exists>sz block. (p, True, sz, block) \<in> set out \<and> unat sz = k) \<longleftrightarrow>
      sizes H p = Some k \<and> 8 * (?lo + 2) \<le> unat p \<and> unat p < 8 * (?lo + ?t + 3)"
    by (rule walk_pool_ok [OF st pool]) blast
  have "8 * (?lo + 2) \<le> unat p \<and> unat p < 8 * (?lo + ?t + 3)" if "sizes H p = Some k" for p k
    using tlsf_live(2,4) [OF st that] by (auto simp: arena_pools_def)
  then show ?thesis using out arena_get_pool [OF al] by (intro exI [of _ out]) auto
qed

theorem tlsf_walk_reports_witness:
  "\<exists>s out. tlsf_create_with_pool (\<lambda>_. 0) 0x80000000 0x4000000 = Some (Some s)
    \<and> tlsf_walk_pool (mem s) (tlsf_get_pool 0x80000000) default_walker [] = Some out
    \<and> (\<forall>p sz block. (p, True, sz, block) \<notin> set out)"
proof -
  obtain s where s: "tlsf_create_with_pool (\<lambda>_. 0) 0x80000000 0x4000000 = Some (Some s)"
    by (rule arena_create [OF arena_example(1)])
  then have "tlsf_reachable (\<lambda>_. 0) 0x80000000 0x4000000 s Map.empty" by (rule heap_reachable.start)
  from tlsf_walk_reports [OF arena_example(1) this] s show ?thesis by fastforce
qed

section \<open>The self-test of the bit routines\<close>

text \<open>Compiled in debug builds and run by \<open>tlsf_create\<close>: every failing case adds its bit.\<close>

definition test_ffs_fls :: int where
  "test_ffs_fls =
     (if tlsf_ffs 0 = -1 then 0 else 0x1) + (if tlsf_fls 0 = -1 then 0 else 0x2)
     + (if tlsf_ffs 1 = 0 then 0 else 0x4) + (if tlsf_fls 1 = 0 then 0 else 0x8)
     + (if tlsf_ffs 0x80000000 = 31 then 0 else 0x10) + (if tlsf_ffs 0x80008000 = 15 then 0 else 0x20)
     + (if tlsf_fls 0x80000008 = 31 then 0 else 0x40) + (if tlsf_fls 0x7FFFFFFF = 30 then 0 else 0x80)
     + (if tlsf_fls_sizet 0x80000000 = 31 then 0 else 0x100) + (if tlsf_fls_sizet 0x100000000 = 32 then 0 else 0x200)
     + (if tlsf_fls_sizet 0xffffffffffffffff = 63 then 0 else 0x400)"

lemma test_ffs_fls_passes: "test_ffs_fls = 0"
  by code_simp

end
