(* ===== verification/TlsfPools.thy ===== *)
theory TlsfPools imports TlsfCheck begin

text \<open>
  Removing and adding pools while the others are in use: a pool in which nothing is allocated can be removed, an
  unused region becomes a pool, and neither touches the live allocations. Without a pool the allocator serves
  nothing. What \<open>tlsf_add_pool\<close> rejects, and the largest pool that it takes.
\<close>

unbundle bit_operations_syntax

section \<open>No free block\<close>

lemma no_lists:
  assumes "lists_ok N s Map.empty"
  shows "fl_bitmap s = 0" "i < 25 \<Longrightarrow> sl_bitmap s ! i = 0"
proof -
  have tab: "tables_ok s" and heads: "heads_ok N s Map.empty" using assms by (simp_all add: lists_ok_def)
  have sl: "sl_bitmap s ! i = 0" if i: "i < 25" for i
  proof (rule bit_word_eqI)
    fix j
    assume "j < LENGTH(32)"
    then have "j < 32" by simp
    then obtain xs where "linked N (cells (mem s)) Map.empty (i, j) xs" "bit (sl_bitmap s ! i) j \<longleftrightarrow> xs \<noteq> []"
      by (rule heads_okE [OF heads i])
    then show "bit (sl_bitmap s ! i) j \<longleftrightarrow> bit (0 :: u32) j" by (simp add: linked_def)
  qed
  then show "i < 25 \<Longrightarrow> sl_bitmap s ! i = 0" .
  show "fl_bitmap s = 0" using tab sl by (intro bit_word_eqI) (auto simp: tables_ok_def)
qed

lemma segments_no_pool:
  assumes "segments {} B"
  shows "B = Map.empty"
proof
  fix x
  show "B x = None"
  proof (rule ccontr)
    assume "B x \<noteq> None"
    then obtain n f where "B x = Some (n, f)" by auto
    then show False using segmentsD(4,6) [OF assms] by (cases "n = 0") blast+
  qed
qed

lemma nothing_served:
  assumes "tlsf_state base {} s A"
  shows "tlsf_malloc s sz = (s, 0)"
proof -
  obtain N B where b: "tlsf_inv N {} s B" "segments {} B" using assms by (rule tlsf_stateE)
  have "free_map B = Map.empty" using segments_no_pool [OF b(2)] by (simp add: free_map_def fun_eq_iff)
  then have lists: "lists_ok N s Map.empty" using b(1) heap_okD(4) unfolding tlsf_inv_def by metis
  have "block_locate_free s K = (s, 0)" for K
  proof (cases "mapping_search K")
    case (Pair fl sl)
    then show ?thesis
      using no_lists [OF lists]
      by (simp add: block_locate_free_def search_suitable_block_def tlsf_constants Let_def split: prod.splits)
  qed
  then show ?thesis by (simp add: tlsf_malloc_def block_prepare_used_def)
qed

section \<open>Removing a pool\<close>

text \<open>The pool disappears from the block map: its one free block and its sentinel.\<close>

definition remove_map :: "block_map \<Rightarrow> nat \<Rightarrow> nat \<Rightarrow> block_map" where
  "remove_map B lo t = B(lo := None, lo + t + 1 := None)"

lemma remove_map_Some [simp]: "remove_map B lo t x = Some v \<longleftrightarrow> B x = Some v \<and> x \<noteq> lo \<and> x \<noteq> lo + t + 1"
  by (simp add: remove_map_def)

text \<open>A block that remains lies in another pool.\<close>

lemma remaining_block:
  assumes seg: "segments P B" and pool: "(lo, t) \<in> P" "B lo = Some (t, True)"
    and x: "remove_map B lo t x = Some (n, f)" "0 < n"
  obtains l u where "(l, u) \<in> P - {(lo, t)}" "l \<le> x" "x + n \<le> l + u" "x + n + 1 < lo \<or> lo + t + 2 \<le> x"
proof -
  have Bx: "B x = Some (n, f)" "x \<noteq> lo" "x \<noteq> lo + t + 1" using x(1) by simp_all
  obtain l u where p: "(l, u) \<in> P" "l \<le> x" "x + n \<le> l + u" using segmentsD(6) [OF seg Bx(1) x(2)] by blast
  have ne: "(l, u) \<noteq> (lo, t)"
  proof
    assume "(l, u) = (lo, t)"
    then have "lo < x" "x + n \<le> lo + t" using p(2,3) Bx(2) by simp_all
    then show False using segmentsD(7) [OF seg pool(2) Bx(1)] by simp
  qed
  then have "l + u + 2 \<le> lo \<or> lo + t + 2 \<le> l" using pools_okD(5) [OF segmentsD(1) [OF seg] p(1) pool(1)] by blast
  then show thesis using that [of l u] p ne by auto
qed

lemma segments_remove:
  assumes seg: "segments P B" and pool: "(lo, t) \<in> P" "B lo = Some (t, True)"
  shows "segments (P - {(lo, t)}) (remove_map B lo t)"
proof (rule segmentsI)
  note D = segmentsD [OF seg]
  show "pools_ok (P - {(lo, t)})" using D(1) unfolding pools_ok_def by blast
  have dom: "dom (remove_map B lo t) = dom B - {lo, lo + t + 1}" by (auto simp: remove_map_def)
  show "l \<in> dom (remove_map B lo t) \<and> remove_map B lo t (l + u + 1) = Some (0, False)"
    if l: "(l, u) \<in> P - {(lo, t)}" for l u
  proof -
    have p: "(l, u) \<in> P" "(l, u) \<noteq> (lo, t)" using l by blast+
    have "l + u + 2 \<le> lo \<or> lo + t + 2 \<le> l" by (rule pools_okD(5) [OF D(1) p(1) pool(1) p(2)])
    then show ?thesis unfolding dom using D(2,3) [OF p(1)] by auto
  qed
  show "\<exists>l u. (l, u) \<in> P - {(lo, t)} \<and> x = l + u + 1" if "remove_map B lo t x = Some (0, f)" for x f
    using that D(4) [of x f] by auto
  show "3 \<le> n \<and> x + n + 1 \<in> dom (remove_map B lo t) \<and> (\<exists>l u. (l, u) \<in> P - {(lo, t)} \<and> l \<le> x \<and> x + n \<le> l + u)"
    if x: "remove_map B lo t x = Some (n, f)" and pos: "0 < n" for x n f
  proof -
    obtain l u where p: "(l, u) \<in> P - {(lo, t)}" "l \<le> x" "x + n \<le> l + u" "x + n + 1 < lo \<or> lo + t + 2 \<le> x"
      by (rule remaining_block [OF seg pool x pos])
    have "3 \<le> n \<and> x + n + 1 \<in> dom B" using x by (intro D(5) [of x n f] pos) simp
    moreover have "x + n + 1 \<noteq> lo" "x + n + 1 \<noteq> lo + t + 1" using p(4) by auto
    ultimately show ?thesis unfolding dom using p(1-3) by blast
  qed
  show "x + n + 1 \<le> y" if "remove_map B lo t x = Some (n, f)" "y \<in> dom (remove_map B lo t)" "x < y" for x n f y
    using that D(7) [of x n f y] unfolding dom by auto
qed

lemma prev_free_remove:
  assumes "B lo = Some (t, True)" "B (lo + t + 1) = Some (0, False)" "x \<noteq> lo + t + 1"
  shows "prev_free (remove_map B lo t) x \<longleftrightarrow> prev_free B x"
proof -
  have "B y = Some (n, True) \<and> y + n + 1 = x \<longleftrightarrow> remove_map B lo t y = Some (n, True) \<and> y + n + 1 = x" for y n
    using assms by auto
  then show ?thesis unfolding prev_free_def by blast
qed

lemma free_map_remove: "B (lo + t + 1) = Some (0, False) \<Longrightarrow> free_map (remove_map B lo t) = (free_map B)(lo := None)"
  by (intro ext) (simp add: free_map_def remove_map_def)

lemma allocations_remove:
  "B lo = Some (t, True) \<Longrightarrow> B (lo + t + 1) = Some (0, False) \<Longrightarrow> allocations (remove_map B lo t) = allocations B"
  by (intro ext) (auto simp: allocations_def remove_map_def split: option.splits prod.splits)

lemma pool_cells_mono: "P \<subseteq> Q \<Longrightarrow> pool_cells P \<subseteq> pool_cells Q"
  unfolding pool_cells_def by blast

lemma remove_pool_ok:
  assumes inv: "tlsf_inv N P s B" and pool: "(lo, t) \<in> P" "B lo = Some (t, True)"
  shows "tlsf_inv N (P - {(lo, t)}) (tlsf_remove_pool s (ptr (lo + 1))) (remove_map B lo t)"
    and "same_outside (own_cells N P (used_map B)) (cells (mem s)) (cells (mem (tlsf_remove_pool s (ptr (lo + 1)))))"
proof -
  have ok: "heap_ok N P s B (free_map B)" and co: "coalesced_but {} B" using inv by (simp_all add: tlsf_inv_def)
  note okD = heap_okD [OF ok]
  let ?P = "P - {(lo, t)}" and ?B = "remove_map B lo t" and ?s = "tlsf_remove_pool s (ptr (lo + 1))"
  have F: "free_map B lo = Some t" using pool(2) by simp
  have hi: "B (lo + t + 1) = Some (0, False)" by (rule segmentsD(3) [OF okD(2) pool(1)])
  have run: "?s = block_remove s (ptr lo)"
    by (simp add: tlsf_remove_pool_def block_remove_def pool_block split: prod.splits)
  note r = block_remove_ok [OF ok F, folded run]
  note rD = heap_okD [OF r(1)]
  show "same_outside (own_cells N P (used_map B)) (cells (mem s)) (cells (mem ?s))" by (rule r(2))
  have "control_apart N ?P" using okD(1) pool_cells_mono [of ?P P] unfolding control_apart_def by blast
  moreover have "headers_ok (cells (mem ?s)) ?B"
    unfolding headers_ok_def
  proof (intro allI impI)
    fix x n f
    assume "?B x = Some (n, f)"
    then have x: "B x = Some (n, f)" "x \<noteq> lo + t + 1" by simp_all
    show "cells (mem ?s) (x + 1) = size_word n f (prev_free ?B x) \<and> (f \<longrightarrow> cells (mem ?s) (x + n + 1) = ptr x)"
      using headers_okD [OF rD(3) x(1)] prev_free_remove [OF pool(2) hi x(2)] by simp
  qed
  ultimately have "heap_ok N ?P ?s ?B (free_map ?B)"
    using rD(4) free_map_remove [where B = B and lo = lo and t = t, OF hi]
    by (intro heap_okI segments_remove [OF okD(2) pool]) (simp_all del: remove_map_Some flip: free_map_Some)
  moreover have "coalesced_but {} ?B"
    using coalesced_butD [OF co] prev_free_remove [OF pool(2) hi] by (auto simp: coalesced_but_def)
  ultimately show "tlsf_inv N ?P ?s ?B" by (simp add: tlsf_inv_def)
qed

text \<open>What it means to the clients: the live allocations of the other pools stay.\<close>

lemma tlsf_remove_contract:
  assumes st: "tlsf_state base P s A" and pool: "(lo, t) \<in> P" "pool_idle lo t A"
  shows "tlsf_state base (P - {(lo, t)}) (tlsf_remove_pool s (ptr (lo + 1))) A"
    and "keeps base P A (mem s) (mem (tlsf_remove_pool s (ptr (lo + 1))))"
proof -
  obtain N B where b: "base = ptr N" "N + 817 \<le> cell_limit" "tlsf_inv N P s B" "A = allocations B" "segments P B"
    "unat base = 8 * N" "control_apart N P"
    by (rule tlsf_stateE [OF st])
  have lo: "B lo = Some (t, True)" using pool(2) by (intro empty_pool [OF b(3) pool(1)]) (simp add: b(4))
  note r = remove_pool_ok [OF b(3) pool(1) lo] and hi = segmentsD(3) [OF b(5) pool(1)]
  show "tlsf_state base (P - {(lo, t)}) (tlsf_remove_pool s (ptr (lo + 1))) A"
    by (rule tlsf_stateI [OF b(1,2) r(1)]) (simp add: allocations_remove [OF lo hi] b(4))
  show "keeps base P A (mem s) (mem (tlsf_remove_pool s (ptr (lo + 1))))"
    by (rule own_cells_keeps [OF b(7,5) r(2) _ _ b(6)]) (simp_all add: b(4))
qed

section \<open>Adding a pool\<close>

text \<open>Memory that neither the control structure nor a pool takes, apart from the addresses below 16.\<close>

definition unused_region :: "u64 \<Rightarrow> pools \<Rightarrow> u64 \<Rightarrow> u64 \<Rightarrow> bool" where
  "unused_region base P a bytes \<longleftrightarrow> 16 \<le> unat a \<and> unat a + unat bytes \<le> 2 ^ 64
     \<and> (\<forall>x. unat x \<in> region a (unat bytes) \<longrightarrow> outside base P x)"

text \<open>The pool that \<open>tlsf_add_pool\<close> makes of a region.\<close>

definition region_pool :: "u64 \<Rightarrow> u64 \<Rightarrow> nat \<times> nat" where
  "region_pool a bytes = (unat a div 8 - 1, (unat bytes - 16) div 8)"

lemma region_fits:
  assumes seg: "segments P B" and al: "unat a mod 8 = 0" and reg: "unused_region base P a bytes" and b: "16 \<le> unat bytes"
    and p: "region_pool a bytes = (lo, t)" and t: "3 \<le> t" "t < 2 ^ 29" and base: "unat base = 8 * N" "N + 817 \<le> cell_limit"
  shows "a = ptr (lo + 1)" "pools_ok (insert (lo, t) P)" "(lo, t) \<notin> P" "control_apart N P \<Longrightarrow> control_apart N (insert (lo, t) P)"
proof -
  have a16: "16 \<le> unat a" "unat a + unat bytes \<le> 2 ^ 64" using reg by (simp_all add: unused_region_def)
  have t8: "8 * t + 16 \<le> unat bytes" using p b by (auto simp: region_pool_def)
  have lo: "unat a = 8 * (lo + 1)" using p al a16(1) by (auto simp: region_pool_def)
  then show a: "a = ptr (lo + 1)" using aligned_ptr [OF al] by simp
  have lim: "lo + t + 2 < cell_limit" "0 < lo" using lo t8 a16 by (simp_all add: cell_limit_def)
  have out: "k \<notin> pool_cells P" "\<not> (N \<le> k \<and> k < N + 817)" if k: "lo + 1 \<le> k" "k \<le> lo + t + 2" for k
  proof -
    have u: "unat (ptr k) = 8 * k" using k(2) lim(1) by (intro unat_ptr) simp
    have "unat (ptr k) \<in> region a (unat bytes)" unfolding region_def u lo using k t8 by simp
    then have "outside base P (ptr k)" using reg unfolding unused_region_def by blast
    then show "k \<notin> pool_cells P" "\<not> (N \<le> k \<and> k < N + 817)" by (auto simp: outside_def u base(1))
  qed
  have apart: "lo + t + 2 \<le> l \<or> l + u + 2 \<le> lo" if "(l, u) \<in> P" for l u
  proof (rule ccontr)
    assume "\<not> (lo + t + 2 \<le> l \<or> l + u + 2 \<le> lo)"
    then have "lo + 1 \<le> max (lo + 1) (l + 1)" "max (lo + 1) (l + 1) \<le> lo + t + 2"
      "l + 1 \<le> max (lo + 1) (l + 1)" "max (lo + 1) (l + 1) \<le> l + u + 2" by simp_all
    then show False using out(1) pool_cellsI [OF that] by blast
  qed
  then show "pools_ok (insert (lo, t) P)"
    using segmentsD(1) [OF seg] lim t unfolding pools_ok_def by blast
  show "(lo, t) \<notin> P" using apart by fastforce
  show "control_apart N (insert (lo, t) P)" if c: "control_apart N P"
  proof -
    have "pool_cells (insert (lo, t) P) \<subseteq> pool_cells P \<union> {lo + 1 .. lo + t + 2}"
      unfolding pool_cells_def by auto
    moreover have "{N ..< N + 817} \<inter> {lo + 1 .. lo + t + 2} = {}" using out(2) by auto
    ultimately show ?thesis using c unfolding control_apart_def by blast
  qed
qed

lemma tlsf_add_contract:
  assumes st: "tlsf_state base P s A" and al: "unat a mod 8 = 0" and reg: "unused_region base P a bytes" "16 \<le> unat bytes"
    and t: "3 \<le> (unat bytes - 16) div 8" "(unat bytes - 16) div 8 < 2 ^ 29"
  obtains s' where "tlsf_add_pool (Some s) a bytes = Some (Some s', a)"
    "tlsf_state base (insert (region_pool a bytes) P) s' A" "keeps base (insert (region_pool a bytes) P) A (mem s) (mem s')"
    "pool_idle (unat a div 8 - 1) ((unat bytes - 16) div 8) A"
proof -
  obtain N B where b: "base = ptr N" "N + 817 \<le> cell_limit" "tlsf_inv N P s B" "A = allocations B" "segments P B"
    "unat base = 8 * N" "control_apart N P"
    by (rule tlsf_stateE [OF st])
  define lo u where "lo = unat a div 8 - 1" "u = (unat bytes - 16) div 8"
  have p: "region_pool a bytes = (lo, u)" by (simp add: region_pool_def lo_u_def)
  note t' = t [folded lo_u_def]
  note fit = region_fits [OF b(5) al reg p t' b(6,2)]
  have apart: "control_apart N (insert (lo, u) P)" by (rule fit(4) [OF b(7)])
  obtain s' where s': "tlsf_add_pool (Some s) (ptr (lo + 1)) bytes = Some (Some s', ptr (lo + 1))"
    "tlsf_inv N (insert (lo, u) P) s' (add_map B lo u)"
    "same_outside (own_cells N (insert (lo, u) P) (used_map B)) (cells (mem s)) (cells (mem s'))"
    by (rule add_pool_ok [OF b(3) apart fit(2,3) lo_u_def(2) [symmetric] reg(2)])
  have seg: "segments (insert (lo, u) P) (add_map B lo u)" by (rule segments_add [OF fit(2,3) b(5)])
  have none: "B x = None" if "lo \<le> x" "x \<le> lo + u + 1" for x
  proof (rule ccontr)
    assume "B x \<noteq> None"
    then obtain n f where "B x = Some (n, f)" by auto
    then show False using other_pool(1) [OF fit(2,3) b(5), of x n f] that by auto
  qed
  have A: "allocations (add_map B lo u) = A" by (simp add: allocations_add none b(4))
  have "tlsf_state base (insert (lo, u) P) s' A" by (rule tlsf_stateI [OF b(1,2) s'(2) A])
  moreover have "keeps base (insert (lo, u) P) A (mem s) (mem s')"
  proof (rule own_cells_keeps [OF apart seg s'(3) _ _ b(6)])
    show "used_map B x = Some n" if "used_map (add_map B lo u) x = Some n" "n \<noteq> 0" for x n
      using that by (auto simp: add_map_def split: if_splits)
  qed (simp add: A)
  moreover have "pool_idle lo u A"
    unfolding pool_idle_def
  proof (intro allI impI notI)
    fix q k
    assume "A q = Some k" and in_pool: "8 * (lo + 2) \<le> unat q \<and> unat q < 8 * (lo + u + 2)"
    then have "allocations B q = Some k" by (simp add: b(4))
    then obtain x n where x: "B x = Some (n, False)" "unat q = 8 * (x + 2)" by (rule live_block [OF b(5)])
    then show False using none [of x] in_pool by simp
  qed
  ultimately show thesis using that [of s'] s'(1) unfolding p lo_u_def [symmetric] by (simp flip: fit(1))
qed

text \<open>The pool behind the control structure of an arena is such a region.\<close>

lemma arena_region:
  assumes "arena_ok base bytes"
  shows "unat (tlsf_get_pool base) mod 8 = 0" "unused_region base {} (tlsf_get_pool base) (bytes - tlsf_size)"
    "16 \<le> unat (bytes - tlsf_size)" "3 \<le> (unat (bytes - tlsf_size) - 16) div 8" "(unat (bytes - tlsf_size) - 16) div 8 < 2 ^ 29"
    "insert (region_pool (tlsf_get_pool base) (bytes - tlsf_size)) {} = arena_pool base bytes"
proof -
  have a: "unat base mod 8 = 0" "6576 \<le> unat bytes" "unat bytes < 2 ^ 32" "unat base + unat bytes < 2 ^ 64"
    using assms unfolding arena_ok_def by blast+
  have size: "unat (bytes - tlsf_size) = unat bytes - 6536"
    using a(2) by (simp add: control_size(2) unat_sub word_le_nat_alt)
  have at: "unat (tlsf_get_pool base) = unat base + 6536"
    using a(2,4) by (simp add: tlsf_get_pool_def control_size(2) unat_word_ariths(1))
  have d: "(unat base + 6536) div 8 = unat base div 8 + 817" by simp
  show "unat (tlsf_get_pool base) mod 8 = 0" "16 \<le> unat (bytes - tlsf_size)"
    using a(1,2) by (auto simp: at size)
  show "3 \<le> (unat (bytes - tlsf_size) - 16) div 8" "(unat (bytes - tlsf_size) - 16) div 8 < 2 ^ 29"
    using a(2,3) by (simp_all add: size)
  show "unused_region base {} (tlsf_get_pool base) (bytes - tlsf_size)"
    using a(2,4) by (auto simp: unused_region_def at size region_def outside_def pool_cells_def)
  show "insert (region_pool (tlsf_get_pool base) (bytes - tlsf_size)) {} = arena_pool base bytes"
    using a(2) by (simp add: region_pool_def arena_pools_def arena_cells_def at size d)
qed

text \<open>
  What \<open>tlsf_add_pool\<close> rejects it leaves alone; what it accepts has a size in range. The one size that passes the
  checks and has no list is 4 GiB.
\<close>

lemma add_pool_4_gib:
  assumes "unat a mod 8 = 0" "8 < unat a" "(unat bytes - 16) div 8 = 536870912" "16 \<le> unat bytes"
  shows "tlsf_add_pool (Some s) a bytes = None"
proof -
  define lo where "lo = unat a div 8 - 1"
  have ua: "unat a < 2 ^ 64" using unsigned_less [of a, where 'a = nat] by simp
  have "lo + 1 = unat a div 8" using assms(2) by (simp add: lo_def)
  then have a: "a = ptr (lo + 1)" and lim: "lo + 1 < cell_limit"
    using aligned_ptr [OF assms(1)] ua by (simp_all add: cell_limit_def)
  have p29: "ptr 536870912 = 4294967296" by (simp add: ptr_def)
  have "mapping_insert 4294967296 = (25, 0)" by code_simp
  then have "FL_INDEX_COUNT \<le> fst (mapping_insert (block_size
      (block_set_prev_used (block_set_free (block_set_size (mem s) (ptr lo) (ptr 536870912)) (ptr lo)) (ptr lo)) (ptr lo)))"
    unfolding block_size_cell [OF pool_header(2) [OF lim]] by (simp add: p29 tlsf_constants)
  moreover have "\<not> ptr 536870912 < block_size_min" "\<not> ptr 536870912 > block_size_max"
    by (simp_all add: p29 tlsf_constants)
  ultimately show ?thesis
    using ptr_aligned [OF lim] by (simp add: tlsf_add_pool_def Let_def pool_size_cells [OF assms(3,4)] a pool_block)
qed

lemma add_pool_rejects:
  assumes "16 \<le> unat bytes" "unat a mod 8 \<noteq> 0 \<or> (unat bytes - 16) div 8 < 3 \<or> 2 ^ 29 < (unat bytes - 16) div 8"
  shows "tlsf_add_pool c a bytes = Some (c, 0)"
proof -
  define t where "t = (unat bytes - 16) div 8"
  have "unat bytes < 2 ^ 64" using unsigned_less [of bytes, where 'a = nat] by simp
  then have "t < cell_limit" by (simp add: t_def cell_limit_def)
  then have "unat (ptr t) = 8 * t" by (rule unat_ptr)
  then have "a mod ALIGN_SIZE \<noteq> 0 \<or> ptr t < block_size_min \<or> ptr t > block_size_max"
    using assms(2) unfolding not_aligned t_def [symmetric] by (auto simp: word_less_nat_alt tlsf_constants)
  then show ?thesis
    unfolding tlsf_add_pool_def Let_def pool_size_cells [OF t_def [symmetric] assms(1)] by auto
qed

lemma add_pool_small:
  assumes "unat bytes < 16"
  shows "tlsf_add_pool c a bytes = Some (c, 0)"
proof -
  have "tlsf_pool_overhead = 16" by (simp add: tlsf_pool_overhead_def block_constants)
  moreover have "unat (bytes - 16) = 2 ^ 64 + unat bytes - 16"
    using assms by (subst unat_sub_if') (simp add: word_le_nat_alt)
  then have "block_size_max < align_down (bytes - 16) ALIGN_SIZE"
    using assms unfolding align_down_cells by (simp add: word_less_nat_alt unat_ptr cell_limit_def tlsf_constants)
  ultimately show ?thesis by (simp add: tlsf_add_pool_def Let_def)
qed

lemma add_pool_result:
  assumes "tlsf_add_pool (Some s) a bytes = Some (Some s', r)" "16 \<le> unat a"
  obtains "r = 0" "s' = s" | "unat a mod 8 = 0" "16 \<le> unat bytes" "3 \<le> (unat bytes - 16) div 8" "(unat bytes - 16) div 8 < 2 ^ 29"
proof -
  consider "unat bytes < 16"
    | "16 \<le> unat bytes" "unat a mod 8 \<noteq> 0 \<or> (unat bytes - 16) div 8 < 3 \<or> 2 ^ 29 < (unat bytes - 16) div 8"
    | "16 \<le> unat bytes" "unat a mod 8 = 0" "(unat bytes - 16) div 8 = 536870912"
    | "16 \<le> unat bytes" "unat a mod 8 = 0" "3 \<le> (unat bytes - 16) div 8" "(unat bytes - 16) div 8 < 2 ^ 29"
    using linorder_less_linear [of "(unat bytes - 16) div 8" 536870912] by (simp add: not_less) linarith
  then show thesis
  proof cases
    case 1
    then show ?thesis using add_pool_small [of bytes "Some s" a] assms(1) that(1) by simp
  next
    case 2
    then show ?thesis using add_pool_rejects [OF 2, of "Some s"] assms(1) that(1) by simp
  next
    case 3
    then show ?thesis using add_pool_4_gib [of a bytes s] assms by simp
  next
    case 4
    then show ?thesis using that(2) by simp
  qed
qed

section \<open>Properties\<close>

text \<open>
  C32. When everything has been freed, \<open>tlsf_remove_pool\<close> empties all lists: no request whatever is served from the
  removed memory. Adding the pool again with \<open>tlsf_add_pool\<close> gives back an allocator that satisfies the
  invariant with nothing allocated, and neither call touches memory outside of the arena.
\<close>

theorem tlsf_pool_roundtrip:
  assumes "arena_ok base bytes" "tlsf_reachable m base bytes s Map.empty"
  defines "s' \<equiv> tlsf_remove_pool s (tlsf_get_pool base)"
  shows "tlsf_malloc s' sz = (s', 0)
    \<and> (\<exists>s''. tlsf_add_pool (Some s') (tlsf_get_pool base) (bytes - tlsf_size) = Some (Some s'', tlsf_get_pool base)
        \<and> tlsf_state base (arena_pool base bytes) s'' Map.empty
        \<and> (\<forall>a. outside base (arena_pool base bytes) a \<longrightarrow> mem s'' a = m a))"
proof -
  have st: "tlsf_state base (arena_pool base bytes) s Map.empty" using reachable_state(1) [OF assms(1,2)] by simp
  have al: "unat base mod 8 = 0" using assms(1) by (simp add: arena_ok_def)
  let ?lo = "unat base div 8 + 816" and ?t = "arena_cells bytes"
  note get = arena_get_pool [OF al] and reg = arena_region [OF assms(1)]
  have pool: "(?lo, ?t) \<in> arena_pool base bytes" by (simp add: arena_pools_def)
  note rem = tlsf_remove_contract [OF st pool pool_idle_empty, folded get s'_def]
  have none: "tlsf_state base {} s' Map.empty" using rem(1) by (simp add: arena_pools_def)
  obtain s'' where s'': "tlsf_add_pool (Some s') (tlsf_get_pool base) (bytes - tlsf_size) = Some (Some s'', tlsf_get_pool base)"
    "tlsf_state base (insert (region_pool (tlsf_get_pool base) (bytes - tlsf_size)) {}) s'' Map.empty"
    "keeps base (insert (region_pool (tlsf_get_pool base) (bytes - tlsf_size)) {}) Map.empty (mem s') (mem s'')"
    by (rule tlsf_add_contract [OF none reg(1-5)])
  have "mem s'' a = m a" if a: "outside base (arena_pool base bytes) a" for a
    using keeps_outside [OF s''(3)] keeps_outside [OF rem(2) a] reachable_outside [OF assms(2,1) a] a reg(6) by simp
  then show ?thesis using nothing_served [OF none] s''(1,2) reg(6) by simp
qed

theorem tlsf_pool_roundtrip_witness:
  "\<exists>s. tlsf_create_with_pool (\<lambda>_. 0) 0x80000000 0x4000000 = Some (Some s)
    \<and> tlsf_malloc (tlsf_remove_pool s 0x80001988) 8 = (tlsf_remove_pool s 0x80001988, 0)"
proof -
  obtain s where s: "tlsf_create_with_pool (\<lambda>_. 0) 0x80000000 0x4000000 = Some (Some s)"
    by (rule arena_create [OF arena_example(1)])
  then have "tlsf_reachable (\<lambda>_. 0) 0x80000000 0x4000000 s Map.empty" by (rule heap_reachable.start)
  from tlsf_pool_roundtrip [OF arena_example(1) this, of 8] s show ?thesis
    by (simp add: tlsf_get_pool_def control_size(2))
qed

text \<open>
  C35. The upper bound check of \<open>tlsf_add_pool\<close> admits one size too many: a pool of exactly 4 GiB (plus the overhead of
  16 bytes) passes it, but its block belongs to the first-level list 25, which is outside of the table of 25
  lists; the model reports the access. Every smaller block belongs to a list inside the table.
\<close>

theorem tlsf_add_pool_limit:
  assumes "unat a mod 8 = 0" "8 < unat a" "(unat bytes - 16) div 8 = 536870912" "16 \<le> unat bytes"
  shows "tlsf_add_pool (Some s) a bytes = None
    \<and> (n < 536870912 \<longrightarrow> fst (mapping_insert (ptr n)) < FL_INDEX_COUNT)"
proof -
  have "fst (mapping_insert (ptr n)) < FL_INDEX_COUNT" if "n < 536870912"
    using size_class_bounds(1) [of n] that by (simp add: size_class_def tlsf_constants)
  then show ?thesis using add_pool_4_gib [OF assms] by blast
qed

theorem tlsf_add_pool_limit_witness:
  "tlsf_add_pool (Some (control_construct (\<lambda>_. 0) 0x80000000)) 0x80002000 0x100000010 = None"
  using tlsf_add_pool_limit [where a = "0x80002000" and bytes = "0x100000010" and s = "control_construct (\<lambda>_. 0) 0x80000000"] by simp

end
