(* ===== verification/TlsfManyPools.thy ===== *)
theory TlsfManyPools imports TlsfPools begin

text \<open>
  An allocator over any number of pools. \<open>tlsf_create\<close> starts without memory; the clients' calls, \<open>tlsf_add_pool\<close>,
  \<open>tlsf_remove_pool\<close> and the writes of everybody else to the rest of the memory follow in any order. The invariant
  of the heap holds in every state of such a run, so that the properties of allocations do not depend on where
  the pools lie or when they came.
\<close>

unbundle bit_operations_syntax

section \<open>Runs\<close>

text \<open>The state, the pools it has, and the clients' record of their allocations.\<close>

type_synonym pools_config = "control_t \<times> pools \<times> ideal"

text \<open>The event of a call has the result of the call.\<close>

datatype pool_event = Call client_op u64 | AddPool u64 u64 u64 | RemovePool u64 | Write u64 u8

inductive pools_step :: "u64 \<Rightarrow> pools_config \<Rightarrow> pool_event \<Rightarrow> pools_config \<Rightarrow> bool" for base where
  call: "tlsf_legal H op \<Longrightarrow> tlsf_call s op = (s', r) \<Longrightarrow>
    pools_step base (s, P, H) (Call op r) (s', P, client_observe (mem s') (tlsf_capacity s' r) op r H)"
| add_pool: "unused_region base P a bytes \<Longrightarrow> tlsf_add_pool (Some s) a bytes = Some (Some s', r) \<Longrightarrow>
    pools_step base (s, P, H) (AddPool a bytes r) (s', if r = 0 then P else insert (region_pool a bytes) P, H)"
| remove_pool: "(lo, t) \<in> P \<Longrightarrow> pool_idle lo t (sizes H) \<Longrightarrow>
    pools_step base (s, P, H) (RemovePool (ptr (lo + 1))) (tlsf_remove_pool s (ptr (lo + 1)), P - {(lo, t)}, H)"
| other: "outside base P a \<Longrightarrow> pools_step base (s, P, H) (Write a v) (tlsf_poke s a v, P, H)"

inductive pools_run :: "u64 \<Rightarrow> pools_config \<Rightarrow> pool_event list \<Rightarrow> pools_config \<Rightarrow> bool" for base where
  none: "pools_run base c [] c"
| more: "pools_run base c evs c' \<Longrightarrow> pools_step base c' ev c'' \<Longrightarrow> pools_run base c (evs @ [ev]) c''"

definition pools_reachable :: "memory \<Rightarrow> u64 \<Rightarrow> pools_config \<Rightarrow> bool" where
  "pools_reachable m base c \<longleftrightarrow> (\<exists>s evs. tlsf_create m base = Some s \<and> pools_run base (s, {}, Map.empty) evs c)"

section \<open>The invariant\<close>

fun config_ok :: "u64 \<Rightarrow> pools_config \<Rightarrow> bool" where
  "config_ok base (s, P, H) \<longleftrightarrow> tlsf_state base P s (sizes H) \<and> agrees (mem s) H"

lemma keeps_agrees:
  assumes "tlsf_state base P s (sizes H)" "agrees (mem s) H" "keeps base Q (sizes H) (mem s) m'"
  shows "agrees m' H"
  by (rule tlsf.agrees_frame [OF assms(1,2) keeps_live [OF assms(3)]]) (auto simp: map_le_def)

text \<open>Adding a pool, whatever comes of it.\<close>

lemma add_pool_step:
  assumes st: "tlsf_state base P s A" and reg: "unused_region base P a bytes"
    and run: "tlsf_add_pool (Some s) a bytes = Some (Some s', r)"
  obtains "r = 0" "s' = s"
  | "r = a" "r \<noteq> 0" "tlsf_state base (insert (region_pool a bytes) P) s' A"
    "keeps base (insert (region_pool a bytes) P) A (mem s) (mem s')" "16 \<le> unat bytes" "unat a mod 8 = 0"
proof -
  have a: "16 \<le> unat a" using reg by (simp add: unused_region_def)
  then have nz: "a \<noteq> 0" by auto
  show thesis
  proof (cases rule: add_pool_result [OF run a])
    case 1
    then show ?thesis by (rule that(1))
  next
    case 2
    show ?thesis
      by (rule tlsf_add_contract [OF st 2(1) reg 2(2-4)]) (rule that(2), use run nz 2 in auto)
  qed
qed

lemma pools_step_ok: "pools_step base c ev c' \<Longrightarrow> config_ok base c \<Longrightarrow> config_ok base c'"
proof (induction rule: pools_step.induct)
  case (call H op s s' r P)
  then show ?case using tlsf_full.client_refines [of base P s H op s' r] by simp
next
  case (add_pool P a bytes s s' r H)
  then have st: "tlsf_state base P s (sizes H)" "agrees (mem s) H" by simp_all
  show ?case
  proof (cases rule: add_pool_step [OF st(1) add_pool.hyps])
    case 1
    then show ?thesis using st by simp
  next
    case 2
    then show ?thesis using keeps_agrees [OF st 2(4)] by simp
  qed
next
  case (remove_pool lo t P H s)
  then have st: "tlsf_state base P s (sizes H)" "agrees (mem s) H" by simp_all
  note rem = tlsf_remove_contract [OF st(1) remove_pool.hyps]
  show ?case using rem(1) keeps_agrees [OF st rem(2)] by simp
next
  case (other P a s H v)
  then have st: "tlsf_state base P s (sizes H)" "agrees (mem s) H" by simp_all
  have "a \<noteq> b" if "sizes H p = Some k" "unat b \<in> region p k" for b p k
    using live_not_outside [OF st(1) that] other.hyps by auto
  then have "agrees ((mem s)(a := v)) H" by (intro tlsf.agrees_frame [OF st]) (auto simp: map_le_def)
  then show ?case using tlsf_outside_contract [OF st(1) other.hyps] by simp
qed

lemma pools_run_ok: "pools_run base c evs c' \<Longrightarrow> config_ok base c \<Longrightarrow> config_ok base c'"
  by (induction rule: pools_run.induct) (blast dest: pools_step_ok)+

lemma create_state:
  assumes "tlsf_create m base = Some s" "unat base + 6536 \<le> 2 ^ 64"
  shows "tlsf_state base {} s Map.empty"
proof -
  have al: "unat base mod 8 = 0" using assms(1) by (simp add: tlsf_create_def not_aligned split: if_splits)
  define N where "N = unat base div 8"
  have b: "base = ptr N" "unat base = 8 * N" using aligned_ptr [OF al] al by (auto simp: N_def)
  have N: "N + 817 \<le> cell_limit" using assms(2) by (simp add: b(2) cell_limit_def)
  have lim: "N + 3 < cell_limit" using N by simp
  obtain s0 where "tlsf_create m (ptr N) = Some s0" "tlsf_inv N {} s0 Map.empty" by (rule create_ok [OF lim])
  then show ?thesis
    using assms(1) b(1) N by (intro tlsf_stateI [of base N]) (auto simp: allocations_def fun_eq_iff)
qed

lemma pools_reachable_ok:
  assumes "unat base + 6536 \<le> 2 ^ 64" "pools_reachable m base c"
  shows "config_ok base c"
proof -
  obtain s evs where s: "tlsf_create m base = Some s" "pools_run base (s, {}, Map.empty) evs c"
    using assms(2) unfolding pools_reachable_def by blast
  have "config_ok base (s, {}, Map.empty)" using create_state [OF s(1) assms(1)] by (simp add: agrees_def)
  then show ?thesis by (rule pools_run_ok [OF s(2)])
qed

text \<open>An arena of \<open>tlsf_create_with_pool\<close> is the case of one pool: its runs are among these.\<close>

lemma arena_pools_reachable:
  assumes "tlsf_reachable m base bytes s H" "arena_ok base bytes"
  shows "pools_reachable m base (s, arena_pool base bytes, H)"
  using assms(1)
proof induction
  case (start s)
  have "unat base mod 8 = 0" "unat base + 6536 \<le> 2 ^ 64" using assms(2) by (simp_all add: arena_ok_def)
  then obtain s0 where s0: "tlsf_create m base = Some s0" "tlsf_state base {} s0 Map.empty"
    using create_state by (auto simp: tlsf_create_def not_aligned)
  note reg = arena_region [OF assms(2)]
  obtain s1 where s1: "tlsf_add_pool (Some s0) (tlsf_get_pool base) (bytes - tlsf_size) = Some (Some s1, tlsf_get_pool base)"
    by (rule tlsf_add_contract [OF s0(2) reg(1-5)])
  then have "s1 = s" using start s0(1) by (simp add: tlsf_create_with_pool_def tlsf_get_pool_def)
  moreover have "tlsf_get_pool base \<noteq> 0" using reg(2) by (auto simp: unused_region_def)
  ultimately have "pools_run base (s0, {}, Map.empty) ([] @ [AddPool (tlsf_get_pool base) (bytes - tlsf_size) (tlsf_get_pool base)])
      (s, arena_pool base bytes, Map.empty)"
    using pools_step.add_pool [OF reg(2) s1, of Map.empty] reg(6) by (intro pools_run.more [OF pools_run.none]) simp
  then show ?case using s0(1) unfolding pools_reachable_def by blast
next
  case (step s H op s' r)
  then obtain s0 evs where s0: "tlsf_create m base = Some s0" "pools_run base (s0, {}, Map.empty) evs (s, arena_pool base bytes, H)"
    unfolding pools_reachable_def by blast
  from pools_run.more [OF s0(2) pools_step.call [OF step.hyps(2,3)]] s0(1)
  show ?case unfolding pools_reachable_def by blast
qed

section \<open>Memory that is nobody's\<close>

text \<open>Events that do not hand the bytes \<open>R\<close> to the allocator and do not write to them.\<close>

fun spares :: "nat set \<Rightarrow> pool_event \<Rightarrow> bool" where
  "spares R (Call op r) \<longleftrightarrow> True"
| "spares R (AddPool a bytes r) \<longleftrightarrow> R \<inter> region a (unat bytes) = {}"
| "spares R (RemovePool a) \<longleftrightarrow> True"
| "spares R (Write a v) \<longleftrightarrow> unat a \<notin> R"

text \<open>The cells of a pool are bytes of the region that \<open>tlsf_add_pool\<close> got.\<close>

lemma outside_insert:
  assumes "outside base P x" "unat x \<notin> region a (unat bytes)" "unat a mod 8 = 0" "16 \<le> unat a" "16 \<le> unat bytes"
  shows "outside base (insert (region_pool a bytes) P) x"
proof -
  define t where "t = (unat bytes - 16) div 8"
  define lo where "lo = unat a div 8 - 1"
  have lo: "unat a = 8 * (lo + 1)" using assms(3,4) by (auto simp: lo_def)
  have t: "8 * t + 16 \<le> unat bytes" using assms(5) by (simp add: t_def)
  have "\<not> (lo + 1 \<le> unat x div 8 \<and> unat x div 8 \<le> lo + t + 2)"
    using assms(2) lo t unfolding region_def by auto
  then show ?thesis
    using assms(1) unfolding outside_def pool_cells_def region_pool_def lo_def [symmetric] t_def [symmetric] by auto
qed

lemma step_spares:
  "pools_step base (s, P, H) ev (s', P', H') \<Longrightarrow> config_ok base (s, P, H) \<Longrightarrow> spares R ev \<Longrightarrow> unat x \<in> R \<Longrightarrow>
     outside base P x \<Longrightarrow> mem s' x = mem s x \<and> outside base P' x"
proof (induction "(s, P, H)" ev "(s', P', H')" rule: pools_step.induct)
  case (call op r)
  then show ?case using call_outside [of base P s H op s' r x] by simp
next
  case (add_pool a bytes r)
  then have st: "tlsf_state base P s (sizes H)" and x: "unat x \<notin> region a (unat bytes)" by auto
  have a: "16 \<le> unat a" using add_pool.hyps(1) by (simp add: unused_region_def)
  show ?case
  proof (cases rule: add_pool_step [OF st add_pool.hyps(1,2)])
    case 1
    then show ?thesis using add_pool by simp
  next
    case 2
    have "outside base (insert (region_pool a bytes) P) x" by (rule outside_insert [OF add_pool.prems(4) x 2(6) a 2(5)])
    then show ?thesis using keeps_outside [OF 2(4)] 2(2) add_pool.hyps by auto
  qed
next
  case (remove_pool lo t)
  then have st: "tlsf_state base P s (sizes H)" by simp
  have "outside base (P - {(lo, t)}) x" using remove_pool.prems(4) pool_cells_mono [of "P - {(lo, t)}" P] by (auto simp: outside_def)
  then show ?case
    using keeps_outside [OF tlsf_remove_contract(2) [OF st remove_pool.hyps(1,2)] remove_pool.prems(4)] remove_pool.hyps by simp
qed auto

lemma run_spares:
  assumes "pools_run base c evs c'" "config_ok base c" "list_all (spares R) evs" "unat x \<in> R" "outside base (fst (snd c)) x"
  shows "mem (fst c') x = mem (fst c) x \<and> outside base (fst (snd c')) x"
  using assms
proof induction
  case (more c evs c' ev c'')
  have ok: "config_ok base c'" by (rule pools_run_ok [OF more.hyps(1) more.prems(1)])
  obtain s P H s' P' H' where c: "c' = (s, P, H)" "c'' = (s', P', H')" by (metis surj_pair)
  have IH: "mem s x = mem (fst c) x" "outside base P x" using more.IH more.prems by (simp_all add: c(1))
  have "mem s' x = mem s x \<and> outside base P' x"
    using step_spares [of base s P H ev s' P' H' R x] more.hyps(2) ok more.prems(2,3) IH(2) by (simp add: c)
  then show ?case using IH(1) by (simp add: c(2))
qed simp

text \<open>The memory of a pool is apart from the control structure and all other pools.\<close>

lemma pool_region_outside:
  assumes st: "tlsf_state base P s A" and pool: "(lo, t) \<in> P" and x: "unat x \<in> region (ptr (lo + 1)) (8 * t + 16)"
  shows "outside base (P - {(lo, t)}) x"
proof -
  obtain N B where b: "base = ptr N" "N + 817 \<le> cell_limit" "tlsf_inv N P s B" "A = allocations B" "segments P B"
    "unat base = 8 * N" "control_apart N P"
    by (rule tlsf_stateE [OF st])
  note D = pools_okD [OF segmentsD(1) [OF b(5)] pool]
  have "unat (ptr (lo + 1)) = 8 * (lo + 1)" using D(2) by (intro unat_ptr) simp
  then have k: "lo + 1 \<le> unat x div 8" "unat x div 8 \<le> lo + t + 2" using x by (auto simp: region_def)
  have "unat x div 8 \<notin> pool_cells (P - {(lo, t)})"
  proof
    assume "unat x div 8 \<in> pool_cells (P - {(lo, t)})"
    then obtain l u where l: "(l, u) \<in> P" "(l, u) \<noteq> (lo, t)" "l + 1 \<le> unat x div 8" "unat x div 8 \<le> l + u + 2"
      unfolding pool_cells_def by blast
    have "lo + t + 2 \<le> l \<or> l + u + 2 \<le> lo" using D(5) [OF l(1)] l(2) by metis
    then show False using k l(3,4) by auto
  qed
  moreover have "unat x div 8 \<notin> {N ..< N + 817}" using pool_cellsI [OF pool k] b(7) unfolding control_apart_def by blast
  ultimately show ?thesis unfolding outside_def b(6) by auto
qed

section \<open>An example\<close>

lemma region_example:
  "unused_region 0x80000000 {} 0x90000000 0x1000000"
  "unused_region 0x80000000 {region_pool 0x90000000 0x1000000} 0x70000000 0x100000"
  by (auto simp: unused_region_def region_def outside_def pool_cells_def region_pool_def)

text \<open>Two pools, added in the opposite order of their addresses.\<close>

lemma two_pools_example:
  obtains s where "pools_reachable (\<lambda>_. 0) 0x80000000
      (s, {region_pool 0x70000000 0x100000, region_pool 0x90000000 0x1000000}, Map.empty)"
proof -
  let ?b = "0x80000000 :: u64" and ?P = "{region_pool 0x90000000 0x1000000}"
  define s0 where "s0 = control_construct (\<lambda>_. 0) ?b"
  have c: "tlsf_create (\<lambda>_. 0) ?b = Some s0" by (simp add: tlsf_create_def tlsf_constants s0_def)
  have st0: "tlsf_state ?b {} s0 Map.empty" by (rule create_state [OF c]) simp
  obtain s1 where s1: "tlsf_add_pool (Some s0) 0x90000000 0x1000000 = Some (Some s1, 0x90000000)" "tlsf_state ?b ?P s1 Map.empty"
    by (rule tlsf_add_contract [OF st0 _ region_example(1)]) simp_all
  obtain s2 where s2: "tlsf_add_pool (Some s1) 0x70000000 0x100000 = Some (Some s2, 0x70000000)"
    by (rule tlsf_add_contract [OF s1(2) _ region_example(2)]) simp_all
  have "pools_run ?b (s0, {}, Map.empty) ([] @ [AddPool 0x90000000 0x1000000 0x90000000]) (s1, ?P, Map.empty)"
    using pools_step.add_pool [OF region_example(1) s1(1), of Map.empty] by (intro pools_run.more [OF pools_run.none]) simp
  then have "pools_run ?b (s0, {}, Map.empty) ([AddPool 0x90000000 0x1000000 0x90000000] @ [AddPool 0x70000000 0x100000 0x70000000])
      (s2, insert (region_pool 0x70000000 0x100000) ?P, Map.empty)"
    using pools_step.add_pool [OF region_example(2) s2, of Map.empty] by (intro pools_run.more) simp_all
  then show thesis using that c unfolding pools_reachable_def by blast
qed

section \<open>Properties\<close>

text \<open>
  C3. Any number of pools: after every sequence of calls, additions and removals of pools and writes of others to the
  rest of the memory, each live allocation is 8-byte aligned, has at least 24 bytes, lies inside one of the
  pools, overlaps no other one, has the size that \<open>tlsf_block_size\<close> reports and holds the bytes that its owner
  wrote last; and \<open>tlsf_check\<close> and \<open>tlsf_check_pool\<close> of every pool report nothing.
\<close>

theorem tlsf_pools_sound:
  assumes "unat base + 6536 \<le> 2 ^ 64" "pools_reachable m base (s, P, H)"
  shows "(\<forall>p bs. H p = Some bs \<longrightarrow> unat p mod 8 = 0 \<and> 24 \<le> length bs
      \<and> (\<exists>lo t. (lo, t) \<in> P \<and> 8 * (lo + 2) \<le> unat p \<and> unat p + length bs \<le> 8 * (lo + t + 2))
      \<and> (\<forall>q cs. H q = Some cs \<longrightarrow> q \<noteq> p \<longrightarrow> region p (length bs) \<inter> region q (length cs) = {})
      \<and> unat (tlsf_block_size (mem s) p) = length bs \<and> mem_bytes (mem s) p (length bs) = bs)
    \<and> tlsf_check s = Some 0 \<and> (\<forall>lo t. (lo, t) \<in> P \<longrightarrow> tlsf_check_pool (mem s) (ptr (lo + 1)) = Some 0)"
proof -
  have st: "tlsf_state base P s (sizes H)" "agrees (mem s) H" using pools_reachable_ok [OF assms] by simp_all
  have "region p (length bs) \<inter> region q (length cs) = {}" if "H p = Some bs" "H q = Some cs" "q \<noteq> p" for p bs q cs
    using tlsf_live(5) [OF st(1), of p "length bs" q "length cs"] that by simp
  moreover have "unat p mod 8 = 0 \<and> 24 \<le> length bs
      \<and> (\<exists>lo t. (lo, t) \<in> P \<and> 8 * (lo + 2) \<le> unat p \<and> unat p + length bs \<le> 8 * (lo + t + 2))
      \<and> unat (tlsf_block_size (mem s) p) = length bs \<and> mem_bytes (mem s) p (length bs) = bs" if "H p = Some bs" for p bs
  proof -
    have p: "sizes H p = Some (length bs)" using that by simp
    show ?thesis
      using tlsf_live(1,2,4) [OF st(1) p] tlsf_block_size_contract [OF st(1) p] st(2) that by (simp add: agrees_def)
  qed
  ultimately show ?thesis using checks_ok [OF st(1)] by blast
qed

theorem tlsf_pools_sound_witness:
  "\<exists>s p bs. pools_reachable (\<lambda>_. 0) 0x80000000
      (s, {region_pool 0x70000000 0x100000, region_pool 0x90000000 0x1000000}, [p \<mapsto> bs])
    \<and> unat p mod 8 = 0 \<and> 24 \<le> length bs \<and> tlsf_check s = Some 0
    \<and> tlsf_check_pool (mem s) 0x70000000 = Some 0 \<and> tlsf_check_pool (mem s) 0x90000000 = Some 0"
proof -
  let ?P = "{region_pool 0x70000000 0x100000, region_pool 0x90000000 0x1000000}"
  obtain s where s: "pools_reachable (\<lambda>_. 0) 0x80000000 (s, ?P, Map.empty)" by (rule two_pools_example)
  then have st: "tlsf_state 0x80000000 ?P s Map.empty" using pools_reachable_ok [of "0x80000000"] by fastforce
  obtain s' p where m: "tlsf_malloc s 100 = (s', p)" by fastforce
  then have p: "p \<noteq> 0"
    using tlsf_malloc_idle [OF st, of "0x90000000 div 8 - 1" "(0x1000000 - 16) div 8" 100] by (simp add: region_pool_def)
  define bs where "bs = mem_bytes (mem s') p (tlsf_capacity s' p)"
  have obs: "client_observe (mem s') (tlsf_capacity s' p) (Basic (Malloc 100)) p Map.empty = [p \<mapsto> bs]"
    using p by (simp add: bs_def)
  have "tlsf_legal Map.empty (Basic (Malloc 100))" "tlsf_call s (Basic (Malloc 100)) = (s', p)" using m by simp_all
  then have "pools_step 0x80000000 (s, ?P, Map.empty) (Call (Basic (Malloc 100)) p) (s', ?P, [p \<mapsto> bs])"
    using pools_step.call [of Map.empty "Basic (Malloc 100)" s s' p "0x80000000" ?P] unfolding obs by blast
  with s have reach: "pools_reachable (\<lambda>_. 0) 0x80000000 (s', ?P, [p \<mapsto> bs])"
    unfolding pools_reachable_def by (blast intro: pools_run.more)
  have "tlsf_check s' = Some 0 \<and> tlsf_check_pool (mem s') (ptr (0x70000000 div 8 - 1 + 1)) = Some 0
      \<and> tlsf_check_pool (mem s') (ptr (0x90000000 div 8 - 1 + 1)) = Some 0 \<and> unat p mod 8 = 0 \<and> 24 \<le> length bs"
    using tlsf_pools_sound [OF _ reach] by (simp add: region_pool_def)
  then show ?thesis using reach by (intro exI [of _ s'] exI [of _ p] exI [of _ bs]) (simp add: ptr_def)
qed

text \<open>
  C33. A further pool is of use at once: \<open>tlsf_add_pool\<close> on an aligned region of at least 40 bytes and less than 4 GiB
  that nobody uses succeeds in every state of a run, and then a request of up to 32/33 of the pool (less 31
  bytes) is served, whatever is allocated in the other pools.
\<close>

theorem tlsf_add_pool_serves:
  assumes "unat base + 6536 \<le> 2 ^ 64" "pools_reachable m base (s, P, H)"
    and "unused_region base P a bytes" "unat a mod 8 = 0" "40 \<le> unat bytes" "unat bytes < 2 ^ 32 + 16"
    and "0 < unat sz" "33 * (unat sz + 31) \<le> 256 * ((unat bytes - 16) div 8)"
  shows "\<exists>s' s'' p. tlsf_add_pool (Some s) a bytes = Some (Some s', a)
    \<and> pools_reachable m base (s', insert (region_pool a bytes) P, H)
    \<and> tlsf_malloc s' sz = (s'', p) \<and> p \<noteq> 0 \<and> H p = None"
proof -
  have st: "tlsf_state base P s (sizes H)" using pools_reachable_ok [OF assms(1,2)] by simp
  have t: "16 \<le> unat bytes" "3 \<le> (unat bytes - 16) div 8" "(unat bytes - 16) div 8 < 2 ^ 29" using assms(5,6) by simp_all
  obtain s' where s': "tlsf_add_pool (Some s) a bytes = Some (Some s', a)"
    "tlsf_state base (insert (region_pool a bytes) P) s' (sizes H)"
    "pool_idle (unat a div 8 - 1) ((unat bytes - 16) div 8) (sizes H)"
    by (rule tlsf_add_contract [OF st assms(4,3) t])
  have a: "a \<noteq> 0" using assms(3) by (auto simp: unused_region_def)
  obtain s0 evs where run: "tlsf_create m base = Some s0" "pools_run base (s0, {}, Map.empty) evs (s, P, H)"
    using assms(2) unfolding pools_reachable_def by blast
  have "pools_run base (s0, {}, Map.empty) (evs @ [AddPool a bytes a]) (s', insert (region_pool a bytes) P, H)"
    using pools_step.add_pool [OF assms(3) s'(1), of H] a by (intro pools_run.more [OF run(2)]) simp
  then have reach: "pools_reachable m base (s', insert (region_pool a bytes) P, H)"
    using run(1) unfolding pools_reachable_def by blast
  obtain s'' p where m: "tlsf_malloc s' sz = (s'', p)" by fastforce
  have p: "p \<noteq> 0"
    using tlsf_malloc_idle [OF s'(2) _ s'(3) assms(7,8)] m by (simp add: region_pool_def)
  have "unat sz + 7 < 2 ^ 64" using t(3) assms(8) by simp
  then have "sizes H p = None" by (rule tlsf_malloc_fresh [OF s'(2) _ m p])
  then show ?thesis using s'(1) reach m p by auto
qed

theorem tlsf_add_pool_serves_witness:
  "\<exists>s s' p. tlsf_create (\<lambda>_. 0) 0x80000000 = Some s \<and> tlsf_add_pool (Some s) 0x90000000 0x1000000 = Some (Some s', 0x90000000)
    \<and> snd (tlsf_malloc s' 16000000) \<noteq> 0"
proof -
  obtain s where c: "tlsf_create (\<lambda>_. 0) 0x80000000 = Some s" by (simp add: tlsf_create_def tlsf_constants)
  then have "pools_reachable (\<lambda>_. 0) 0x80000000 (s, {}, Map.empty)"
    unfolding pools_reachable_def by (blast intro: pools_run.none)
  from tlsf_add_pool_serves [OF _ this region_example(1), of 16000000] c show ?thesis by fastforce
qed

text \<open>
  C34. A pool in which nothing is allocated can be taken back: after \<open>tlsf_remove_pool\<close> the allocator goes on with the
  other pools, the contents of their allocations stay, and whatever calls, additions elsewhere and removals
  follow, no byte of the removed pool is written and no allocation is made in it.
\<close>

theorem tlsf_remove_pool_releases:
  assumes "unat base + 6536 \<le> 2 ^ 64" "pools_reachable m base (s, P, H)" "(lo, t) \<in> P" "pool_idle lo t (sizes H)"
  defines "a \<equiv> ptr (lo + 1)"
  assumes "pools_run base (tlsf_remove_pool s a, P - {(lo, t)}, H) evs (s', P', H')"
    and "list_all (spares (region a (8 * t + 16))) evs"
  shows "agrees (mem (tlsf_remove_pool s a)) H
    \<and> (\<forall>x. unat x \<in> region a (8 * t + 16) \<longrightarrow> mem s' x = mem (tlsf_remove_pool s a) x)
    \<and> (\<forall>p bs. H' p = Some bs \<longrightarrow> region p (length bs) \<inter> region a (8 * t + 16) = {})"
proof -
  have ok: "config_ok base (s, P, H)" by (rule pools_reachable_ok [OF assms(1,2)])
  then have st: "tlsf_state base P s (sizes H)" by simp
  have "pools_step base (s, P, H) (RemovePool a) (tlsf_remove_pool s a, P - {(lo, t)}, H)"
    unfolding a_def by (rule pools_step.remove_pool [OF assms(3,4)])
  then have ok1: "config_ok base (tlsf_remove_pool s a, P - {(lo, t)}, H)" using ok by (rule pools_step_ok)
  have ok2: "config_ok base (s', P', H')" by (rule pools_run_ok [OF assms(6) ok1])
  have apart: "mem s' x = mem (tlsf_remove_pool s a) x \<and> outside base P' x" if x: "unat x \<in> region a (8 * t + 16)" for x
    using run_spares [OF assms(6) ok1 assms(7) x] pool_region_outside [OF st assms(3)] x by (simp add: a_def)
  have "region p (length bs) \<inter> region a (8 * t + 16) = {}" if p: "H' p = Some bs" for p bs
  proof (rule ccontr)
    have live: "tlsf_state base P' s' (sizes H')" "sizes H' p = Some (length bs)" using ok2 p by simp_all
    assume "region p (length bs) \<inter> region a (8 * t + 16) \<noteq> {}"
    then obtain i where i: "i \<in> region p (length bs)" "i \<in> region a (8 * t + 16)" by blast
    have "i < 2 ^ 64" using i(1) tlsf_live(3) [OF live] by (simp add: region_def)
    then have "unat (of_nat i :: u64) = i" by (simp add: unat_of_nat take_bit_nat_eq_self)
    then show False using live_not_outside [OF live, of "of_nat i"] apart [of "of_nat i"] i by simp
  qed
  then show ?thesis using ok1 apart by simp
qed

theorem tlsf_remove_pool_releases_witness:
  "\<exists>s s'. pools_reachable (\<lambda>_. 0) 0x80000000 (s, {region_pool 0x70000000 0x100000, region_pool 0x90000000 0x1000000}, Map.empty)
    \<and> tlsf_malloc (tlsf_remove_pool s 0x70000000) 16000000 = (s', snd (tlsf_malloc (tlsf_remove_pool s 0x70000000) 16000000))
    \<and> mem s' 0x70000100 = mem (tlsf_remove_pool s 0x70000000) 0x70000100"
proof -
  let ?P = "{region_pool 0x70000000 0x100000, region_pool 0x90000000 0x1000000}"
  let ?lo = "0x70000000 div 8 - 1 :: nat" and ?t = "(0x100000 - 16) div 8 :: nat"
  obtain s where s: "pools_reachable (\<lambda>_. 0) 0x80000000 (s, ?P, Map.empty)" by (rule two_pools_example)
  have pool: "(?lo, ?t) \<in> ?P" and a: "ptr (?lo + 1) = 0x70000000" by (simp_all add: region_pool_def ptr_def)
  let ?s = "tlsf_remove_pool s (ptr (?lo + 1))"
  obtain s' r where m: "tlsf_malloc ?s 16000000 = (s', r)" by fastforce
  have "pools_run 0x80000000 (?s, ?P - {(?lo, ?t)}, Map.empty) ([] @ [Call (Basic (Malloc 16000000)) r])
      (s', ?P - {(?lo, ?t)}, client_observe (mem s') (tlsf_capacity s' r) (Basic (Malloc 16000000)) r Map.empty)"
    by (rule pools_run.more [OF pools_run.none pools_step.call]) (simp, simp only: client_call.simps heap_call.simps m)
  from tlsf_remove_pool_releases [OF _ s pool _ this]
  have "mem s' 0x70000100 = mem ?s 0x70000100" unfolding a by (simp add: region_def)
  then show ?thesis using s m unfolding a by auto
qed

end
