(* ===== verification/TlsfAsserts.thy ===== *)
theory TlsfAsserts imports TlsfManyPools begin

text \<open>
  The assertions of \<open>tlsf.c\<close>. They are compiled out here, but they state what the author relies on. For each
  function that has assertions, or calls one that has, the predicate \<open>..._asserts\<close> is their conjunction, each taken
  in the state in which it is evaluated. No run over any number of pools ever makes one of them fail.
\<close>

unbundle bit_operations_syntax

section \<open>The assertions\<close>

text \<open>\<open>align_up\<close>, \<open>align_down\<close> and \<open>align_ptr\<close>: the alignment is a power of two.\<close>

definition align_asserts :: "u64 \<Rightarrow> bool" where
  "align_asserts align \<longleftrightarrow> 0 = align AND (align - 1)"

definition adjust_request_size_asserts :: "u64 \<Rightarrow> u64 \<Rightarrow> bool" where
  "adjust_request_size_asserts sz align \<longleftrightarrow> (sz \<noteq> 0 \<longrightarrow> align_asserts align)"

definition block_prev_asserts :: "memory \<Rightarrow> u64 \<Rightarrow> bool" where
  "block_prev_asserts m block \<longleftrightarrow> block_is_prev_free m block"

text \<open>Also for \<open>block_link_next\<close>, \<open>block_mark_as_free\<close> and \<open>block_mark_as_used\<close>, which begin with it.\<close>

definition block_next_asserts :: "memory \<Rightarrow> u64 \<Rightarrow> bool" where
  "block_next_asserts m block \<longleftrightarrow> \<not> block_is_last m block"

definition search_suitable_block_asserts :: "control_t \<Rightarrow> nat \<Rightarrow> nat \<Rightarrow> bool" where
  "search_suitable_block_asserts control fl sl \<longleftrightarrow>
     (let sl_map = sl_bitmap control ! fl AND push_bit sl (NOT 0)
      in if sl_map = 0 then
           let fl_map = fl_bitmap control AND push_bit (fl + 1) (NOT 0)
           in fl_map \<noteq> 0 \<longrightarrow> (let fl = nat (tlsf_ffs fl_map); sl_map = sl_bitmap control ! fl in sl_map \<noteq> 0)
         else sl_map \<noteq> 0)"

definition remove_free_block_asserts :: "control_t \<Rightarrow> u64 \<Rightarrow> bool" where
  "remove_free_block_asserts control block \<longleftrightarrow>
     load64 (mem control) (prev_free_addr block) \<noteq> 0 \<and> load64 (mem control) (next_free_addr block) \<noteq> 0"

definition insert_free_block_asserts :: "control_t \<Rightarrow> u64 \<Rightarrow> nat \<Rightarrow> nat \<Rightarrow> bool" where
  "insert_free_block_asserts control block fl sl \<longleftrightarrow>
     blocks control ! fl ! sl \<noteq> 0 \<and> block \<noteq> 0
     \<and> align_asserts ALIGN_SIZE \<and> block_to_ptr block = align_ptr (block_to_ptr block) ALIGN_SIZE"

definition block_insert_asserts :: "control_t \<Rightarrow> u64 \<Rightarrow> bool" where
  "block_insert_asserts control block \<longleftrightarrow>
     (let (fl, sl) = mapping_insert (block_size (mem control) block) in insert_free_block_asserts control block fl sl)"

definition block_split_asserts :: "memory \<Rightarrow> u64 \<Rightarrow> u64 \<Rightarrow> bool" where
  "block_split_asserts m block sz \<longleftrightarrow>
     (let remaining = offset_to_block (block_to_ptr block) (sz - block_header_overhead);
          remain_size = block_size m block - (sz + block_header_overhead)
      in align_asserts ALIGN_SIZE \<and> block_to_ptr remaining = align_ptr (block_to_ptr remaining) ALIGN_SIZE
         \<and> block_size m block = remain_size + sz + block_header_overhead
         \<and> (let m = block_set_size m remaining remain_size
            in block_size m remaining \<ge> block_size_min
               \<and> block_next_asserts (block_set_size m block sz) remaining))"

definition block_absorb_asserts :: "memory \<Rightarrow> u64 \<Rightarrow> u64 \<Rightarrow> bool" where
  "block_absorb_asserts m prev block \<longleftrightarrow> \<not> block_is_last m prev
     \<and> block_next_asserts (store64 m (size_addr prev) (load64 m (size_addr prev) + (block_size m block + block_header_overhead))) prev"

definition block_merge_prev_asserts :: "control_t \<Rightarrow> u64 \<Rightarrow> bool" where
  "block_merge_prev_asserts control block \<longleftrightarrow>
     (block_is_prev_free (mem control) block \<longrightarrow>
        block_prev_asserts (mem control) block
        \<and> (let prev = block_prev (mem control) block
           in prev \<noteq> 0 \<and> block_is_free (mem control) prev \<and> remove_free_block_asserts control prev
              \<and> block_absorb_asserts (mem (block_remove control prev)) prev block))"

definition block_merge_next_asserts :: "control_t \<Rightarrow> u64 \<Rightarrow> bool" where
  "block_merge_next_asserts control block \<longleftrightarrow>
     block_next_asserts (mem control) block
     \<and> (let nxt = block_next (mem control) block
        in nxt \<noteq> 0 \<and> (block_is_free (mem control) nxt \<longrightarrow>
             \<not> block_is_last (mem control) block \<and> remove_free_block_asserts control nxt
             \<and> block_absorb_asserts (mem (block_remove control nxt)) block nxt))"

definition block_trim_free_asserts :: "control_t \<Rightarrow> u64 \<Rightarrow> u64 \<Rightarrow> bool" where
  "block_trim_free_asserts control block sz \<longleftrightarrow>
     block_is_free (mem control) block
     \<and> (block_can_split (mem control) block sz \<longrightarrow>
          block_split_asserts (mem control) block sz
          \<and> (let (m, remaining_block) = block_split (mem control) block sz
             in block_next_asserts m block
                \<and> (let m = block_set_prev_free (fst (block_link_next m block)) remaining_block
                   in block_insert_asserts (control\<lparr>mem := m\<rparr>) remaining_block)))"

definition block_trim_used_asserts :: "control_t \<Rightarrow> u64 \<Rightarrow> u64 \<Rightarrow> bool" where
  "block_trim_used_asserts control block sz \<longleftrightarrow>
     \<not> block_is_free (mem control) block
     \<and> (block_can_split (mem control) block sz \<longrightarrow>
          block_split_asserts (mem control) block sz
          \<and> (let (m, remaining_block) = block_split (mem control) block sz;
                 control = control\<lparr>mem := block_set_prev_used m remaining_block\<rparr>
             in block_merge_next_asserts control remaining_block
                \<and> (let (control, remaining_block) = block_merge_next control remaining_block
                   in block_insert_asserts control remaining_block)))"

definition block_trim_free_leading_asserts :: "control_t \<Rightarrow> u64 \<Rightarrow> u64 \<Rightarrow> bool" where
  "block_trim_free_leading_asserts control block sz \<longleftrightarrow>
     (block_can_split (mem control) block sz \<longrightarrow>
        block_split_asserts (mem control) block (sz - block_header_overhead)
        \<and> (let (m, remaining_block) = block_split (mem control) block (sz - block_header_overhead);
               m = block_set_prev_free m remaining_block
           in block_next_asserts m block
              \<and> block_insert_asserts (control\<lparr>mem := fst (block_link_next m block)\<rparr>) block))"

definition block_locate_free_asserts :: "control_t \<Rightarrow> u64 \<Rightarrow> bool" where
  "block_locate_free_asserts control sz \<longleftrightarrow>
     (sz \<noteq> 0 \<longrightarrow>
        (let (fl, sl) = mapping_search sz
         in fl < FL_INDEX_COUNT \<longrightarrow>
              search_suitable_block_asserts control fl sl
              \<and> (let (block, fl, sl) = search_suitable_block control fl sl
                 in block \<noteq> 0 \<longrightarrow> block_size (mem control) block \<ge> sz \<and> remove_free_block_asserts control block)))"

definition block_prepare_used_asserts :: "control_t \<Rightarrow> u64 \<Rightarrow> u64 \<Rightarrow> bool" where
  "block_prepare_used_asserts control block sz \<longleftrightarrow>
     (block \<noteq> 0 \<longrightarrow> sz \<noteq> 0 \<and> block_trim_free_asserts control block sz
        \<and> block_next_asserts (mem (block_trim_free control block sz)) block)"

definition tlsf_malloc_asserts :: "control_t \<Rightarrow> u64 \<Rightarrow> bool" where
  "tlsf_malloc_asserts control sz \<longleftrightarrow>
     adjust_request_size_asserts sz ALIGN_SIZE
     \<and> (let adjust = adjust_request_size sz ALIGN_SIZE
        in block_locate_free_asserts control adjust
           \<and> (let (control, block) = block_locate_free control adjust in block_prepare_used_asserts control block adjust))"

text \<open>The part of \<open>tlsf_memalign\<close> after the search, for the block that was found.\<close>

definition memalign_block_asserts :: "control_t \<Rightarrow> u64 \<Rightarrow> u64 \<Rightarrow> u64 \<Rightarrow> bool" where
  "memalign_block_asserts control block align adjust \<longleftrightarrow>
     (let gap = memalign_gap (block_to_ptr block) align
      in (gap \<noteq> 0 \<longrightarrow> gap \<ge> sizeof_block_header \<and> block_trim_free_leading_asserts control block gap)
         \<and> (case (if gap \<noteq> 0 then block_trim_free_leading control block gap else (control, block)) of
              (control, block) \<Rightarrow> block_prepare_used_asserts control block adjust))"

definition tlsf_memalign_asserts :: "control_t \<Rightarrow> u64 \<Rightarrow> u64 \<Rightarrow> bool" where
  "tlsf_memalign_asserts control align sz \<longleftrightarrow>
     adjust_request_size_asserts sz ALIGN_SIZE
     \<and> (let adjust = adjust_request_size sz ALIGN_SIZE;
            gap_minimum = sizeof_block_header;
            size_with_gap = adjust_request_size (adjust + align + gap_minimum) align;
            aligned_size = (if adjust \<noteq> 0 \<and> align > ALIGN_SIZE then size_with_gap else adjust)
        in adjust_request_size_asserts (adjust + align + gap_minimum) align
           \<and> block_locate_free_asserts control aligned_size
           \<and> sizeof_block_header = block_size_min + block_header_overhead
           \<and> (let (control, block) = block_locate_free control aligned_size
              in block \<noteq> 0 \<longrightarrow> align_asserts align \<and> memalign_block_asserts control block align adjust))"

definition tlsf_free_asserts :: "control_t \<Rightarrow> u64 \<Rightarrow> bool" where
  "tlsf_free_asserts control p \<longleftrightarrow>
     (p \<noteq> 0 \<longrightarrow>
        (let block = block_from_ptr p
         in \<not> block_is_free (mem control) block
            \<and> block_next_asserts (mem control) block
            \<and> (let control = control\<lparr>mem := block_mark_as_free (mem control) block\<rparr>
               in block_merge_prev_asserts control block
                  \<and> (let (control, block) = block_merge_prev control block
                     in block_merge_next_asserts control block
                        \<and> (let (control, block) = block_merge_next control block in block_insert_asserts control block)))))"

definition tlsf_realloc_asserts :: "control_t \<Rightarrow> u64 \<Rightarrow> u64 \<Rightarrow> bool" where
  "tlsf_realloc_asserts control p sz \<longleftrightarrow>
     (if p \<noteq> 0 \<and> sz = 0 then tlsf_free_asserts control p
      else if p = 0 then tlsf_malloc_asserts control sz
      else
        let block = block_from_ptr p;
            nxt = block_next (mem control) block;
            cursize = block_size (mem control) block;
            combined = cursize + block_size (mem control) nxt + block_header_overhead;
            adjust = adjust_request_size sz ALIGN_SIZE
        in block_next_asserts (mem control) block \<and> adjust_request_size_asserts sz ALIGN_SIZE
           \<and> \<not> block_is_free (mem control) block
           \<and> (if adjust > cursize \<and> (\<not> block_is_free (mem control) nxt \<or> adjust > combined) then
                tlsf_malloc_asserts control sz
                \<and> (let (control, q) = tlsf_malloc control sz
                   in q \<noteq> 0 \<longrightarrow>
                        (let minsize = min cursize sz;
                             control = control\<lparr>mem := mem_write (mem control) q (mem_bytes (mem control) p (unat minsize))\<rparr>
                         in tlsf_free_asserts control p))
              else
                (adjust > cursize \<longrightarrow>
                   block_merge_next_asserts control block
                   \<and> block_next_asserts (mem (fst (block_merge_next control block))) block)
                \<and> (let control =
                         (if adjust > cursize then
                            let control = fst (block_merge_next control block)
                            in control\<lparr>mem := block_mark_as_used (mem control) block\<rparr>
                          else control)
                   in block_trim_used_asserts control block adjust)))"

definition tlsf_add_pool_asserts :: "control_t \<Rightarrow> u64 \<Rightarrow> u64 \<Rightarrow> bool" where
  "tlsf_add_pool_asserts control a bytes \<longleftrightarrow>
     align_asserts ALIGN_SIZE
     \<and> (let pool_bytes = align_down (bytes - tlsf_pool_overhead) ALIGN_SIZE
        in a mod ALIGN_SIZE = 0 \<and> \<not> (pool_bytes < block_size_min \<or> pool_bytes > block_size_max) \<longrightarrow>
             (let block = offset_to_block a (- block_header_overhead);
                  m = block_set_prev_used (block_set_free (block_set_size (mem control) block pool_bytes) block) block;
                  control = control\<lparr>mem := m\<rparr>
              in block_insert_asserts control block
                 \<and> block_next_asserts (mem (block_insert control block)) block))"

definition tlsf_remove_pool_asserts :: "control_t \<Rightarrow> u64 \<Rightarrow> bool" where
  "tlsf_remove_pool_asserts control pool \<longleftrightarrow>
     (let block = offset_to_block pool (- block_header_overhead);
          nxt = block_next (mem control) block
      in block_is_free (mem control) block
         \<and> block_next_asserts (mem control) block \<and> \<not> block_is_free (mem control) nxt
         \<and> block_size (mem control) nxt = 0
         \<and> remove_free_block_asserts control block)"

text \<open>The assertions of a client's call.\<close>

fun call_asserts :: "control_t \<Rightarrow> client_op \<Rightarrow> bool" where
  "call_asserts s (Basic (Malloc sz)) \<longleftrightarrow> tlsf_malloc_asserts s sz"
| "call_asserts s (Basic (Free p)) \<longleftrightarrow> tlsf_free_asserts s p"
| "call_asserts s (Basic (Poke p i v)) \<longleftrightarrow> True"
| "call_asserts s (Realloc p sz) \<longleftrightarrow> tlsf_realloc_asserts s p sz"
| "call_asserts s (Memalign align sz) \<longleftrightarrow> tlsf_memalign_asserts s align sz"

text \<open>The assertions of an event of a run.\<close>

fun event_asserts :: "control_t \<Rightarrow> pool_event \<Rightarrow> bool" where
  "event_asserts s (Call op r) \<longleftrightarrow> call_asserts s op"
| "event_asserts s (AddPool a bytes r) \<longleftrightarrow> tlsf_add_pool_asserts s a bytes"
| "event_asserts s (RemovePool pool) \<longleftrightarrow> tlsf_remove_pool_asserts s pool"
| "event_asserts s (Write a v) \<longleftrightarrow> True"

section \<open>Blocks\<close>

text \<open>The alignment of every address of a block.\<close>

lemma align_size_asserts: "align_asserts ALIGN_SIZE"
  by (simp add: align_asserts_def tlsf_constants)

lemma pow2_asserts: "a < 64 \<Longrightarrow> align_asserts (2 ^ a)"
  unfolding align_asserts_def
  by (rule bit_word_eqI) (auto simp: bit_simps mask_eq_exp_minus_1 [symmetric] simp flip: mask_eq_exp_minus_1)

lemma aligned_cell:
  assumes "k < cell_limit"
  shows "align_ptr (ptr k) ALIGN_SIZE = ptr k"
proof -
  have u: "unat (ptr k) = 8 * k" by (rule unat_ptr [OF assms])
  have r: "round_up (unat (ptr k)) (2 ^ 3) = unat (ptr k)" by (rule round_up_dvd) (simp_all add: u)
  have "unat (align_ptr (ptr k) (2 ^ 3)) = unat (ptr k)"
    using align_ptr_round_up [of 3 "ptr k"] unsigned_less [of "ptr k", where 'a = nat] unfolding r by simp
  then show ?thesis by (simp add: tlsf_constants word_unat_eq_iff)
qed

lemma next_asserts_header:
  "header (cells m) x n f p \<Longrightarrow> 0 < n \<Longrightarrow> n < cell_limit \<Longrightarrow> block_next_asserts m (ptr x)"
  by (simp add: block_next_asserts_def block_is_last_cell)

lemma next_asserts_block:
  assumes "heap_ok N P s B F" "B x = Some (n, f)" "0 < n"
  shows "block_next_asserts (mem s) (ptr x)"
proof -
  note okD = heap_okD [OF assms(1)]
  have "n < cell_limit" using block_facts(4) [OF okD(2) assms(2,3)] by simp
  then show ?thesis by (rule next_asserts_header [OF headers_header [OF okD(3,2) assms(2)] assms(3)])
qed

lemma absorb_asserts:
  assumes h: "header (cells m) x n f p" "header (cells m) y n' f' p'" and n: "0 < n" "n + n' + 1 < cell_limit"
  shows "block_absorb_asserts m (ptr x) (ptr y)"
proof -
  have sz: "load64 m (size_addr (ptr x)) + (block_size m (ptr y) + block_header_overhead) = size_word (n + n' + 1) f p"
    using size_word_add [of n f p "n' + 1"]
    by (simp add: load_size [OF h(1)] block_size_cell [OF h(2)] block_constants ptr_add(1) add.assoc)
  have "header (cells (store64 m (size_addr (ptr x)) (size_word (n + n' + 1) f p))) x (n + n' + 1) f p"
    using h(1) by (simp add: header_def block_addrs cells_store)
  then have "block_next_asserts (store64 m (size_addr (ptr x)) (size_word (n + n' + 1) f p)) (ptr x)"
    by (rule next_asserts_header) (use n in simp_all)
  moreover have "\<not> block_is_last m (ptr x)" using block_is_last_cell [OF h(1)] n by simp
  ultimately show ?thesis by (simp add: block_absorb_asserts_def sz)
qed

text \<open>The two parts of a split block, and its assertions.\<close>

lemma split_parts:
  assumes h: "header (cells m) x n f p" and k: "3 \<le> k" "k + 4 \<le> n" and nxt: "header (cells m) (x + n + 1) n' f' p'"
  obtains m1 g where "block_split m (ptr x) (ptr k) = (m1, ptr (x + k + 1))" "header (cells m1) x k f p"
    "header (cells m1) (x + k + 1) (n - k - 1) True g" "block_split_asserts m (ptr x) (ptr k)"
proof -
  define y where "y = x + k + 1"
  have k1: "1 \<le> k" using k by simp
  have lim: "x + n + 2 < cell_limit" using nxt by (simp add: header_def)
  note sp = block_split_cell [OF h k(2) nxt, folded y_def]
  define m1 where "m1 = fst (block_split m (ptr x) (ptr k))"
  obtain g where c1: "cells m1 = (cells m)(x + 1 := size_word k f p, y + 1 := size_word (n - k - 1) True g,
      x + n + 1 := ptr y, x + n + 2 := size_word n' f' True)"
    using sp(2) by (auto simp: m1_def)
  have y: "y + 1 < cell_limit" "y + 2 < cell_limit" "y + 1 \<noteq> x + 1" "x + 1 < cell_limit" "n - k - 1 < cell_limit"
    using lim k by (simp_all add: y_def)
  have rem: "offset_to_block (block_to_ptr (ptr x)) (ptr k - block_header_overhead) = ptr y"
    using k1 plus_less_8 [of k x] by (simp add: offset_to_block_def block_constants y_def)
  have sz: "block_size m (ptr x) - (ptr k + block_header_overhead) = ptr (n - k - 1)"
    using k ptr_diff [of "k + 1" n] by (simp add: block_size_cell [OF h] block_constants ptr_add(1))
  have "ptr (n - k - 1) + ptr k + 8 = ptr (n - k - 1 + k + 1)" by (simp only: ptr_add)
  also have "n - k - 1 + k + 1 = n" using k by simp
  finally have sum: "block_size m (ptr x) = ptr (n - k - 1) + ptr k + block_header_overhead"
    by (simp add: block_size_cell [OF h] block_constants)
  define m2 where "m2 = block_set_size m (ptr y) (ptr (n - k - 1))"
  obtain g0 g1 where c2: "cells m2 = (cells m)(y + 1 := size_word (n - k - 1) g0 g1)"
    using block_set_size_any [OF y(1), of m "n - k - 1"] by (simp add: m2_def)
  have h2: "header (cells m2) y (n - k - 1) g0 g1" "header (cells m2) x n f p"
    using y h by (simp_all add: c2 header_def)
  have "block_size_min \<le> ptr (n - k - 1)"
    using k y(5) by (simp add: word_le_nat_alt unat_ptr tlsf_constants)
  moreover have "header (cells (block_set_size m2 (ptr x) (ptr k))) y (n - k - 1) g0 g1"
    unfolding block_set_cell(5) [OF h2(2)] using h2(1) y(3) by (simp add: header_def)
  then have "block_next_asserts (block_set_size m2 (ptr x) (ptr k)) (ptr y)"
    by (rule next_asserts_header) (use k y(5) in simp_all)
  ultimately have "block_split_asserts m (ptr x) (ptr k)"
    unfolding block_split_asserts_def Let_def rem sz m2_def [symmetric] block_size_cell [OF h2(1)]
    using sum align_size_asserts aligned_cell [OF y(2)] by simp
  moreover have "header (cells m1) x k f p" "header (cells m1) y (n - k - 1) True g"
    using y lim k by (simp_all add: header_def c1 y_def)
  moreover have "block_split m (ptr x) (ptr k) = (m1, ptr y)" using sp(1) by (simp add: m1_def prod_eq_iff)
  ultimately show thesis using that unfolding y_def by blast
qed

section \<open>Lists\<close>

text \<open>The links of a listed block lead to listed blocks or to the null block, never to address 0.\<close>

lemma link_nonzero:
  assumes "lists_ok N s F" "0 < N" "y \<in> insert N (dom F)"
  shows "ptr y \<noteq> 0" "y + 3 < cell_limit"
proof -
  have fr: "free_ok N F" using assms(1) by (simp add: lists_ok_def)
  have "0 < y" "y + 3 < cell_limit" using assms(2,3) free_okD(1,4,6) [OF fr] by auto
  then show "ptr y \<noteq> 0" "y + 3 < cell_limit" by (simp_all add: ptr_nonzero)
qed

lemma remove_asserts:
  assumes ok: "lists_ok N s F" and N: "0 < N" and x: "F x = Some n"
  shows "remove_free_block_asserts s (ptr x)"
proof -
  have heads: "heads_ok N s F" and fr: "free_ok N F" using ok by (simp_all add: lists_ok_def)
  obtain fl sl where k: "size_class n = (fl, sl)" by fastforce
  have b: "fl < 25" "sl < 32" using size_class_bounds [of n] k free_okD(5) [OF fr x] by simp_all
  obtain xs where xs: "linked N (cells (mem s)) F (fl, sl) xs" by (rule heads_okE [OF heads b])
  have "x \<in> set xs" using xs x k by (auto simp: linked_def)
  then obtain as bs where split: "xs = as @ x # bs" by (meson split_list)
  have set_xs: "set xs \<subseteq> dom F" using xs by (auto simp: linked_def)
  have "last_cell N as \<in> insert N (dom F)" "hd_cell bs N \<in> insert N (dom F)"
    using last_cell_cases [of N as] hd_cell_cases [of bs N] set_xs by (auto simp: split)
  moreover have "cells (mem s) (x + 3) = ptr (last_cell N as)" "cells (mem s) (x + 2) = ptr (hd_cell bs N)"
    using xs by (simp_all add: linked_def split chain_append)
  moreover have "x + 3 < cell_limit" using link_nonzero(2) [OF ok N, of x] x by auto
  ultimately show ?thesis
    using link_nonzero(1) [OF ok N] by (simp add: remove_free_block_asserts_def block_addrs load_cell)
qed

lemma insert_asserts:
  assumes ok: "lists_ok N s F" and N: "0 < N" and h: "header (cells m) x n f p" and x: "0 < x" "x + 2 < cell_limit" "8 * n < 2 ^ 32"
  shows "block_insert_asserts (s\<lparr>mem := m\<rparr>) (ptr x)"
proof -
  have heads: "heads_ok N s F" using ok by (simp add: lists_ok_def)
  obtain fl sl where k: "size_class n = (fl, sl)" by fastforce
  have b: "fl < 25" "sl < 32" using size_class_bounds [OF x(3)] k by simp_all
  obtain xs where xs: "linked N (cells (mem s)) F (fl, sl) xs" "blocks s ! fl ! sl = ptr (hd_cell xs N)"
    by (rule heads_okE [OF heads b])
  have "hd_cell xs N \<in> insert N (dom F)" using hd_cell_cases [of xs N] xs(1) by (auto simp: linked_def)
  then have "blocks s ! fl ! sl \<noteq> 0" using link_nonzero(1) [OF ok N] xs(2) by simp
  moreover have "ptr x \<noteq> 0" using x by (intro ptr_nonzero) simp_all
  ultimately show ?thesis
    using align_size_asserts aligned_cell [OF x(2)]
    by (simp add: block_insert_asserts_def insert_free_block_asserts_def block_class [OF h] k)
qed

text \<open>The block that a step has just made, not yet listed.\<close>

lemma pending_insert_asserts:
  assumes p: "pending N P s B b n" and N: "0 < N"
  shows "block_insert_asserts s (ptr b)"
proof -
  have ok: "heap_ok N P s B ((free_map B)(b := None))" and b: "B b = Some (n, True)" using p by (simp_all add: pending_def)
  note okD = heap_okD [OF ok]
  note bf = block_facts [OF okD(2) b free_not_sentinel [OF okD(2) b]]
  have "block_insert_asserts (s\<lparr>mem := mem s\<rparr>) (ptr b)"
    by (rule insert_asserts [OF okD(4) N headers_header [OF okD(3,2) b]]) (use bf in simp_all)
  then show ?thesis by simp
qed

lemma search_asserts:
  assumes "lists_ok N s F" "fl < 25"
  shows "search_suitable_block_asserts s fl sl"
proof -
  have tab: "tables_ok s" using assms(1) by (simp add: lists_ok_def)
  have "sl_bitmap s ! nat (tlsf_ffs w) \<noteq> 0" if w: "w = fl_bitmap s AND push_bit (fl + 1) (NOT 0)" "w \<noteq> 0" for w
  proof -
    have "bit w (nat (tlsf_ffs w))" by (rule lowest_bit(2) [OF w(2)])
    then have "bit (fl_bitmap s) (nat (tlsf_ffs w))" unfolding w(1) bit_from_u32 by blast
    then show ?thesis using tab by (simp add: tables_ok_def)
  qed
  then show ?thesis unfolding search_suitable_block_asserts_def Let_def by simp
qed

section \<open>Operations\<close>

lemma merge_prev_asserts:
  assumes p: "pending N P s B b n" and N: "0 < N"
  shows "block_merge_prev_asserts s (ptr b)"
proof -
  have ok: "heap_ok N P s B ((free_map B)(b := None))" and b: "B b = Some (n, True)" using p by (simp_all add: pending_def)
  note okD = heap_okD [OF ok]
  have is_prev: "block_is_prev_free (mem s) (ptr b) \<longleftrightarrow> prev_free B b"
    by (rule block_status_cell [OF headers_header [OF okD(3,2) b]])
  show ?thesis
  proof (cases "prev_free B b")
    case False
    then show ?thesis by (simp add: block_merge_prev_asserts_def is_prev)
  next
    case True
    then obtain q k where q: "B q = Some (k, True)" "q + k + 1 = b" by (auto simp: prev_free_def)
    note bq = block_facts [OF okD(2) q(1) free_not_sentinel [OF okD(2) q(1)]]
    note bb = block_facts [OF okD(2) b free_not_sentinel [OF okD(2) b]]
    have F: "((free_map B)(b := None)) q = Some k" using q by simp
    have prev: "block_prev (mem s) (ptr b) = ptr q"
      using block_prev_cell [of b] sentinel_bounds(2) [OF okD(2) b] headers_okD(2) [OF okD(3) q(1)] q(2) by simp
    note remD = heap_okD [OF block_remove_ok(1) [OF ok F]]
    have "block_absorb_asserts (mem (block_remove s (ptr q))) (ptr q) (ptr b)"
      by (rule absorb_asserts [OF headers_header [OF remD(3,2) q(1)] headers_header [OF remD(3,2) b]])
        (use bq(2) bb(4) q(2) in simp_all)
    moreover have "ptr q \<noteq> 0" using bq(4,6) by (intro ptr_nonzero) simp_all
    moreover have "block_is_free (mem s) (ptr q)" by (simp add: block_status_cell [OF headers_header [OF okD(3,2) q(1)]])
    ultimately show ?thesis
      using remove_asserts [OF okD(4) N F] True
      by (simp add: block_merge_prev_asserts_def block_prev_asserts_def is_prev prev Let_def)
  qed
qed

lemma merge_next_asserts:
  assumes ok: "heap_ok N P s B F" and N: "0 < N" and b: "B b = Some (n, f)" "0 < n"
    and F: "\<And>n'. B (b + n + 1) = Some (n', True) \<Longrightarrow> F (b + n + 1) = Some n'"
  shows "block_merge_next_asserts s (ptr b)"
proof -
  note okD = heap_okD [OF ok]
  note bf = block_facts [OF okD(2) b]
  obtain n' f' where y: "B (b + n + 1) = Some (n', f')" using bf(7) by blast
  have nxt: "block_next (mem s) (ptr b) = ptr (b + n + 1)"
    using block_next_cell [OF headers_header [OF okD(3,2) b(1)]] bf(2) by simp
  have is_free: "block_is_free (mem s) (ptr (b + n + 1)) \<longleftrightarrow> f'"
    by (rule block_status_cell(1) [OF headers_header [OF okD(3,2) y]])
  have next_ok: "block_next_asserts (mem s) (ptr b)" by (rule next_asserts_block [OF ok b])
  have "ptr (b + n + 1) \<noteq> 0" using bf(4) by (intro ptr_nonzero) simp_all
  moreover have "remove_free_block_asserts s (ptr (b + n + 1))
      \<and> block_absorb_asserts (mem (block_remove s (ptr (b + n + 1)))) (ptr b) (ptr (b + n + 1))" if f'
  proof -
    have y': "B (b + n + 1) = Some (n', True)" using y that by simp
    note F' = F [OF y']
    note by' = block_facts [OF okD(2) y' free_not_sentinel [OF okD(2) y']]
    note remD = heap_okD [OF block_remove_ok(1) [OF ok F']]
    have "block_absorb_asserts (mem (block_remove s (ptr (b + n + 1)))) (ptr b) (ptr (b + n + 1))"
      by (rule absorb_asserts [OF headers_header [OF remD(3,2) b(1)] headers_header [OF remD(3,2) y'] b(2)])
        (use by'(4) in simp)
    then show ?thesis using remove_asserts [OF okD(4) N F'] by blast
  qed
  ultimately show ?thesis
    using next_ok by (simp add: block_merge_next_asserts_def nxt is_free Let_def block_next_asserts_def)
qed

lemma pending_merge_next_asserts: "pending N P s B b n \<Longrightarrow> 0 < N \<Longrightarrow> block_merge_next_asserts s (ptr b)"
proof -
  assume p: "pending N P s B b n" and N: "0 < N"
  have ok: "heap_ok N P s B ((free_map B)(b := None))" and b: "B b = Some (n, True)" using p by (simp_all add: pending_def)
  show ?thesis
    by (rule merge_next_asserts [OF ok N b free_not_sentinel [OF heap_okD(2) [OF ok] b]]) simp
qed

lemma trim_free_asserts:
  assumes p: "pending N P s B x n" and N: "0 < N" and k: "3 \<le> k" "k \<le> n"
  shows "block_trim_free_asserts s (ptr x) (ptr k)"
proof -
  have ok: "heap_ok N P s B ((free_map B)(x := None))" and x: "B x = Some (n, True)" using p by (simp_all add: pending_def)
  note okD = heap_okD [OF ok]
  note bf = block_facts [OF okD(2) x free_not_sentinel [OF okD(2) x]]
  obtain n' f' where nxt: "B (x + n + 1) = Some (n', f')" using bf(7) by blast
  note h = headers_header [OF okD(3,2) x] and hn = headers_header [OF okD(3,2) nxt]
  have lim: "n < cell_limit" "k + 4 < cell_limit" using bf(5) k(2) by (simp_all add: cell_limit_def)
  have can: "block_can_split (mem s) (ptr x) (ptr k) \<longleftrightarrow> k + 4 \<le> n" by (rule block_can_split_cell [OF h lim])
  have "block_is_free (mem s) (ptr x)" by (simp add: block_status_cell [OF h])
  moreover have "block_split_asserts (mem s) (ptr x) (ptr k)
      \<and> (let (m, r) = block_split (mem s) (ptr x) (ptr k)
         in block_next_asserts m (ptr x)
            \<and> (let m = block_set_prev_free (fst (block_link_next m (ptr x))) r in block_insert_asserts (s\<lparr>mem := m\<rparr>) r))"
    if split: "k + 4 \<le> n"
  proof -
    define y where "y = x + k + 1"
    obtain m1 g where m1: "block_split (mem s) (ptr x) (ptr k) = (m1, ptr y)" "header (cells m1) x k True (prev_free B x)"
      "header (cells m1) y (n - k - 1) True g" "block_split_asserts (mem s) (ptr x) (ptr k)"
      unfolding y_def by (rule split_parts [OF h k(1) split hn])
    have y: "y + 2 < cell_limit" "0 < y" "x + k + 1 < cell_limit" "1 \<le> k" using bf(4) k split by (simp_all add: y_def)
    have "cells (fst (block_link_next m1 (ptr x))) = (cells m1)(y := ptr x)"
      using block_link_next_cell(1) [OF m1(2) y(4,3)] by (simp add: y_def)
    then have "header (cells (fst (block_link_next m1 (ptr x)))) y (n - k - 1) True g"
      using m1(3) by (simp add: header_def)
    note hy = block_set_cell(3) [OF this] this
    have "header (cells (block_set_prev_free (fst (block_link_next m1 (ptr x))) (ptr y))) y (n - k - 1) True True"
      using hy(2) by (simp add: hy(1) header_def)
    then have "block_insert_asserts (s\<lparr>mem := block_set_prev_free (fst (block_link_next m1 (ptr x))) (ptr y)\<rparr>) (ptr y)"
      by (rule insert_asserts [OF okD(4) N]) (use y bf(5) in simp_all)
    moreover have "block_next_asserts m1 (ptr x)" by (rule next_asserts_header [OF m1(2)]) (use k lim in simp_all)
    ultimately show ?thesis using m1(4) by (simp add: m1(1))
  qed
  ultimately show ?thesis unfolding block_trim_free_asserts_def can by blast
qed

lemma trim_free_leading_asserts:
  assumes p: "pending N P s B x n" and N: "0 < N" and g: "4 \<le> g" "g + 4 \<le> n"
  shows "block_trim_free_leading_asserts s (ptr x) (ptr g)"
proof -
  have ok: "heap_ok N P s B ((free_map B)(x := None))" and x: "B x = Some (n, True)" using p by (simp_all add: pending_def)
  note okD = heap_okD [OF ok]
  note bf = block_facts [OF okD(2) x free_not_sentinel [OF okD(2) x]]
  obtain n' f' where nxt: "B (x + n + 1) = Some (n', f')" using bf(7) by blast
  note h = headers_header [OF okD(3,2) x] and hn = headers_header [OF okD(3,2) nxt]
  define k where "k = g - 1"
  define y where "y = x + k + 1"
  have k: "3 \<le> k" "k + 4 \<le> n" "1 \<le> k" "k < cell_limit" using g bf(4) by (simp_all add: k_def)
  have kg: "ptr g - block_header_overhead = ptr k" using ptr_less_8 [of g] g(1) by (simp add: block_constants k_def)
  obtain m1 e where m1: "block_split (mem s) (ptr x) (ptr k) = (m1, ptr y)" "header (cells m1) x k True (prev_free B x)"
    "header (cells m1) y (n - k - 1) True e" "block_split_asserts (mem s) (ptr x) (ptr k)"
    unfolding y_def by (rule split_parts [OF h k(1,2) hn])
  define m2 where "m2 = block_set_prev_free m1 (ptr y)"
  have c2: "cells m2 = (cells m1)(y + 1 := size_word (n - k - 1) True True)"
    unfolding m2_def by (rule block_set_cell(3) [OF m1(3)])
  have h2: "header (cells m2) x k True (prev_free B x)" using m1(2) k by (simp add: c2 header_def y_def)
  have lim: "x + k + 1 < cell_limit" using bf(4) k by simp
  have "header (cells (fst (block_link_next m2 (ptr x)))) x k True (prev_free B x)"
    unfolding block_link_next_cell(1) [OF h2 k(3) lim] using h2 k(1) by (simp add: header_def)
  then have "block_insert_asserts (s\<lparr>mem := fst (block_link_next m2 (ptr x))\<rparr>) (ptr x)"
    by (rule insert_asserts [OF okD(4) N]) (use bf(4-6) k in simp_all)
  moreover have "block_next_asserts m2 (ptr x)" by (rule next_asserts_header [OF h2]) (use k in simp_all)
  ultimately show ?thesis
    using m1(4) by (simp add: block_trim_free_leading_asserts_def kg m1(1) Let_def flip: m2_def)
qed

lemma trim_used_asserts:
  assumes inv: "tlsf_inv N P s B" and N: "0 < N" and x: "B x = Some (n, False)" "0 < n" and k: "3 \<le> k" "k + 4 < cell_limit"
  shows "block_trim_used_asserts s (ptr x) (ptr k)"
proof -
  have ok: "heap_ok N P s B (free_map B)" using inv by (simp add: tlsf_inv_def)
  note okD = heap_okD [OF ok]
  note bf = block_facts [OF okD(2) x]
  obtain n' f' where nxt: "B (x + n + 1) = Some (n', f')" using bf(7) by blast
  note h = headers_header [OF okD(3,2) x(1)] and hn = headers_header [OF okD(3,2) nxt]
  have lim: "n < cell_limit" using bf(4) by simp
  have can: "block_can_split (mem s) (ptr x) (ptr k) \<longleftrightarrow> k + 4 \<le> n" by (rule block_can_split_cell [OF h lim k(2)])
  have "\<not> block_is_free (mem s) (ptr x)" by (simp add: block_status_cell [OF h])
  moreover have "block_split_asserts (mem s) (ptr x) (ptr k)
      \<and> (let (m, r) = block_split (mem s) (ptr x) (ptr k); s = s\<lparr>mem := block_set_prev_used m r\<rparr>
         in block_merge_next_asserts s r \<and> (let (s, r) = block_merge_next s r in block_insert_asserts s r))"
    if split: "k + 4 \<le> n"
  proof -
    define y where "y = x + k + 1"
    define S where "S = split_map B x n k False"
    obtain m1 where m1: "block_split (mem s) (ptr x) (ptr k) = (m1, ptr y)"
      "pending N P (s\<lparr>mem := block_set_prev_used m1 (ptr y)\<rparr>) S y (n - k - 1)" "coalesced_but {y + (n - k - 1) + 1} S"
      unfolding y_def S_def by (rule trim_used_pending [OF inv x k(1) split])
    obtain s3 B3 n3 where s3: "block_merge_next (s\<lparr>mem := block_set_prev_used m1 (ptr y)\<rparr>) (ptr y) = (s3, ptr y)"
      "pending N P s3 B3 y n3"
      by (rule block_merge_next_ok [OF m1(2,3)])
    obtain m1' g where "block_split_asserts (mem s) (ptr x) (ptr k)"
      by (rule split_parts [OF h k(1) split hn])
    then show ?thesis
      using pending_merge_next_asserts [OF m1(2) N] pending_insert_asserts [OF s3(2) N] by (simp add: m1(1) s3(1) Let_def)
  qed
  ultimately show ?thesis unfolding block_trim_used_asserts_def can by blast
qed

section \<open>The interface\<close>

lemma locate_free_asserts:
  assumes inv: "tlsf_inv N P s B" and N: "0 < N" and k: "8 * k < 2 ^ 32"
  shows "block_locate_free_asserts s (ptr k)"
proof (cases "k = 0")
  case False
  have ok: "heap_ok N P s B (free_map B)" using inv by (simp add: tlsf_inv_def)
  note okD = heap_okD [OF ok]
  obtain fl sl where m: "mapping_search (ptr k) = (fl, sl)" by fastforce
  have kl: "k < cell_limit" using k by (simp add: cell_limit_def)
  have nz: "ptr k \<noteq> 0" using False by (intro ptr_nonzero [OF _ kl]) simp
  obtain b i j where b: "search_suitable_block s fl sl = (b, i, j)" by (metis prod.collapse)
  have "ptr k \<le> block_size (mem s) b \<and> remove_free_block_asserts s b" if fl: "fl < 25" and b0: "b \<noteq> 0"
  proof -
    have snd: "snd (block_locate_free s (ptr k)) = b"
      using nz fl b0 by (simp add: block_locate_free_def m b tlsf_constants)
    obtain x n where x: "b = ptr x" "pending N P (fst (block_locate_free s (ptr k))) B x n" "k \<le> n"
      by (rule block_locate_free_ok [OF inv k]) (use False snd b0 in auto)
    then have Bx: "B x = Some (n, True)" by (simp add: pending_def)
    note bf = block_facts [OF okD(2) Bx free_not_sentinel [OF okD(2) Bx]]
    have "remove_free_block_asserts s (ptr x)" by (rule remove_asserts [OF okD(4) N]) (simp add: Bx)
    moreover have "ptr k \<le> block_size (mem s) (ptr x)"
      using bf(4) kl x(3) by (simp add: block_size_cell [OF headers_header [OF okD(3,2) Bx]] word_le_nat_alt unat_ptr)
    ultimately show ?thesis by (simp add: x(1))
  qed
  then show ?thesis
    using search_asserts [OF okD(4), of fl sl] by (simp add: block_locate_free_asserts_def m b tlsf_constants)
qed (simp add: block_locate_free_asserts_def)

lemma prepare_used_asserts:
  assumes p: "pending N P s B x n" and N: "0 < N" and k: "3 \<le> k" "k \<le> n" and co: "coalesced_but {x} B"
  shows "block_prepare_used_asserts s (ptr x) (ptr k)"
proof -
  obtain s' B' j where t: "block_trim_free s (ptr x) (ptr k) = s'" "pending N P s' B' x j"
    by (rule block_trim_free_ok [OF p k co])
  then have ok: "heap_ok N P s' B' ((free_map B')(x := None))" and x: "B' x = Some (j, True)" by (simp_all add: pending_def)
  have "block_next_asserts (mem s') (ptr x)"
    by (rule next_asserts_block [OF ok x free_not_sentinel [OF heap_okD(2) [OF ok] x]])
  moreover have "n < cell_limit"
    using p block_facts(4) [of P B x n True] free_not_sentinel [of P B x n] heap_okD(2) by (fastforce simp: pending_def)
  then have "ptr k \<noteq> 0" using k by (intro ptr_nonzero) simp_all
  ultimately show ?thesis
    using trim_free_asserts [OF p N k] by (simp add: block_prepare_used_asserts_def t(1))
qed

lemma malloc_asserts:
  assumes inv: "tlsf_inv N P s B" and N: "0 < N" and sz: "unat sz + 7 < 2 ^ 64"
  shows "tlsf_malloc_asserts s sz"
proof -
  define k where "k = request_cells (unat sz)"
  have adj: "adjust_request_size sz ALIGN_SIZE = ptr k" unfolding k_def by (rule request_cells(1) [OF sz])
  have k: "8 * k < 2 ^ 32" "k \<noteq> 0 \<Longrightarrow> 3 \<le> k" using request_cells(2,4) [OF sz] by (simp_all add: k_def)
  have co: "coalesced_but {x} B" for x using inv coalesced_but_mono [of "{}" B "{x}"] by (simp add: tlsf_inv_def)
  have "case block_locate_free s (ptr k) of (s1, b) \<Rightarrow> block_prepare_used_asserts s1 b (ptr k)"
  proof (cases "k = 0")
    case True
    then show ?thesis by (simp add: block_locate_free_def block_prepare_used_asserts_def)
  next
    case False
    note k3 = k(2) [OF False]
    show ?thesis
      by (rule block_locate_free_ok [OF inv k(1)])
        (use False prepare_used_asserts [OF _ N k3 _ co] in \<open>auto simp: block_prepare_used_asserts_def\<close>)
  qed
  then show ?thesis
    using locate_free_asserts [OF inv N k(1)]
    by (simp add: tlsf_malloc_asserts_def adj adjust_request_size_asserts_def align_size_asserts split_beta)
qed

lemma free_asserts:
  assumes inv: "tlsf_inv N P s B" and N: "0 < N" and x: "B x = Some (n, False)" "0 < n"
  shows "tlsf_free_asserts s (ptr (x + 2))"
proof -
  have ok: "heap_ok N P s B (free_map B)" using inv by (simp add: tlsf_inv_def)
  note okD = heap_okD [OF ok]
  define m1 where "m1 = block_mark_as_free (mem s) (ptr x)"
  note p1 = mark_as_free_pending [OF inv x, folded m1_def]
  obtain s2 B2 b2 n2 where s2: "block_merge_prev (s\<lparr>mem := m1\<rparr>) (ptr x) = (s2, ptr b2)"
    "pending N P s2 B2 b2 n2" "coalesced_but {b2 + n2 + 1} B2"
    by (rule block_merge_prev_ok [OF p1(1,2)])
  obtain s3 B3 n3 where s3: "block_merge_next s2 (ptr b2) = (s3, ptr b2)" "pending N P s3 B3 b2 n3"
    by (rule block_merge_next_ok [OF s2(2,3)])
  have "\<not> block_is_free (mem s) (ptr x)" by (simp add: block_status_cell [OF headers_header [OF okD(3,2) x(1)]])
  then show ?thesis
    using next_asserts_block [OF ok x] merge_prev_asserts [OF p1(1) N] pending_merge_next_asserts [OF s2(2) N]
      pending_insert_asserts [OF s3(2) N]
    by (simp add: tlsf_free_asserts_def Let_def s2(1) s3(1) flip: m1_def)
qed

lemma memalign_block:
  assumes p: "pending N P s B x n" and N: "0 < N" and co: "coalesced_but {} B" and a: "a < 32" and k: "3 \<le> k" "k \<le> n"
    and room: "3 < a \<Longrightarrow> 8 * k + 2 ^ a + 32 \<le> 8 * n"
  shows "memalign_block_asserts s (ptr x) (2 ^ a) (ptr k)"
proof (cases "a < 3")
  case True
  have "block_prepare_used_asserts s (ptr x) (ptr k)"
    by (rule prepare_used_asserts [OF p N k coalesced_but_mono [OF co]]) simp
  then show ?thesis
    using memalign_gap_small [OF p True] by (simp add: memalign_block_asserts_def block_to_ptr_cell)
next
  case False
  then have a3: "3 \<le> a" and room': "a \<noteq> 3 \<Longrightarrow> 8 * k + 2 ^ a + 32 \<le> 8 * n" using room by simp_all
  obtain s' B' y m where pl: "(if memalign_gap (ptr (x + 2)) (2 ^ a) \<noteq> 0
      then block_trim_free_leading s (ptr x) (memalign_gap (ptr (x + 2)) (2 ^ a)) else (s, ptr x)) = (s', ptr y)"
    "pending N P s' B' y m" "k \<le> m" "coalesced_but {y} B'"
    by (rule memalign_place [OF p co a3 a k room'])
  have "sizeof_block_header \<le> memalign_gap (ptr (x + 2)) (2 ^ a)
      \<and> block_trim_free_leading_asserts s (ptr x) (memalign_gap (ptr (x + 2)) (2 ^ a))"
    if gap: "memalign_gap (ptr (x + 2)) (2 ^ a) \<noteq> 0"
  proof (rule memalign_gap_cells [OF p a3 a k room'])
    fix G
    assume G: "memalign_gap (ptr (x + 2)) (2 ^ a) = ptr G" "4 \<le> G" "G + 4 \<le> n"
    have ok: "heap_ok N P s B ((free_map B)(x := None))" and x: "B x = Some (n, True)" using p by (simp_all add: pending_def)
    note okD = heap_okD [OF ok]
    have "G < cell_limit" using block_facts(4) [OF okD(2) x free_not_sentinel [OF okD(2) x]] G(3) by simp
    then have "sizeof_block_header \<le> ptr G" using G(2) by (simp add: word_le_nat_alt unat_ptr block_header_layout(1))
    then show ?thesis using trim_free_leading_asserts [OF p N G(2,3)] by (simp add: G(1))
  qed (insert gap, simp_all)
  then show ?thesis
    using prepare_used_asserts [OF pl(2) N k(1) pl(3,4)] pl(1)
    by (simp add: memalign_block_asserts_def block_to_ptr_cell Let_def)
qed

lemma memalign_asserts:
  assumes inv: "tlsf_inv N P s B" and N: "0 < N" and sz: "unat sz + 7 < 2 ^ 64" and a: "a < 63"
  shows "tlsf_memalign_asserts s (2 ^ a) sz"
proof -
  define k where "k = request_cells (unat sz)"
  have adj: "adjust_request_size sz ALIGN_SIZE = ptr k" unfolding k_def by (rule request_cells(1) [OF sz])
  have klim: "8 * k < 2 ^ 32" unfolding k_def by (rule request_cells(4) [OF sz])
  have k3: "0 < k \<Longrightarrow> 3 \<le> k" using request_cells(2) [OF sz] by (simp add: k_def)
  define K where "K = memalign_size (ptr k) (2 ^ a)"
  have co: "coalesced_but {} B" using inv by (simp add: tlsf_inv_def)
  have al: "align_asserts (2 ^ a)" using a by (intro pow2_asserts) simp
  have size: "sizeof_block_header = block_size_min + block_header_overhead"
    by (simp add: block_header_layout(1) tlsf_constants block_constants)
  have "block_locate_free_asserts s K
      \<and> (case block_locate_free s K of (s1, b) \<Rightarrow> b \<noteq> 0 \<longrightarrow> memalign_block_asserts s1 b (2 ^ a) (ptr k))"
  proof (cases "K = 0")
    case True
    then show ?thesis by (simp add: block_locate_free_asserts_def block_locate_free_def)
  next
    case False
    then have a32: "a < 32" using memalign_size_large [OF klim _ a] unfolding K_def by (meson not_le)
    obtain c where c: "K = ptr c" "8 * c < 2 ^ 32" "0 < k" "3 \<le> k" "k \<le> c" "3 < a \<Longrightarrow> 8 * k + 2 ^ a + 32 \<le> 8 * c"
      using memalign_size_cells [OF k3 klim a32 False [unfolded K_def]] unfolding K_def by metis
    have "0 < c" using c(3,5) by simp
    have "case block_locate_free s (ptr c) of (s1, b) \<Rightarrow> b \<noteq> 0 \<longrightarrow> memalign_block_asserts s1 b (2 ^ a) (ptr k)"
    proof (rule block_locate_free_ok [OF inv c(2) \<open>0 < c\<close>])
      fix s1 x n
      assume loc: "block_locate_free s (ptr c) = (s1, ptr x)" "pending N P s1 B x n" "c \<le> n"
      have "8 * k + 2 ^ a + 32 \<le> 8 * n" if "3 < a" using c(6) [OF that] loc(3) by linarith
      then have "memalign_block_asserts s1 (ptr x) (2 ^ a) (ptr k)"
        using c(5) loc(3) by (intro memalign_block [OF loc(2) N co a32 c(4)]) simp_all
      then show ?thesis by (simp add: loc(1))
    qed simp
    then show ?thesis using locate_free_asserts [OF inv N c(2)] by (simp add: c(1))
  qed
  then show ?thesis
    unfolding tlsf_memalign_asserts_def adj Let_def
    using al align_size_asserts
    by (simp add: adjust_request_size_asserts_def size [symmetric] split_beta flip: memalign_size_def K_def)
qed

text \<open>A used block that takes in the next one and one that is cut.\<close>

lemma grow_asserts:
  assumes inv: "tlsf_inv N P s B" and N: "0 < N" and x: "B x = Some (n, False)" "0 < n" and y: "B (x + n + 1) = Some (n', True)"
  shows "block_merge_next_asserts s (ptr x)" "block_next_asserts (mem (fst (block_merge_next s (ptr x)))) (ptr x)"
proof -
  have ok: "heap_ok N P s B (free_map B)" using inv by (simp add: tlsf_inv_def)
  note okD = heap_okD [OF ok]
  show "block_merge_next_asserts s (ptr x)" by (rule merge_next_asserts [OF ok N x]) simp
  define s0 where "s0 = block_remove s (ptr (x + n + 1))"
  have Fy: "free_map B (x + n + 1) = Some n'" using y by simp
  note remD = heap_okD [OF block_remove_ok(1) [OF ok Fy, folded s0_def]]
  have lim: "x + (n + n' + 1) + 1 < cell_limit"
    using block_facts(4) [OF okD(2) y free_not_sentinel [OF okD(2) y]] by simp
  have pos: "1 \<le> n" using x(2) by simp
  have "block_next (mem s) (ptr x) = ptr (x + n + 1)"
    using block_next_cell [OF headers_header [OF okD(3,2) x(1)]] x(2) by simp
  moreover have "block_is_free (mem s) (ptr (x + n + 1))" by (simp add: block_status_cell [OF headers_header [OF okD(3,2) y]])
  ultimately have run: "mem (fst (block_merge_next s (ptr x))) = block_absorb (mem s0) (ptr x) (ptr (x + n + 1))"
    by (simp add: block_merge_next_def Let_def s0_def)
  have "header (cells (block_absorb (mem s0) (ptr x) (ptr (x + n + 1)))) x (n + n' + 1) False (prev_free B x)"
    using block_absorb_cell [OF headers_header [OF remD(3,2) x(1)] headers_header [OF remD(3,2) y] pos lim] lim
    by (simp add: header_def)
  then show "block_next_asserts (mem (fst (block_merge_next s (ptr x)))) (ptr x)"
    unfolding run by (rule next_asserts_header) (use lim in simp_all)
qed

lemma resize_asserts:
  assumes inv: "tlsf_inv N P s B" and N: "0 < N" and x: "B x = Some (n, False)" "0 < n" and y: "B (x + n + 1) = Some (n', f')"
    and r: "3 \<le> r" "r \<le> n \<or> f' \<and> r \<le> n + n' + 1" "r + 4 < cell_limit"
  defines "s2 \<equiv> (if n < r then
      let s1 = fst (block_merge_next s (ptr x)) in s1\<lparr>mem := block_mark_as_used (mem s1) (ptr x)\<rparr> else s)"
  shows "block_trim_used_asserts s2 (ptr x) (ptr r)"
proof (cases "n < r")
  case True
  then have y': "B (x + n + 1) = Some (n', True)" using r(2) y by auto
  have Gx: "grow_map B x n n' x = Some (n + n' + 1, False)" by (simp add: grow_map_def)
  show ?thesis
    using trim_used_asserts [OF grow_used_ok(1) [OF inv x y'] N Gx _ r(1,3)] True by (simp add: s2_def Let_def)
next
  case False
  then show ?thesis using trim_used_asserts [OF inv N x r(1,3)] by (simp add: s2_def)
qed

section \<open>The calls\<close>

text \<open>In the states of the contract. The control structure is not at address 0.\<close>

lemma asserts_stateE:
  assumes "tlsf_state base P s A" "base \<noteq> 0"
  obtains N B where "tlsf_inv N P s B" "A = allocations B" "segments P B" "0 < N" "base = ptr N" "unat base = 8 * N"
    "N + 817 \<le> cell_limit" "control_apart N P"
proof -
  obtain N B where b: "base = ptr N" "N + 817 \<le> cell_limit" "tlsf_inv N P s B" "A = allocations B" "segments P B"
    "unat base = 8 * N" "control_apart N P"
    by (rule tlsf_stateE [OF assms(1)])
  moreover have "0 < N" using b(1) assms(2) by (auto simp: ptr_def intro: gr0I)
  ultimately show thesis using that by blast
qed

lemma state_free_asserts:
  assumes st: "tlsf_state base P s A" and base: "base \<noteq> 0" and p: "A p = Some k"
  shows "tlsf_free_asserts s p"
proof -
  obtain N B where b: "tlsf_inv N P s B" "A = allocations B" "segments P B" "0 < N" by (rule asserts_stateE [OF st base])
  have "allocations B p = Some k" using p b(2) by simp
  then obtain x n where "p = ptr (x + 2)" "B x = Some (n, False)" "0 < n" by (rule live_block [OF b(3)])
  then show ?thesis using free_asserts [OF b(1,4)] by simp
qed

lemma state_malloc_asserts:
  assumes "tlsf_state base P s A" "base \<noteq> 0" "unat sz + 7 < 2 ^ 64"
  shows "tlsf_malloc_asserts s sz"
  by (rule asserts_stateE [OF assms(1,2)]) (rule malloc_asserts [OF _ _ assms(3)])

lemma realloc_asserts:
  assumes st: "tlsf_state base P s A" and base: "base \<noteq> 0" and p: "A p = Some k" and sz: "sz \<noteq> 0" "unat sz \<le> 2 ^ 32 - 8"
  shows "tlsf_realloc_asserts s p sz"
proof -
  obtain N B where b: "tlsf_inv N P s B" "A = allocations B" "segments P B" "0 < N" by (rule asserts_stateE [OF st base])
  define r where "r = request_cells (unat sz)"
  have Ap: "allocations B p = Some k" using p b(2) by simp
  obtain x n where x: "p = ptr (x + 2)" "B x = Some (n, False)" "k = 8 * n" "0 < n" by (rule live_block [OF b(3) Ap])
  obtain n' f' where y: "B (x + n + 1) = Some (n', f')" using block_facts(7) [OF b(3) x(2,4)] by blast
  have sz': "unat sz + 7 < 2 ^ 64" using sz by simp
  note req = request_cells [OF sz', folded r_def] and f = realloc_facts [OF b(1) x(2,4) sz' y, folded r_def]
  have "r \<noteq> 0" using req(5) sz by auto
  then have r: "3 \<le> r" "r + 4 < cell_limit" using req(2,4) by (simp_all add: cell_limit_def)
  have ok: "heap_ok N P s B (free_map B)" using b(1) by (simp add: tlsf_inv_def)
  have base_asserts: "block_next_asserts (mem s) (ptr x)" "adjust_request_size_asserts sz ALIGN_SIZE"
    using next_asserts_block [OF ok x(2,4)] by (simp_all add: adjust_request_size_asserts_def align_size_asserts)
  have moved: "tlsf_malloc_asserts s sz \<and> (case tlsf_malloc s sz of (s1, q) \<Rightarrow> q \<noteq> 0 \<longrightarrow>
      tlsf_free_asserts (s1\<lparr>mem := mem_write (mem s1) q (mem_bytes (mem s1) p (min (8 * n) (unat sz)))\<rparr>) p)"
  proof -
    obtain s1 q where m: "tlsf_malloc s sz = (s1, q)" by fastforce
    have "tlsf_free_asserts (s1\<lparr>mem := mem_write (mem s1) q (mem_bytes (mem s1) p (min (8 * n) (unat sz)))\<rparr>) p"
      if q: "q \<noteq> 0"
    proof -
      obtain k' where k': "A q = None" "unat sz \<le> k'" "tlsf_state base P s1 (A(q \<mapsto> k'))"
        by (rule tlsf_malloc_fresh [OF st sz' m q])
      have Aq: "(A(q \<mapsto> k')) q = Some k'" and Ap: "(A(q \<mapsto> k')) p = Some k" using k'(1) p by auto
      show ?thesis by (rule state_free_asserts [OF copy_ok(1) [OF k'(3) Aq] base Ap]) (use k'(2) in simp)
    qed
    then show ?thesis using state_malloc_asserts [OF st base sz'] by (simp add: m)
  qed
  show ?thesis
  proof (cases "n < r \<and> (\<not> f' \<or> n + n' + 1 < r)")
    case True
    then show ?thesis
      using moved base_asserts sz(1)
      by (simp add: tlsf_realloc_asserts_def Let_def x(1) f req(1) block_constants split_beta)
  next
    case False
    then have "r \<le> n \<or> f' \<and> r \<le> n + n' + 1" by linarith
    note t = resize_asserts [OF b(1,4) x(2,4) y r(1) this r(2)]
    have "block_merge_next_asserts s (ptr x) \<and> block_next_asserts (mem (fst (block_merge_next s (ptr x)))) (ptr x)" if "n < r"
      using grow_asserts [OF b(1,4) x(2,4), of n'] False that y by auto
    then show ?thesis
      using False t base_asserts sz(1)
      by (cases "n < r") (simp_all add: tlsf_realloc_asserts_def Let_def x(1) f req(1) block_constants split_beta)
  qed
qed

lemma calls_assert:
  assumes st: "tlsf_state base P s (sizes H)" and base: "base \<noteq> 0" and leg: "tlsf_legal H op"
  shows "call_asserts s op"
proof (cases op)
  case (Memalign al sz)
  then obtain n where n: "al = 2 ^ n" "n < 63" and sz: "unat sz + 7 < 2 ^ 64" using leg by (auto simp: list_ex_iff)
  show ?thesis
    unfolding Memalign n(1) by (rule asserts_stateE [OF st base]) (simp add: memalign_asserts [OF _ _ sz n(2)])
next
  case (Realloc p sz)
  consider "p = 0" | "p \<noteq> 0" "sz = 0" | "p \<noteq> 0" "sz \<noteq> 0" by blast
  then show ?thesis
  proof cases
    case 1
    then show ?thesis using state_malloc_asserts [OF st base] leg by (simp add: Realloc tlsf_realloc_asserts_def)
  next
    case 2
    then obtain bs where "H p = Some bs" using leg by (auto simp: Realloc)
    then have "sizes H p = Some (length bs)" by simp
    then show ?thesis using state_free_asserts [OF st base] 2 by (simp add: Realloc tlsf_realloc_asserts_def)
  next
    case 3
    then obtain bs where p: "H p = Some bs" "unat sz \<le> 2 ^ 32 - 8" using leg by (auto simp: Realloc)
    then have "sizes H p = Some (length bs)" by simp
    then show ?thesis using realloc_asserts [OF st base _ 3(2) p(2)] by (simp add: Realloc)
  qed
next
  case (Basic op')
  then show ?thesis
  proof (cases op')
    case (Malloc sz)
    then show ?thesis using state_malloc_asserts [OF st base] leg Basic by simp
  next
    case (Free p)
    show ?thesis
    proof (cases "p = 0")
      case False
      then obtain bs where "H p = Some bs" using leg Free Basic by auto
      then have "sizes H p = Some (length bs)" by simp
      then show ?thesis using state_free_asserts [OF st base] Basic Free by simp
    qed (simp add: Basic Free tlsf_free_asserts_def)
  qed simp
qed

section \<open>Pools\<close>

lemma add_pool_asserts:
  assumes st: "tlsf_state base P s A" and base: "base \<noteq> 0" and reg: "unused_region base P a bytes"
    and run: "tlsf_add_pool (Some s) a bytes = Some (Some s', r)"
  shows "tlsf_add_pool_asserts s a bytes"
proof (cases "a mod ALIGN_SIZE = 0 \<and> \<not> (align_down (bytes - tlsf_pool_overhead) ALIGN_SIZE < block_size_min
    \<or> align_down (bytes - tlsf_pool_overhead) ALIGN_SIZE > block_size_max)")
  case False
  then show ?thesis unfolding tlsf_add_pool_asserts_def Let_def using align_size_asserts by blast
next
  case True
  then have "r = a" using run by (simp add: tlsf_add_pool_def Let_def split_beta split: if_splits)
  moreover have a: "16 \<le> unat a" using reg by (simp add: unused_region_def)
  ultimately have "r \<noteq> 0" by auto
  then have t: "unat a mod 8 = 0" "16 \<le> unat bytes" "3 \<le> (unat bytes - 16) div 8" "(unat bytes - 16) div 8 < 2 ^ 29"
    using add_pool_result [OF run a] by auto
  obtain N B where b: "tlsf_inv N P s B" "segments P B" "0 < N" "unat base = 8 * N" "N + 817 \<le> cell_limit" "control_apart N P"
    by (rule asserts_stateE [OF st base])
  have ok: "heap_ok N P s B (free_map B)" using b(1) by (simp add: tlsf_inv_def)
  define lo u where "lo = unat a div 8 - 1" "u = (unat bytes - 16) div 8"
  have p: "region_pool a bytes = (lo, u)" by (simp add: region_pool_def lo_u_def)
  note t' = t(3,4) [folded lo_u_def]
  note fit = region_fits [OF b(2) t(1) reg t(2) p t' b(4,5)]
  note lt = pools_okD(1-4) [OF fit(2) insertI1]
  obtain i j where ij: "size_class u = (i, j)" by fastforce
  define m1 where "m1 = block_set_prev_used (block_set_free (block_set_size (mem s) (ptr lo) (ptr u)) (ptr lo)) (ptr lo)"
  have lim: "lo + 1 < cell_limit" "0 < lo" "u < cell_limit" "8 * u < 2 ^ 32" using lt t' by (simp_all add: cell_limit_def)
  note h1 = pool_header [OF lim(1), of "mem s" u, folded m1_def]
  note pi = pool_insert_ok [OF b(1) fit(4) [OF b(6)] fit(2,3) h1(1) ij]
  have s2: "block_insert (s\<lparr>mem := m1\<rparr>) (ptr lo) = insert_free_block (s\<lparr>mem := m1\<rparr>) (ptr lo) i j"
    by (simp add: block_insert_def block_class [OF h1(2)] ij)
  have "header (cells (mem (block_insert (s\<lparr>mem := m1\<rparr>) (ptr lo)))) lo u True False"
    unfolding s2 using pi(8) lim(1) by (simp add: header_def)
  then have "block_next_asserts (mem (block_insert (s\<lparr>mem := m1\<rparr>) (ptr lo))) (ptr lo)"
    by (rule next_asserts_header) (use t' lim in simp_all)
  moreover have "block_insert_asserts (s\<lparr>mem := m1\<rparr>) (ptr lo)"
    by (rule insert_asserts [OF heap_okD(4) [OF ok] b(3) h1(2) lim(2) _ lim(4)]) (use lt in simp)
  ultimately show ?thesis
    unfolding tlsf_add_pool_asserts_def Let_def pool_size_cells [OF lo_u_def(2) [symmetric] t(2)] fit(1) pool_block
      m1_def [symmetric]
    using align_size_asserts by blast
qed

lemma remove_pool_asserts:
  assumes st: "tlsf_state base P s A" and base: "base \<noteq> 0" and pool: "(lo, t) \<in> P" "pool_idle lo t A"
  shows "tlsf_remove_pool_asserts s (ptr (lo + 1))"
proof -
  obtain N B where b: "tlsf_inv N P s B" "A = allocations B" "segments P B" "0 < N" by (rule asserts_stateE [OF st base])
  have ok: "heap_ok N P s B (free_map B)" using b(1) by (simp add: tlsf_inv_def)
  note okD = heap_okD [OF ok]
  have lo: "B lo = Some (t, True)" using pool(2) by (intro empty_pool [OF b(1) pool(1)]) (simp add: b(2))
  have hi: "B (lo + t + 1) = Some (0, False)" by (rule segmentsD(3) [OF b(3) pool(1)])
  note h = headers_header [OF okD(3,2) lo] and hh = headers_header [OF okD(3,2) hi]
  have t: "0 < t" by (rule free_not_sentinel [OF b(3) lo])
  have nxt: "block_next (mem s) (ptr lo) = ptr (lo + t + 1)" using block_next_cell [OF h] t by simp
  have "remove_free_block_asserts s (ptr lo)" by (rule remove_asserts [OF okD(4) b(4)]) (simp add: lo)
  then show ?thesis
    using next_asserts_block [OF ok lo t]
    by (simp add: tlsf_remove_pool_asserts_def pool_block nxt block_status_cell [OF h] block_status_cell [OF hh]
        block_size_cell [OF hh])
qed

section \<open>Properties\<close>

text \<open>
  C4. No assertion of \<open>tlsf.c\<close> ever fails: in every run over any number of pools, every assertion that the next
  legal call, addition or removal of a pool evaluates holds in the state in which it is evaluated, down to the
  steps on blocks and lists. The control structure must not be at address 0, because the empty lists point to it.
\<close>

theorem tlsf_assertions_hold:
  assumes "base \<noteq> 0" "unat base + 6536 \<le> 2 ^ 64" "pools_reachable m base c" "pools_step base c ev c'"
  shows "event_asserts (fst c) ev"
proof -
  have "config_ok base c" by (rule pools_reachable_ok [OF assms(2,3)])
  with assms(4) show ?thesis
  proof cases
    case (call H op s s' r P)
    then have "tlsf_state base P s (sizes H)" using \<open>config_ok base c\<close> by simp
    then show ?thesis using calls_assert [OF _ assms(1) call(4)] call(1,2) by simp
  next
    case (add_pool P a bytes s s' r H)
    then have "tlsf_state base P s (sizes H)" using \<open>config_ok base c\<close> by simp
    then show ?thesis using add_pool_asserts [OF _ assms(1) add_pool(4,5)] add_pool(1,2) by simp
  next
    case (remove_pool lo t P H s)
    then have "tlsf_state base P s (sizes H)" using \<open>config_ok base c\<close> by simp
    then show ?thesis using remove_pool_asserts [OF _ assms(1) remove_pool(4,5)] remove_pool(1,2) by simp
  qed simp
qed

theorem tlsf_assertions_hold_witness:
  "\<exists>s. pools_reachable (\<lambda>_. 0) 0x80000000
      (s, {region_pool 0x70000000 0x100000, region_pool 0x90000000 0x1000000}, Map.empty)
    \<and> tlsf_malloc_asserts s 100 \<and> tlsf_memalign_asserts s 4096 100 \<and> tlsf_remove_pool_asserts s 0x70000000"
proof -
  let ?b = "0x80000000 :: u64" and ?P = "{region_pool 0x70000000 0x100000, region_pool 0x90000000 0x1000000}"
  obtain s where s: "pools_reachable (\<lambda>_. 0) ?b (s, ?P, Map.empty)" by (rule two_pools_example)
  have base: "?b \<noteq> 0" "unat ?b + 6536 \<le> 2 ^ 64" by simp_all
  note holds = tlsf_assertions_hold [OF base s]
  obtain s1 p s2 q where m: "tlsf_malloc s 100 = (s1, p)" "tlsf_memalign s 4096 100 = (s2, q)" by (metis prod.collapse)
  have leg: "tlsf_legal Map.empty (Memalign 4096 100)" by (simp add: list_ex_iff) (rule bexI [of _ 12], simp_all)
  have "\<exists>c'. pools_step ?b (s, ?P, Map.empty) (Call (Basic (Malloc 100)) p) c'"
    using pools_step.call [of Map.empty "Basic (Malloc 100)" s s1 p ?b ?P] m(1) by auto
  moreover have "\<exists>c'. pools_step ?b (s, ?P, Map.empty) (Call (Memalign 4096 100) q) c'"
    using pools_step.call [OF leg, of s s2 q ?b ?P] m(2) by auto
  moreover have "\<exists>c'. pools_step ?b (s, ?P, Map.empty) (RemovePool (ptr (0x70000000 div 8 - 1 + 1))) c'"
    using pools_step.remove_pool [of "0x70000000 div 8 - 1" "(0x100000 - 16) div 8" ?P Map.empty ?b s]
    by (auto simp: region_pool_def)
  ultimately show ?thesis using holds s by (intro exI [of _ s]) (fastforce simp: ptr_def)
qed

end
