(* ===== verification/TlsfOversize.thy ===== *)
theory TlsfOversize imports TlsfRealloc begin

text \<open>
  Requests of \<open>tlsf_realloc\<close> that are too large. From 4 GiB less 7 on the adjusted size is 0, which the code takes for
  a reduction to nothing: it splits the block of the caller behind its size field, so that the caller's memory
  becomes a free block while the caller keeps the pointer.
\<close>

unbundle bit_operations_syntax

section \<open>Trimming a block to size 0\<close>

text \<open>The header of the remainder lies in the caller's memory, one cell behind that of the block.\<close>

lemma trim_to_zero_split:
  assumes inv: "tlsf_inv N P s B" and x: "B x = Some (n, False)" and n: "4 \<le> n" and y: "B (x + n + 1) = Some (n', f')"
  obtains m2 g where "block_split (mem s) (ptr x) 0 = (m2, ptr (x + 1))"
    "cells (block_set_prev_used m2 (ptr (x + 1))) = (cells (mem s))(x + 1 := size_word 0 False (prev_free B x),
       x + 2 := size_word (n - 1) True False, x + n + 1 := ptr (x + 1), x + n + 2 := size_word n' f' True)"
proof -
  have ok: "heap_ok N P s B (free_map B)" using inv by (simp add: tlsf_inv_def)
  note okD = heap_okD [OF ok]
  have lim: "x + n + 2 < cell_limit" using block_facts(4) [OF okD(2) x] n by simp
  define m2 where "m2 = fst (block_split (mem s) (ptr x) (ptr 0))"
  have n0: "0 + 4 \<le> n" using n by simp
  note sp = block_split_cell [OF headers_header [OF okD(3,2) x] n0 headers_header [OF okD(3,2) y], folded m2_def]
  obtain g where c: "cells m2 = (cells (mem s))(x + 1 := size_word 0 False (prev_free B x),
      x + 2 := size_word (n - 1) True g, x + n + 1 := ptr (x + 1), x + n + 2 := size_word n' f' True)"
    using sp(2) by auto
  have p0: "ptr 0 = 0" by (simp add: ptr_def)
  have run: "block_split (mem s) (ptr x) 0 = (m2, ptr (x + 1))" using sp(1) by (simp add: m2_def prod_eq_iff p0)
  have "header (cells m2) (x + 1) (n - 1) True g" using lim n by (simp add: c header_def)
  then have "cells (block_set_prev_used m2 (ptr (x + 1))) = (cells m2)(x + 2 := size_word (n - 1) True False)"
    using block_set_cell(4) [of m2 "x + 1"] by simp
  also have "\<dots> = (cells (mem s))(x + 1 := size_word 0 False (prev_free B x),
      x + 2 := size_word (n - 1) True False, x + n + 1 := ptr (x + 1), x + n + 2 := size_word n' f' True)"
    using n by (intro ext) (simp add: c)
  finally show thesis using that run by blast
qed

text \<open>The next block joins the remainder when it is free. The header of the caller's block says 0.\<close>

lemma trim_to_zero_merge:
  assumes inv: "tlsf_inv N P s B" and x: "B x = Some (n, False)" and n: "4 \<le> n" and y: "B (x + n + 1) = Some (n', f')"
    and m: "cells m = (cells (mem s))(x + 1 := size_word 0 False (prev_free B x),
       x + 2 := size_word (n - 1) True False, x + n + 1 := ptr (x + 1), x + n + 2 := size_word n' f' True)"
  defines "r \<equiv> (if f' then n + n' else n - 1)"
  obtains s' F where "block_merge_next (s\<lparr>mem := m\<rparr>) (ptr (x + 1)) = (s', ptr (x + 1))" "lists_ok N s' F"
    "F \<subseteq>\<^sub>m free_map B" "cells (mem s') (x + 1) = size_word 0 False (prev_free B x)"
    "cells (mem s') (x + 2) = size_word r True False"
proof -
  have ok: "heap_ok N P s B (free_map B)" using inv by (simp add: tlsf_inv_def)
  note okD = heap_okD [OF ok]
  have pos: "0 < n" "1 \<le> n - 1" using n by simp_all
  note bf = block_facts [OF okD(2) x pos(1)]
  have "free_map B x = None" using x by (simp add: free_map_def)
  note own = boundary_not_link [OF ok x pos(1) this]
  have len: "x + 1 + (n - 1) + 1 = x + n + 1" "x + 1 + (n - 1 + n' + 1) + 1 = x + n + n' + 2" using n by simp_all
  have links: "lists_ok N (s\<lparr>mem := m\<rparr>) (free_map B)"
    using own [of "x + 1"] own [of "x + 2"] own [of "x + n + 1"] own [of "x + n + 2"] n
    by (intro lists_ok_frame [OF okD(4)]) (auto simp: m)
  have h: "header (cells m) (x + 1) (n - 1) True False" "header (cells m) (x + n + 1) n' f' True"
    using bf(4) n by (simp_all add: header_def m)
  have c1: "cells m (x + 1) = size_word 0 False (prev_free B x)" "cells m (x + 2) = size_word (n - 1) True False"
    using n by (simp_all add: m)
  have nxt: "block_next m (ptr (x + 1)) = ptr (x + n + 1)"
    using block_next_cell [OF h(1) pos(2)] unfolding len .
  have free: "block_is_free m (ptr (x + n + 1)) \<longleftrightarrow> f'" by (rule block_status_cell(1) [OF h(2)])
  show thesis
  proof (cases f')
    case False
    then have "block_merge_next (s\<lparr>mem := m\<rparr>) (ptr (x + 1)) = (s\<lparr>mem := m\<rparr>, ptr (x + 1))"
      by (simp add: block_merge_next_def Let_def nxt free)
    then show ?thesis using that [OF _ links map_le_refl] c1 False by (simp add: r_def)
  next
    case True
    then have y': "B (x + n + 1) = Some (n', True)" using y by simp
    have n': "0 < n'" by (rule free_not_sentinel [OF okD(2) y'])
    note by' = block_facts [OF okD(2) y' n']
    have Fy: "free_map B (x + n + 1) = Some n'" using y' by simp
    obtain i j where ij: "size_class n' = (i, j)" by fastforce
    let ?F = "(free_map B)(x + n + 1 := None)"
    define s0 where "s0 = remove_free_block (s\<lparr>mem := m\<rparr>) (ptr (x + n + 1)) i j"
    note rem = remove_free_block_ok [OF links Fy ij, folded s0_def]
    have "?F (x + n + 1) = None" by simp
    note own' = boundary_not_link [OF remove_class_ok(1) [OF ok Fy ij] y' n' this]
    have "link_cells (insert N (dom (free_map B) - {x + n + 1})) \<subseteq> link_cells (insert N (dom (free_map B)))"
      by (auto simp: link_cells_def)
    then have c0: "cells (mem s0) k = cells m k" if "x + 1 \<le> k" "k \<le> x + n + 2" for k
      using rem(2) own [OF that] by (auto simp: same_outside_def)
    have h0: "header (cells (mem s0)) (x + 1) (n - 1) True False" "header (cells (mem s0)) (x + n + 1) n' True True"
      using h c0 [of "x + 2"] c0 [of "x + n + 2"] n True by (simp_all add: header_def)
    have lim: "x + 1 + (n - 1 + n' + 1) + 1 < cell_limit" using by'(4) n by simp
    define m' where "m' = block_absorb (mem s0) (ptr (x + 1)) (ptr (x + n + 1))"
    have r: "n - 1 + n' + 1 = r" using n True by (simp add: r_def)
    have c': "cells m' = (cells (mem s0))(x + 2 := size_word r True False, x + n + n' + 2 := ptr (x + 1))"
      using block_absorb_cell [OF h0 pos(2) lim, unfolded len(2), unfolded r] unfolding m'_def by simp
    have F_own: "k \<notin> link_cells (insert N (dom ?F))" if "k \<notin> link_cells (insert N (dom (free_map B)))" for k
      using that by (auto simp: link_cells_def)
    have "x + 2 \<notin> link_cells (insert N (dom ?F))" by (rule F_own [OF own]) simp_all
    moreover have "x + n + n' + 2 \<notin> link_cells (insert N (dom ?F))" by (rule own') simp_all
    ultimately have "cells m' k = cells (mem s0) k" if "k \<in> link_cells (insert N (dom ?F))" for k
      unfolding c' using that by (metis fun_upd_other)
    then have "lists_ok N (s0\<lparr>mem := m'\<rparr>) ?F" by (rule lists_ok_frame [OF rem(1)])
    moreover have "block_merge_next (s\<lparr>mem := m\<rparr>) (ptr (x + 1)) = (s0\<lparr>mem := m'\<rparr>, ptr (x + 1))"
      using True block_class [OF h(2)] ij
      by (simp add: block_merge_next_def Let_def nxt free block_remove_def s0_def m'_def)
    moreover have "?F \<subseteq>\<^sub>m free_map B" by (auto simp: map_le_def)
    moreover have "cells m' (x + 1) = size_word 0 False (prev_free B x)" "cells m' (x + 2) = size_word r True False"
      using c0 [of "x + 1"] c1(1) n by (simp_all add: c')
    ultimately show ?thesis using that by simp
  qed
qed

lemma trim_to_zero_insert:
  assumes inv: "tlsf_inv N P s B" and x: "B x = Some (n, False)" and n: "4 \<le> n"
    and s3: "lists_ok N s3 F" "F \<subseteq>\<^sub>m free_map B" "cells (mem s3) (x + 1) = size_word 0 False p"
      "cells (mem s3) (x + 2) = size_word r True False" and r: "8 * r < 2 ^ 32"
  defines "s' \<equiv> block_insert s3 (ptr (x + 1))"
  shows "block_size (mem s') (ptr x) = 0" "block_is_free (mem s') (ptr (x + 1))" "block_size (mem s') (ptr (x + 1)) = ptr r"
    and "blocks s' ! fst (size_class r) ! snd (size_class r) = ptr (x + 1)"
proof -
  have ok: "heap_ok N P s B (free_map B)" using inv by (simp add: tlsf_inv_def)
  note okD = heap_okD [OF ok]
  have pos: "0 < n" using n by simp
  note bf = block_facts [OF okD(2) x pos]
  have "free_map B x = None" using x by (simp add: free_map_def)
  note own = boundary_not_link [OF ok x pos this]
  obtain i j where ij: "size_class r = (i, j)" by fastforce
  have b: "i < 25" "j < 32" using size_class_bounds [OF r] ij by simp_all
  have dom: "dom F \<subseteq> dom (free_map B)" using s3(2) by (rule map_le_implies_dom_le)
  have F_own: "z + 2 \<noteq> k" "z + 3 \<noteq> k" if "z \<in> insert N (dom F)" "x + 1 \<le> k" "k \<le> x + n + 2" for z k
    using own [OF that(2,3)] that(1) dom by (auto simp: link_cells_def)
  have h: "header (cells (mem s3)) (x + 1) r True False" using s3(4) bf(4) n by (simp add: header_def)
  have s': "s' = insert_free_block s3 (ptr (x + 1)) i j"
    unfolding s'_def block_insert_def block_class [OF h] ij by simp
  have fr: "free_ok N F" and tab: "tables_ok s3" using s3(1) by (simp_all add: lists_ok_def)
  have "B (x + 1) = None" using split_map_fresh [OF okD(2) x pos, of 0] n by simp
  then have new: "F (x + 1) = None" using dom by (auto simp: free_map_def domIff)
  have N: "x + 1 \<noteq> N" "x + 3 \<noteq> N + 3" "x + 3 \<noteq> N + 2" "x + 4 \<noteq> N + 2"
    using F_own [of N "x + 3"] F_own [of N "x + 4"] control_not_pool [OF okD(1), of "x + 1"] bf(1) n by auto
  have "free_ok N (F(x + 1 \<mapsto> r))"
  proof -
    have "links_apart (insert N (dom (F(x + 1 \<mapsto> r))))"
      unfolding links_apart_def
    proof (intro ballI)
      fix a c
      assume ac: "a \<in> insert N (dom (F(x + 1 \<mapsto> r)))" "c \<in> insert N (dom (F(x + 1 \<mapsto> r)))"
      then have old: "a = x + 1 \<or> a \<in> insert N (dom F)" "c = x + 1 \<or> c \<in> insert N (dom F)" by (auto split: if_splits)
      have "links_apart (insert N (dom F))" using fr by (simp add: free_ok_def)
      moreover have "a + 2 \<noteq> x + 4" if "a \<in> insert N (dom F)" using F_own(1) [OF that, of "x + 4"] n by simp
      moreover have "c + 3 \<noteq> x + 3" if "c \<in> insert N (dom F)" using F_own(2) [OF that, of "x + 3"] n by simp
      ultimately show "a + 2 \<noteq> c + 3" using old links_apartD [of "insert N (dom F)" a c] by fastforce
    qed
    then show ?thesis using fr N(1) bf(4) n r by (auto simp: free_ok_def split: if_splits)
  qed
  note ins = insert_free_block_ok [OF s3(1) new this ij, folded s']
  have links: "k \<notin> link_cells (insert N (insert (x + 1) (dom F)))" if "k = x + 1 \<or> k = x + 2" for k
  proof
    assume "k \<in> link_cells (insert N (insert (x + 1) (dom F)))"
    then obtain z where "z = x + 1 \<or> z \<in> insert N (dom F)" "k = z + 2 \<or> k = z + 3"
      unfolding link_cells_def by blast
    moreover have "x + 1 \<le> k" "k \<le> x + n + 2" "k < x + 3" using that by auto
    ultimately show False using F_own [of z k] by fastforce
  qed
  have c: "cells (mem s') (x + 1) = size_word 0 False p" "cells (mem s') (x + 2) = size_word r True False"
    using ins(2) links s3(3,4) by (simp_all add: same_outside_def)
  have "header (cells (mem s')) x 0 False p" "header (cells (mem s')) (x + 1) r True False"
    using c bf(4) n by (simp_all add: header_def)
  from block_size_cell [OF this(1)] block_size_cell [OF this(2)] block_status_cell(1) [OF this(2)]
  show "block_size (mem s') (ptr x) = 0" "block_is_free (mem s') (ptr (x + 1))" "block_size (mem s') (ptr (x + 1)) = ptr r"
    by (simp_all add: ptr_def)
  show "blocks s' ! fst (size_class r) ! snd (size_class r) = ptr (x + 1)"
    using b tab by (simp add: s' ij insert_free_block_def Let_def tables_ok_def)
qed

section \<open>The call\<close>

text \<open>When the adjusted size is no larger than the block, the block is trimmed in place.\<close>

lemma realloc_shrinks:
  assumes "p \<noteq> 0" "sz \<noteq> 0" "adjust_request_size sz ALIGN_SIZE \<le> block_size (mem s) (block_from_ptr p)"
  shows "tlsf_realloc s p sz = (block_trim_used s (block_from_ptr p) (adjust_request_size sz ALIGN_SIZE), p)"
proof -
  have "\<not> block_size (mem s) (block_from_ptr p) < adjust_request_size sz ALIGN_SIZE" using assms(3) by (simp only: not_less)
  then show ?thesis using assms(1,2) by (simp add: tlsf_realloc_def Let_def)
qed

lemma adjusted_oversize:
  assumes "2 ^ 32 - 8 < unat sz"
  shows "adjust_request_size sz ALIGN_SIZE = (if unat sz + 7 < 2 ^ 64 then 0 else 24)"
proof (cases "unat sz + 7 < 2 ^ 64")
  case True
  then have "request_cells (unat sz) = 0" using request_cells(5) [OF True] assms by blast
  then show ?thesis using request_cells(1) [OF True] True by simp
next
  case False
  then have "unat (adjust_request_size sz ALIGN_SIZE) = unat (24 :: u64)" using tlsf_request_size [of sz] by simp
  then show ?thesis using False by (simp only: word_unat_eq_iff if_False)
qed

lemma trim_to_zero:
  assumes inv: "tlsf_inv N P s B" and x: "B x = Some (n, False)" and n: "4 \<le> n" and y: "B (x + n + 1) = Some (n', f')"
  defines "s' \<equiv> block_trim_used s (ptr x) 0" and "r \<equiv> (if f' then n + n' else n - 1)"
  shows "block_size (mem s') (ptr x) = 0" "block_is_free (mem s') (ptr (x + 1))" "block_size (mem s') (ptr (x + 1)) = ptr r"
    and "blocks s' ! fst (size_class r) ! snd (size_class r) = ptr (x + 1)" "r < 2 ^ 29"
proof -
  have ok: "heap_ok N P s B (free_map B)" using inv by (simp add: tlsf_inv_def)
  note okD = heap_okD [OF ok]
  have pos: "0 < n" using n by simp
  note bf = block_facts [OF okD(2) x pos]
  show r: "r < 2 ^ 29"
  proof (cases f')
    case True
    then have "B (x + n + 1) = Some (n', True)" using y by simp
    note g = grow_facts [OF okD(2) x pos this]
    have "n + n' + 1 < 2 ^ 29" by (rule block_facts(5) [OF g(6,7)]) simp
    then show ?thesis using True by (simp add: r_def)
  next
    case False
    then show ?thesis using bf(5) by (simp add: r_def)
  qed
  have p0: "ptr 0 = 0" by (simp add: ptr_def)
  have can: "block_can_split (mem s) (ptr x) 0"
    using block_can_split_cell [OF headers_header [OF okD(3,2) x], of 0] bf(4) n by (simp add: p0 cell_limit_def)
  obtain m2 where m2: "block_split (mem s) (ptr x) 0 = (m2, ptr (x + 1))"
    "cells (block_set_prev_used m2 (ptr (x + 1))) = (cells (mem s))(x + 1 := size_word 0 False (prev_free B x),
       x + 2 := size_word (n - 1) True False, x + n + 1 := ptr (x + 1), x + n + 2 := size_word n' f' True)"
    by (rule trim_to_zero_split [OF inv x n y])
  obtain s3 F where s3: "block_merge_next (s\<lparr>mem := block_set_prev_used m2 (ptr (x + 1))\<rparr>) (ptr (x + 1)) = (s3, ptr (x + 1))"
    "lists_ok N s3 F" "F \<subseteq>\<^sub>m free_map B" "cells (mem s3) (x + 1) = size_word 0 False (prev_free B x)"
    "cells (mem s3) (x + 2) = size_word r True False"
    unfolding r_def by (rule trim_to_zero_merge [OF inv x n y m2(2)])
  have run: "s' = block_insert s3 (ptr (x + 1))"
    using can m2(1) s3(1) by (simp add: s'_def block_trim_used_def Let_def)
  have r8: "8 * r < 2 ^ 32" using r by simp
  show "block_size (mem s') (ptr x) = 0" "block_is_free (mem s') (ptr (x + 1))" "block_size (mem s') (ptr (x + 1)) = ptr r"
    "blocks s' ! fst (size_class r) ! snd (size_class r) = ptr (x + 1)"
    unfolding run by (rule trim_to_zero_insert [OF inv x n s3(2-5) r8])+
qed

section \<open>Properties\<close>

text \<open>
  C26. \<open>tlsf_realloc\<close> of a live allocation never refuses a size from 4 GiB less 7 on; it returns the old pointer. For the
  last seven sizes below \<open>2^64\<close> the rounding wraps around, and the call does what it does for 24 bytes. For all
  others the adjusted size is 0. Then an allocation of 24 bytes stays as it is, and a larger one is lost to its owner,
  who still has the pointer: its block has size 0, and a free block that starts in it (the header's size field is the
  first word of the owner's memory, the next words its links) takes in the rest, joined with the next block when
  that is free, and is the first of its list, to be served to others.
\<close>

theorem tlsf_realloc_too_large:
  assumes "tlsf_state base P s A" "A p = Some k" "2 ^ 32 - 8 < unat sz"
  defines "block \<equiv> block_from_ptr p" and "rest \<equiv> block_from_ptr p + 8" and "s' \<equiv> fst (tlsf_realloc s p sz)"
  shows "snd (tlsf_realloc s p sz) = p
    \<and> (2 ^ 64 \<le> unat sz + 7 \<longrightarrow> tlsf_realloc s p sz = tlsf_realloc s p 24)
    \<and> (unat sz + 7 < 2 ^ 64 \<longrightarrow>
        (if k = 24 then s' = s
         else tlsf_block_size (mem s') p = 0 \<and> block_is_free (mem s') rest
           \<and> unat (block_size (mem s') rest) =
               (if block_is_free (mem s) (block_next (mem s) block)
                then k + unat (block_size (mem s) (block_next (mem s) block)) else k - 8)
           \<and> (case mapping_insert (block_size (mem s') rest) of (fl, sl) \<Rightarrow> blocks s' ! fl ! sl = rest)))"
proof -
  obtain N B where b: "base = ptr N" "N + 817 \<le> cell_limit" "tlsf_inv N P s B" "A = allocations B" "segments P B"
    "unat base = 8 * N" "control_apart N P"
    by (rule tlsf_stateE [OF assms(1)])
  have Ap: "allocations B p = Some k" using assms(2) b(4) by simp
  obtain x n where x: "p = ptr (x + 2)" "B x = Some (n, False)" "k = 8 * n" "0 < n" "unat p = 8 * (x + 2)"
    "{x + 1 .. x + n + 2} \<subseteq> pool_cells P" "3 \<le> n" "x + n + 2 < cell_limit"
    by (rule live_block [OF b(5) Ap])
  obtain n' f' where y: "B (x + n + 1) = Some (n', f')" using block_facts(7) [OF b(5) x(2,4)] by blast
  have "unat (24 :: u64) + 7 < 2 ^ 64" by simp
  note f = realloc_facts [OF b(3) x(2,4) this y]
  have nlim: "unat (ptr n) = 8 * n" using x(8) by (intro unat_ptr) simp
  have nz: "p \<noteq> 0" "sz \<noteq> 0" using x(5) assms(3) by auto
  have "24 \<le> ptr n" using x(7) nlim by (simp add: word_le_nat_alt)
  then have run: "tlsf_realloc s p sz = (block_trim_used s (ptr x) (if unat sz + 7 < 2 ^ 64 then 0 else 24), p)"
    using realloc_shrinks [of p sz s] nz f(3) adjusted_oversize [OF assms(3)] by (simp add: x(1))
  have "adjust_request_size 24 ALIGN_SIZE = 24" by code_simp
  then have run24: "tlsf_realloc s p 24 = (block_trim_used s (ptr x) 24, p)"
    using realloc_shrinks [of p 24 s] nz f(3) \<open>24 \<le> ptr n\<close> by (simp add: x(1))
  have "if k = 24 then s' = s
      else tlsf_block_size (mem s') p = 0 \<and> block_is_free (mem s') rest
        \<and> unat (block_size (mem s') rest) =
            (if block_is_free (mem s) (block_next (mem s) block)
             then k + unat (block_size (mem s) (block_next (mem s) block)) else k - 8)
        \<and> (case mapping_insert (block_size (mem s') rest) of (fl, sl) \<Rightarrow> blocks s' ! fl ! sl = rest)"
    if small: "unat sz + 7 < 2 ^ 64"
  proof -
    have s': "s' = block_trim_used s (ptr x) 0" using run small by (simp add: s'_def)
    have rest: "rest = ptr (x + 1)" by (simp add: rest_def x(1) ptr_add)
    show ?thesis
    proof (cases "n = 3")
      case True
      have ok: "heap_ok N P s B (free_map B)" using b(3) by (simp add: tlsf_inv_def)
      have "\<not> block_can_split (mem s) (ptr x) (ptr 0)"
        using block_can_split_cell [OF headers_header [OF heap_okD(3) [OF ok] b(5) x(2)], of 0] True
        by (simp add: cell_limit_def)
      then show ?thesis using True by (simp add: s' block_trim_used_def x(3) ptr_def)
    next
      case False
      then have n4: "4 \<le> n" using x(7) by simp
      define r where "r = (if f' then n + n' else n - 1)"
      note t = trim_to_zero [OF b(3) x(2) n4 y, folded s' r_def]
      have n'lim: "unat (ptr n') = 8 * n'" if f'
        using t(5) that by (intro unat_ptr) (simp add: r_def cell_limit_def)
      have "unat (ptr r) = 8 * r" using t(5) by (intro unat_ptr) (simp add: cell_limit_def)
      then have "unat (block_size (mem s') rest) =
          (if block_is_free (mem s) (block_next (mem s) block)
           then k + unat (block_size (mem s) (block_next (mem s) block)) else k - 8)"
        using n'lim by (simp add: rest t(3) r_def x(1,3) block_def f(2,5,6) diff_mult_distrib2)
      moreover have "tlsf_block_size (mem s') p = 0" using t(1) nz(1) by (simp add: tlsf_block_size_def x(1))
      moreover have "case mapping_insert (block_size (mem s') rest) of (fl, sl) \<Rightarrow> blocks s' ! fl ! sl = rest"
        using t(4) by (simp add: rest t(3) size_class_def split_beta)
      ultimately show ?thesis using t(2) False x(3) by (simp add: rest)
    qed
  qed
  then show ?thesis using run run24 by simp
qed

theorem tlsf_realloc_too_large_witness:
  "\<exists>s s' p s''. tlsf_create_with_pool (\<lambda>_. 0) 0x80000000 0x4000000 = Some (Some s) \<and> tlsf_malloc s 100 = (s', p) \<and> p \<noteq> 0
    \<and> 100 \<le> unat (tlsf_block_size (mem s') p)
    \<and> tlsf_realloc s' p 0x100000000 = (s'', p) \<and> tlsf_block_size (mem s'') p = 0 \<and> block_is_free (mem s'') (block_from_ptr p + 8)"
proof -
  obtain s s' p where s: "tlsf_create_with_pool (\<lambda>_. 0) 0x80000000 0x4000000 = Some (Some s)"
    "tlsf_state 0x80000000 (arena_pool 0x80000000 0x4000000) s (sizes Map.empty)" "tlsf_malloc s 100 = (s', p)" "p \<noteq> 0"
    by (rule malloc_example)
  have sz: "unat (100 :: u64) + 7 < 2 ^ 64" by simp
  obtain k where k: "unat (100 :: u64) \<le> k" "tlsf_state 0x80000000 (arena_pool 0x80000000 0x4000000) s' ((sizes Map.empty)(p \<mapsto> k))"
    by (rule tlsf_malloc_fresh [OF s(2) sz s(3,4)])
  have p: "((sizes Map.empty)(p \<mapsto> k)) p = Some k" "k \<noteq> 24" using k(1) by auto
  obtain s'' q where r: "tlsf_realloc s' p 0x100000000 = (s'', q)" by fastforce
  have "q = p \<and> tlsf_block_size (mem s'') p = 0 \<and> block_is_free (mem s'') (block_from_ptr p + 8)"
    using tlsf_realloc_too_large [OF k(2) p(1), where sz = "0x100000000"] p(2) r by simp
  then show ?thesis using s r tlsf_block_size_contract [OF k(2) p(1)] k(1) by auto
qed

end
