(* ===== verification/UacpiKernel.thy ===== *)
theory UacpiKernel imports TlsfArena begin

text \<open>
  The services that \<open>uacpi_kernel.c\<close> gives to uACPI: the RSDP search, the heap (an arena from the firmware, taken
  at the first call and managed by \<open>tlsf.c\<close>), time, port and register access, and the operations that the
  firmware environment makes trivial. The heap is the second instance of the interface \<open>allocator\<close>.
\<close>

unbundle bit_operations_syntax

section \<open>Status values\<close>

text \<open>The status names that the file uses; their numbers are uACPI's and are never used.\<close>

datatype uacpi_status = UACPI_STATUS_OK | UACPI_STATUS_NOT_FOUND | UACPI_STATUS_OUT_OF_MEMORY

definition UACPI_TRUE :: u8 where "UACPI_TRUE = 1"

definition EFI_SUCCESS :: u64 where "EFI_SUCCESS = 0"

section \<open>The RSDP\<close>

text \<open>The status and \<open>*out_rsdp_address\<close>, which keeps its value \<open>out\<close> when nothing is found.\<close>

fun uacpi_kernel_get_rsdp ::
    "memory \<Rightarrow> bytes \<Rightarrow> bytes \<Rightarrow> config_entry list \<Rightarrow> u64 \<Rightarrow> uacpi_status \<times> u64" where
  "uacpi_kernel_get_rsdp m acpi_guid acpi2_guid [] out = (UACPI_STATUS_NOT_FOUND, out)"
| "uacpi_kernel_get_rsdp m acpi_guid acpi2_guid (p_table # config) out =
     (if VendorGuid p_table \<noteq> acpi_guid \<and> VendorGuid p_table \<noteq> acpi2_guid
      then uacpi_kernel_get_rsdp m acpi_guid acpi2_guid config out
      else if mem_bytes m (VendorTable p_table) 8 \<noteq> str ''RSD PTR ''
      then uacpi_kernel_get_rsdp m acpi_guid acpi2_guid config out
      else (UACPI_STATUS_OK, VendorTable p_table))"

text \<open>The first entry under either GUID that has the signature decides.\<close>

definition is_rsdp :: "memory \<Rightarrow> bytes \<Rightarrow> bytes \<Rightarrow> config_entry \<Rightarrow> bool" where
  "is_rsdp m g1 g2 e \<longleftrightarrow> VendorGuid e \<in> {g1, g2} \<and> mem_bytes m (VendorTable e) 8 = str ''RSD PTR ''"

lemma uacpi_kernel_get_rsdp_find:
  "uacpi_kernel_get_rsdp m g1 g2 config out =
     (case find (is_rsdp m g1 g2) config of None \<Rightarrow> (UACPI_STATUS_NOT_FOUND, out)
      | Some e \<Rightarrow> (UACPI_STATUS_OK, VendorTable e))"
  by (induction config) (auto simp: is_rsdp_def)

section \<open>The log\<close>

text \<open>
  The levels are numbers of uACPI and the colours are bits of the UEFI headers, so both are parameters. The log is
  what it does to the console, in order.
\<close>

record log_levels =
  UACPI_LOG_ERROR :: int
  UACPI_LOG_WARN :: int
  UACPI_LOG_INFO :: int
  UACPI_LOG_TRACE :: int
  UACPI_LOG_DEBUG :: int

record console_colours =
  EFI_RED :: u64
  EFI_GREEN :: u64
  EFI_BLUE :: u64
  EFI_YELLOW :: u64
  EFI_BRIGHT :: u64

datatype console_event = SetAttribute u64 | Printf bytes

definition uacpi_kernel_log :: "log_levels \<Rightarrow> console_colours \<Rightarrow> int \<Rightarrow> bytes \<Rightarrow> console_event list" where
  "uacpi_kernel_log L C lv fmt =
     (if lv \<ge> UACPI_LOG_INFO L then []
      else
        (if lv = UACPI_LOG_ERROR L then
           [SetAttribute (EFI_RED C OR EFI_BRIGHT C), Printf (str ''uACPI ERROR: '' @ fmt)]
         else if lv = UACPI_LOG_WARN L then
           [SetAttribute (EFI_YELLOW C OR EFI_BRIGHT C), Printf (str ''uACPI WARNING: '' @ fmt)]
         else if lv = UACPI_LOG_INFO L then
           [SetAttribute (EFI_RED C OR EFI_GREEN C OR EFI_BLUE C), Printf (str ''uACPI INFO: '' @ fmt)]
         else if lv = UACPI_LOG_TRACE L then
           [SetAttribute (EFI_GREEN C OR EFI_BLUE C OR EFI_BRIGHT C), Printf (str ''uACPI TRACE: '' @ fmt)]
         else if lv = UACPI_LOG_DEBUG L then
           [SetAttribute (EFI_GREEN C OR EFI_BLUE C), Printf (str ''uACPI DEBUG: '' @ fmt)]
         else [])
        @ [SetAttribute (EFI_RED C OR EFI_GREEN C OR EFI_BLUE C)])"

text \<open>
  With the levels in the order of their severity, errors and warnings print one message and leave the console in
  its normal colour, and everything else is silent.
\<close>

lemma uacpi_kernel_log_levels:
  assumes "UACPI_LOG_ERROR L < UACPI_LOG_WARN L" "UACPI_LOG_WARN L < UACPI_LOG_INFO L"
    "UACPI_LOG_INFO L < UACPI_LOG_TRACE L" "UACPI_LOG_TRACE L < UACPI_LOG_DEBUG L"
  shows "\<exists>c msg. uacpi_kernel_log L C (UACPI_LOG_ERROR L) fmt = [SetAttribute c, Printf (msg @ fmt),
      SetAttribute (EFI_RED C OR EFI_GREEN C OR EFI_BLUE C)]"
    and "\<exists>c msg. uacpi_kernel_log L C (UACPI_LOG_WARN L) fmt = [SetAttribute c, Printf (msg @ fmt),
      SetAttribute (EFI_RED C OR EFI_GREEN C OR EFI_BLUE C)]"
    and "lv \<in> {UACPI_LOG_INFO L, UACPI_LOG_TRACE L, UACPI_LOG_DEBUG L} \<Longrightarrow> uacpi_kernel_log L C lv fmt = []"
  using assms by (auto simp: uacpi_kernel_log_def)

section \<open>Memory maps\<close>

text \<open>Physical and virtual addresses are the same in the firmware environment.\<close>

definition uacpi_kernel_map :: "u64 \<Rightarrow> u64 \<Rightarrow> u64" where "uacpi_kernel_map addr len = addr"
definition uacpi_kernel_unmap :: "u64 \<Rightarrow> u64 \<Rightarrow> 's \<Rightarrow> 's" where "uacpi_kernel_unmap addr len s = s"

section \<open>The heap\<close>

text \<open>
  The static variables \<open>arena\<close> and \<open>uacpi_kernel_tlsf\<close> (\<open>None\<close> for the null pointer) and the memory. Once the
  allocator exists, its record holds the memory.
\<close>

record uacpi_kernel =
  arena :: u64
  uacpi_kernel_tlsf :: "control_t option"
  unmanaged :: memory

definition kernel_memory :: "uacpi_kernel \<Rightarrow> memory" where
  "kernel_memory s = (case uacpi_kernel_tlsf s of None \<Rightarrow> unmanaged s | Some control \<Rightarrow> mem control)"

text \<open>
  Boot services: \<open>AllocatePool\<close> maps a size to the status and the address that it stores, \<open>FreePool\<close> returns a
  status. Both are the firmware's. An environment gives the same answer to the same size each time; a firmware that
  refuses first and grants later is a run under one environment followed by a run under another, since the theorems
  start from any state in which there is no arena.
\<close>

record boot_services =
  AllocatePool :: "u64 \<Rightarrow> u64 \<times> u64"
  FreePool :: "u64 \<Rightarrow> u64"

definition UACPI_KERNEL_ARENA_SIZE :: u64 where "UACPI_KERNEL_ARENA_SIZE = 64 * 1024 * 1024"

text \<open>The new state and the result; \<open>None\<close> is undefined behaviour inside of the allocator.\<close>

definition init_arena_once :: "boot_services \<Rightarrow> uacpi_kernel \<Rightarrow> (uacpi_kernel \<times> int) option" where
  "init_arena_once BS s =
     (if uacpi_kernel_tlsf s \<noteq> None then Some (s, 0)
      else
        let (ret, a) = AllocatePool BS UACPI_KERNEL_ARENA_SIZE;
            s = s\<lparr>arena := a\<rparr>
        in if ret \<noteq> EFI_SUCCESS then Some (s, -1)
           else case tlsf_create_with_pool (unmanaged s) (arena s) UACPI_KERNEL_ARENA_SIZE of
               None \<Rightarrow> None
             | Some None \<Rightarrow> Some (s, -1)
             | Some (Some control) \<Rightarrow> Some (s\<lparr>uacpi_kernel_tlsf := Some control\<rparr>, 0))"

definition uacpi_kernel_initialize :: "boot_services \<Rightarrow> uacpi_kernel \<Rightarrow> (uacpi_kernel \<times> uacpi_status) option" where
  "uacpi_kernel_initialize BS s =
     map_option (\<lambda>(s, ret). (s, if ret = 0 then UACPI_STATUS_OK else UACPI_STATUS_OUT_OF_MEMORY)) (init_arena_once BS s)"

text \<open>The status of \<open>FreePool\<close> only decides whether a message is printed; it is the second component here.\<close>

definition uacpi_kernel_deinitialize :: "boot_services \<Rightarrow> uacpi_kernel \<Rightarrow> uacpi_kernel \<times> bool" where
  "uacpi_kernel_deinitialize BS s =
     (let m = (case tlsf_destroy (uacpi_kernel_tlsf s) of None \<Rightarrow> unmanaged s | Some control \<Rightarrow> mem control);
          s = s\<lparr>uacpi_kernel_tlsf := None, unmanaged := m\<rparr>;
          ret = FreePool BS (arena s)
      in (s\<lparr>arena := 0\<rparr>, ret \<noteq> EFI_SUCCESS))"

definition uacpi_kernel_alloc :: "boot_services \<Rightarrow> uacpi_kernel \<Rightarrow> u64 \<Rightarrow> (uacpi_kernel \<times> u64) option" where
  "uacpi_kernel_alloc BS s sz =
     (case init_arena_once BS s of
        None \<Rightarrow> None
      | Some (s, ret) \<Rightarrow>
          if ret \<noteq> 0 then Some (s, 0)
          else case uacpi_kernel_tlsf s of
              None \<Rightarrow> None
            | Some control \<Rightarrow> let (control, p) = tlsf_malloc control sz in Some (s\<lparr>uacpi_kernel_tlsf := Some control\<rparr>, p))"

definition uacpi_kernel_free :: "uacpi_kernel \<Rightarrow> u64 \<Rightarrow> uacpi_kernel option" where
  "uacpi_kernel_free s p =
     (if p = 0 then Some s
      else case uacpi_kernel_tlsf s of
          None \<Rightarrow> None
        | Some control \<Rightarrow> Some (s\<lparr>uacpi_kernel_tlsf := Some (tlsf_free control p)\<rparr>))"

section \<open>Time\<close>

text \<open>
  \<open>freq\<close> is the static variable, \<open>cntfrq\<close> and \<open>cntpct\<close> the values of the counter registers. The result is
  \<open>None\<close> for a division by zero.
\<close>

definition uacpi_kernel_get_nanoseconds_since_boot :: "u64 \<Rightarrow> u64 \<Rightarrow> u64 \<Rightarrow> (u64 \<times> u64) option" where
  "uacpi_kernel_get_nanoseconds_since_boot freq cntfrq cntpct =
     (let freq = (if freq = 0 then cntfrq else freq); ticks = cntpct
      in if freq = 0 then None else Some (freq, (ticks * 1000000000) div freq))"

text \<open>The microseconds that are handed to \<open>BS->Stall\<close>.\<close>

definition uacpi_kernel_sleep :: "u64 \<Rightarrow> u64" where "uacpi_kernel_sleep msec = msec * 1000"
definition uacpi_kernel_stall :: "u8 \<Rightarrow> u64" where "uacpi_kernel_stall usec = ucast usec"

section \<open>Registers\<close>

definition uacpi_kernel_io_map :: "u64 \<Rightarrow> u64 \<Rightarrow> uacpi_status \<times> u64" where
  "uacpi_kernel_io_map base len = (UACPI_STATUS_OK, base)"

definition uacpi_kernel_io_unmap :: "u64 \<Rightarrow> 's \<Rightarrow> 's" where "uacpi_kernel_io_unmap handle s = s"

definition uacpi_kernel_io_read8 :: "memory \<Rightarrow> u64 \<Rightarrow> u64 \<Rightarrow> uacpi_status \<times> u8" where
  "uacpi_kernel_io_read8 m handle offset = (UACPI_STATUS_OK, load 1 m (handle + offset))"

definition uacpi_kernel_io_read16 :: "memory \<Rightarrow> u64 \<Rightarrow> u64 \<Rightarrow> uacpi_status \<times> u16" where
  "uacpi_kernel_io_read16 m handle offset = (UACPI_STATUS_OK, load16 m (handle + offset))"

definition uacpi_kernel_io_read32 :: "memory \<Rightarrow> u64 \<Rightarrow> u64 \<Rightarrow> uacpi_status \<times> u32" where
  "uacpi_kernel_io_read32 m handle offset = (UACPI_STATUS_OK, load32 m (handle + offset))"

definition uacpi_kernel_io_write8 :: "memory \<Rightarrow> u64 \<Rightarrow> u64 \<Rightarrow> u8 \<Rightarrow> memory \<times> uacpi_status" where
  "uacpi_kernel_io_write8 m handle offset in_value = (store 1 m (handle + offset) in_value, UACPI_STATUS_OK)"

definition uacpi_kernel_io_write16 :: "memory \<Rightarrow> u64 \<Rightarrow> u64 \<Rightarrow> u16 \<Rightarrow> memory \<times> uacpi_status" where
  "uacpi_kernel_io_write16 m handle offset in_value = (store16 m (handle + offset) in_value, UACPI_STATUS_OK)"

definition uacpi_kernel_io_write32 :: "memory \<Rightarrow> u64 \<Rightarrow> u64 \<Rightarrow> u32 \<Rightarrow> memory \<times> uacpi_status" where
  "uacpi_kernel_io_write32 m handle offset in_value = (store32 m (handle + offset) in_value, UACPI_STATUS_OK)"

section \<open>PCI\<close>

text \<open>\<open>*out_handle\<close> keeps its value \<open>out\<close>; configuration reads see all ones, writes go nowhere.\<close>

definition uacpi_kernel_pci_device_open :: "'a \<Rightarrow> u64 \<Rightarrow> uacpi_status \<times> u64" where
  "uacpi_kernel_pci_device_open address out = (UACPI_STATUS_OK, out)"

definition uacpi_kernel_pci_device_close :: "u64 \<Rightarrow> 's \<Rightarrow> 's" where "uacpi_kernel_pci_device_close handle s = s"

definition uacpi_kernel_pci_read8 :: "u64 \<Rightarrow> u64 \<Rightarrow> uacpi_status \<times> u8" where
  "uacpi_kernel_pci_read8 device offset = (UACPI_STATUS_OK, 0xFF)"
definition uacpi_kernel_pci_read16 :: "u64 \<Rightarrow> u64 \<Rightarrow> uacpi_status \<times> u16" where
  "uacpi_kernel_pci_read16 device offset = (UACPI_STATUS_OK, 0xFFFF)"
definition uacpi_kernel_pci_read32 :: "u64 \<Rightarrow> u64 \<Rightarrow> uacpi_status \<times> u32" where
  "uacpi_kernel_pci_read32 device offset = (UACPI_STATUS_OK, 0xFFFFFFFF)"

definition uacpi_kernel_pci_write8 :: "u64 \<Rightarrow> u64 \<Rightarrow> u8 \<Rightarrow> 's \<Rightarrow> 's \<times> uacpi_status" where
  "uacpi_kernel_pci_write8 device offset v s = (s, UACPI_STATUS_OK)"
definition uacpi_kernel_pci_write16 :: "u64 \<Rightarrow> u64 \<Rightarrow> u16 \<Rightarrow> 's \<Rightarrow> 's \<times> uacpi_status" where
  "uacpi_kernel_pci_write16 device offset v s = (s, UACPI_STATUS_OK)"
definition uacpi_kernel_pci_write32 :: "u64 \<Rightarrow> u64 \<Rightarrow> u32 \<Rightarrow> 's \<Rightarrow> 's \<times> uacpi_status" where
  "uacpi_kernel_pci_write32 device offset v s = (s, UACPI_STATUS_OK)"

section \<open>Synchronisation and events\<close>

text \<open>The program has one thread and no interrupts: locks are always free, waits succeed at once.\<close>

definition uacpi_kernel_create_mutex :: u64 where "uacpi_kernel_create_mutex = 1"
definition uacpi_kernel_free_mutex :: "u64 \<Rightarrow> 's \<Rightarrow> 's" where "uacpi_kernel_free_mutex handle s = s"
definition uacpi_kernel_acquire_mutex :: "u64 \<Rightarrow> u16 \<Rightarrow> 's \<Rightarrow> 's \<times> uacpi_status" where
  "uacpi_kernel_acquire_mutex handle timeout s = (s, UACPI_STATUS_OK)"
definition uacpi_kernel_release_mutex :: "u64 \<Rightarrow> 's \<Rightarrow> 's" where "uacpi_kernel_release_mutex handle s = s"

definition uacpi_kernel_create_event :: u64 where "uacpi_kernel_create_event = 0"
definition uacpi_kernel_free_event :: "u64 \<Rightarrow> 's \<Rightarrow> 's" where "uacpi_kernel_free_event handle s = s"
definition uacpi_kernel_wait_for_event :: "u64 \<Rightarrow> u16 \<Rightarrow> 's \<Rightarrow> 's \<times> u8" where
  "uacpi_kernel_wait_for_event handle timeout s = (s, UACPI_TRUE)"
definition uacpi_kernel_signal_event :: "u64 \<Rightarrow> 's \<Rightarrow> 's" where "uacpi_kernel_signal_event handle s = s"
definition uacpi_kernel_reset_event :: "u64 \<Rightarrow> 's \<Rightarrow> 's" where "uacpi_kernel_reset_event handle s = s"
definition uacpi_kernel_handle_firmware_request :: "'a \<Rightarrow> 's \<Rightarrow> 's \<times> uacpi_status" where
  "uacpi_kernel_handle_firmware_request req s = (s, UACPI_STATUS_OK)"

definition uacpi_kernel_create_spinlock :: u64 where "uacpi_kernel_create_spinlock = 1"
definition uacpi_kernel_free_spinlock :: "u64 \<Rightarrow> 's \<Rightarrow> 's" where "uacpi_kernel_free_spinlock handle s = s"
definition uacpi_kernel_lock_spinlock :: "u64 \<Rightarrow> 's \<Rightarrow> 's \<times> u64" where "uacpi_kernel_lock_spinlock handle s = (s, 0)"
definition uacpi_kernel_unlock_spinlock :: "u64 \<Rightarrow> u64 \<Rightarrow> 's \<Rightarrow> 's" where
  "uacpi_kernel_unlock_spinlock handle flags s = s"
definition uacpi_kernel_get_thread_id :: u64 where "uacpi_kernel_get_thread_id = 1"
definition uacpi_kernel_disable_interrupts :: "'s \<Rightarrow> 's \<times> u64" where "uacpi_kernel_disable_interrupts s = (s, 0)"
definition uacpi_kernel_restore_interrupts :: "u64 \<Rightarrow> 's \<Rightarrow> 's" where "uacpi_kernel_restore_interrupts state s = s"

text \<open>The status and \<open>*out_irq_handle\<close>.\<close>

definition uacpi_kernel_install_interrupt_handler :: "u32 \<Rightarrow> u64 \<Rightarrow> u64 \<Rightarrow> uacpi_status \<times> u64" where
  "uacpi_kernel_install_interrupt_handler irq handler ctx = (UACPI_STATUS_OK, 0)"
definition uacpi_kernel_uninstall_interrupt_handler :: "u64 \<Rightarrow> u64 \<Rightarrow> 's \<Rightarrow> 's \<times> uacpi_status" where
  "uacpi_kernel_uninstall_interrupt_handler handler irq_handle s = (s, UACPI_STATUS_OK)"
definition uacpi_kernel_schedule_work :: "'a \<Rightarrow> u64 \<Rightarrow> u64 \<Rightarrow> 's \<Rightarrow> 's \<times> uacpi_status" where
  "uacpi_kernel_schedule_work type handler ctx s = (s, UACPI_STATUS_OK)"
definition uacpi_kernel_wait_for_work_completion :: "'s \<Rightarrow> 's \<times> uacpi_status" where
  "uacpi_kernel_wait_for_work_completion s = (s, UACPI_STATUS_OK)"

section \<open>The heap as an instance of the heap interface\<close>

text \<open>
  What the UEFI specification promises of \<open>AllocatePool\<close>: a successful allocation is 8-byte aligned and lies in
  the address space.
\<close>

definition pool_ok :: "boot_services \<Rightarrow> bool" where
  "pool_ok BS \<longleftrightarrow> (\<forall>sz a. AllocatePool BS sz = (EFI_SUCCESS, a) \<longrightarrow> unat a mod 8 = 0 \<and> unat a + unat sz < 2 ^ 64)"

text \<open>The state with the live allocations: none before the arena exists.\<close>

definition kernel_holds :: "boot_services \<Rightarrow> uacpi_kernel \<Rightarrow> allocations \<Rightarrow> bool" where
  "kernel_holds BS s A \<longleftrightarrow> pool_ok BS
     \<and> (case uacpi_kernel_tlsf s of
          None \<Rightarrow> A = Map.empty
        | Some control \<Rightarrow> tlsf_state (arena s) (arena_pool (arena s) UACPI_KERNEL_ARENA_SIZE) control A)"

definition kernel_capacity :: "uacpi_kernel \<Rightarrow> u64 \<Rightarrow> nat" where
  "kernel_capacity s p = unat (tlsf_block_size (kernel_memory s) p)"

definition kernel_poke :: "uacpi_kernel \<Rightarrow> u64 \<Rightarrow> u8 \<Rightarrow> uacpi_kernel" where
  "kernel_poke s a v =
     (case uacpi_kernel_tlsf s of
        None \<Rightarrow> s\<lparr>unmanaged := (unmanaged s)(a := v)\<rparr>
      | Some control \<Rightarrow> s\<lparr>uacpi_kernel_tlsf := Some (tlsf_poke control a v)\<rparr>)"

text \<open>The calls with the undefined behaviour mapped to no change; \<open>uacpi_heap_correct\<close> shows that it never happens.\<close>

definition kernel_malloc :: "boot_services \<Rightarrow> uacpi_kernel \<Rightarrow> u64 \<Rightarrow> uacpi_kernel \<times> u64" where
  "kernel_malloc BS s sz = (case uacpi_kernel_alloc BS s sz of None \<Rightarrow> (s, 0) | Some r \<Rightarrow> r)"

definition kernel_free :: "uacpi_kernel \<Rightarrow> u64 \<Rightarrow> uacpi_kernel" where
  "kernel_free s p = (case uacpi_kernel_free s p of None \<Rightarrow> s | Some s \<Rightarrow> s)"

lemma arena_fits:
  assumes "pool_ok BS" "AllocatePool BS UACPI_KERNEL_ARENA_SIZE = (EFI_SUCCESS, a)"
  shows "arena_ok a UACPI_KERNEL_ARENA_SIZE"
proof -
  have "unat a mod 8 = 0 \<and> unat a + unat UACPI_KERNEL_ARENA_SIZE < 2 ^ 64"
    using assms unfolding pool_ok_def by blast
  then show ?thesis by (simp add: arena_ok_def UACPI_KERNEL_ARENA_SIZE_def)
qed

text \<open>The three results of the initialisation: done before, refused by the firmware, or a new arena.\<close>

lemma init_arena_cases:
  assumes "kernel_holds BS s A"
  obtains (ready) control where "init_arena_once BS s = Some (s, 0)" "uacpi_kernel_tlsf s = Some control"
      "tlsf_state (arena s) (arena_pool (arena s) UACPI_KERNEL_ARENA_SIZE) control A"
  | (refused) ret a where "AllocatePool BS UACPI_KERNEL_ARENA_SIZE = (ret, a)" "ret \<noteq> EFI_SUCCESS"
      "init_arena_once BS s = Some (s\<lparr>arena := a\<rparr>, -1)" "uacpi_kernel_tlsf s = None" "A = Map.empty"
  | (created) a control where "AllocatePool BS UACPI_KERNEL_ARENA_SIZE = (EFI_SUCCESS, a)"
      "init_arena_once BS s = Some (s\<lparr>arena := a, uacpi_kernel_tlsf := Some control\<rparr>, 0)"
      "uacpi_kernel_tlsf s = None" "A = Map.empty"
      "tlsf_state a (arena_pool a UACPI_KERNEL_ARENA_SIZE) control Map.empty"
proof (cases "uacpi_kernel_tlsf s")
  case (Some control)
  then show ?thesis using assms ready by (simp add: init_arena_once_def kernel_holds_def)
next
  case None
  then have A: "A = Map.empty" and ok: "pool_ok BS" using assms by (simp_all add: kernel_holds_def)
  obtain ret a where ap: "AllocatePool BS UACPI_KERNEL_ARENA_SIZE = (ret, a)" by fastforce
  show ?thesis
  proof (cases "ret = EFI_SUCCESS")
    case False
    then show ?thesis using refused ap None A by (simp add: init_arena_once_def)
  next
    case True
    obtain control where "tlsf_create_with_pool (unmanaged s) a UACPI_KERNEL_ARENA_SIZE = Some (Some control)"
      "tlsf_state a (arena_pool a UACPI_KERNEL_ARENA_SIZE) control Map.empty"
      by (rule arena_create [OF arena_fits [OF ok ap [unfolded True]]])
    then show ?thesis using created ap None A True by (simp add: init_arena_once_def)
  qed
qed

lemma kernel_alloc_run:
  assumes "init_arena_once BS s = Some (s', 0)" "uacpi_kernel_tlsf s' = Some control" "tlsf_malloc control sz = (c, p)"
  shows "uacpi_kernel_alloc BS s sz = Some (s'\<lparr>uacpi_kernel_tlsf := Some c\<rparr>, p)"
  using assms by (simp add: uacpi_kernel_alloc_def)

lemma kernel_free_run:
  assumes "uacpi_kernel_tlsf s = Some control"
  shows "uacpi_kernel_free s p = Some (s\<lparr>uacpi_kernel_tlsf := Some (tlsf_free control p)\<rparr>)"
  using assms by (auto simp: uacpi_kernel_free_def tlsf_free_def)

text \<open>An allocation, in terms of the allocator.\<close>

lemma kernel_alloc_cases:
  assumes "kernel_holds BS s A"
  obtains (none) s' where "uacpi_kernel_alloc BS s sz = Some (s', 0)" "uacpi_kernel_tlsf s' = None"
      "A = Map.empty"
  | (served) s' a control c p where "uacpi_kernel_alloc BS s sz = Some (s', p)" "tlsf_malloc control sz = (c, p)"
      "uacpi_kernel_tlsf s' = Some c" "arena s' = a"
      "tlsf_state a (arena_pool a UACPI_KERNEL_ARENA_SIZE) control A" "A = Map.empty \<or> mem control = kernel_memory s"
  using assms
proof (cases rule: init_arena_cases)
  case (ready control)
  obtain c p where "tlsf_malloc control sz = (c, p)" by fastforce
  then show ?thesis
    using served [OF kernel_alloc_run [OF ready(1,2)]] ready by (simp add: kernel_memory_def)
next
  case (refused ret a)
  then show ?thesis using none by (simp add: uacpi_kernel_alloc_def)
next
  case (created a control)
  obtain c p where "tlsf_malloc control sz = (c, p)" by fastforce
  then show ?thesis
    using served [OF kernel_alloc_run [OF created(2)]] created by simp
qed

lemma kernel_live:
  assumes "kernel_holds BS s A" "A p = Some k"
  obtains control where "uacpi_kernel_tlsf s = Some control"
    "tlsf_state (arena s) (arena_pool (arena s) UACPI_KERNEL_ARENA_SIZE) control A" "kernel_memory s = mem control"
  using assms by (cases "uacpi_kernel_tlsf s") (simp_all add: kernel_holds_def kernel_memory_def)

interpretation uacpi: allocator "kernel_holds BS" kernel_memory kernel_capacity "kernel_malloc BS" kernel_free kernel_poke
  for BS
proof
  fix s s' :: uacpi_kernel and A :: allocations and p q a sz :: u64 and k j :: nat and v :: u8
  show "kernel_memory (kernel_poke s a v) = (kernel_memory s)(a := v)"
    by (simp add: kernel_memory_def kernel_poke_def split: option.splits)
  show "kernel_free s 0 = s" by (simp add: kernel_free_def uacpi_kernel_free_def)
  assume h: "kernel_holds BS s A"
  note ok = h [unfolded kernel_holds_def, THEN conjunct1]
  show "p \<noteq> 0 \<and> unat p mod 8 = 0 \<and> unat p + k < 2 ^ 64" if "A p = Some k"
    by (rule kernel_live [OF h that]) (use tlsf.live_bounds that in blast)
  show "region p k \<inter> region q j = {}" if "A p = Some k" "A q = Some j" "p \<noteq> q"
    by (rule kernel_live [OF h that(1)]) (use tlsf.live_disjoint that in blast)
  show "kernel_capacity s p = k" if "A p = Some k"
    by (rule kernel_live [OF h that]) (use tlsf_block_size_contract that in \<open>simp add: kernel_capacity_def\<close>)
  show "kernel_holds BS s' A" if "unat sz + 7 < 2 ^ 64" "kernel_malloc BS s sz = (s', 0)"
    using h
  proof (cases rule: kernel_alloc_cases [where sz = sz])
    case (none s1)
    then show ?thesis using that(2) ok by (simp add: kernel_malloc_def kernel_holds_def)
  next
    case (served s1 a control c p)
    then show ?thesis using that ok tlsf.malloc_null by (auto simp: kernel_malloc_def kernel_holds_def)
  qed
  show "A p = None \<and> (\<exists>k\<ge>unat sz. kernel_holds BS s' (A(p \<mapsto> k)))"
    if "unat sz + 7 < 2 ^ 64" "kernel_malloc BS s sz = (s', p)" "p \<noteq> 0"
    using h
  proof (cases rule: kernel_alloc_cases [where sz = sz])
    case (none s1)
    then show ?thesis using that(2,3) by (simp add: kernel_malloc_def)
  next
    case (served s1 a control c p')
    then have "A p = None \<and> (\<exists>k\<ge>unat sz. tlsf_state (arena s') (arena_pool (arena s') UACPI_KERNEL_ARENA_SIZE) c (A(p \<mapsto> k)))"
      using that by (intro tlsf.malloc_fresh) (simp_all add: kernel_malloc_def)
    moreover have "uacpi_kernel_tlsf s' = Some c" using served(1,3) that(2) by (simp add: kernel_malloc_def)
    ultimately show ?thesis using ok by (simp add: kernel_holds_def)
  qed
  show "kernel_memory s' a = kernel_memory s a"
    if m: "unat sz + 7 < 2 ^ 64" "kernel_malloc BS s sz = (s', p)" and q: "A q = Some j" "unat a \<in> region q j"
    using h
  proof (cases rule: kernel_alloc_cases [where sz = sz])
    case (none s1)
    then show ?thesis using q by simp
  next
    case (served s1 b control c p')
    then have "mem c a = mem control a" by (intro tlsf.malloc_keeps [OF served(5) m(1) _ q])
    then show ?thesis using served q(1) m(2) by (auto simp: kernel_malloc_def kernel_memory_def)
  qed
  show "kernel_holds BS (kernel_free s p) (A(p := None))" if "A p = Some k"
    by (rule kernel_live [OF h that])
      (use ok tlsf.free_holds that in \<open>simp add: kernel_free_def kernel_free_run kernel_holds_def\<close>)
  show "kernel_memory (kernel_free s p) a = kernel_memory s a"
    if "A p = Some k" "A q = Some j" "p \<noteq> q" "unat a \<in> region q j"
    by (rule kernel_live [OF h that(1)])
      (use tlsf.free_keeps that in \<open>simp add: kernel_free_def kernel_free_run kernel_memory_def\<close>)
  show "kernel_holds BS (kernel_poke s a v) A" if "A p = Some k" "unat a \<in> region p k"
    by (rule kernel_live [OF h that(1)])
      (use ok tlsf_write_contract that in \<open>simp add: kernel_poke_def kernel_holds_def\<close>)
qed

section \<open>Properties\<close>

text \<open>Every run of uACPI from the start of the program, where no arena exists.\<close>

abbreviation uacpi_reachable :: "boot_services \<Rightarrow> uacpi_kernel \<Rightarrow> ideal \<Rightarrow> bool" where
  "uacpi_reachable BS \<equiv>
     heap_reachable (\<lambda>s. uacpi_kernel_tlsf s = None) legal (heap_call (kernel_malloc BS) kernel_free kernel_poke)
       (\<lambda>s op r. observe (kernel_memory s) (kernel_capacity s r) op r)"

lemma uacpi_reachable_holds:
  assumes "pool_ok BS" "uacpi_reachable BS s H"
  shows "kernel_holds BS s (sizes H)" "agrees (kernel_memory s) H"
  using uacpi.reachable_agrees [OF assms(2)] assms(1) by (simp_all add: kernel_holds_def)

lemma kernel_alloc_defined: "kernel_holds BS s A \<Longrightarrow> uacpi_kernel_alloc BS s sz \<noteq> None"
  by (erule kernel_alloc_cases [where sz = sz]) simp_all

lemma kernel_free_defined:
  assumes "kernel_holds BS s A" "p = 0 \<or> A p \<noteq> None"
  shows "uacpi_kernel_free s p \<noteq> None"
proof (cases "p = 0")
  case True
  then show ?thesis by (simp add: uacpi_kernel_free_def)
next
  case False
  then obtain k where "A p = Some k" using assms(2) by blast
  then show ?thesis by (rule kernel_live [OF assms(1)]) (simp add: kernel_free_run)
qed

text \<open>
  C5. The heap that uACPI sees, arena initialisation included: in every run in which uACPI only frees what it was
  given, \<open>uacpi_kernel_alloc\<close> and \<open>uacpi_kernel_free\<close> never reach undefined behaviour, and every call is a step of the
  ideal heap that leaves the contents of all live allocations as uACPI wrote them, whatever the firmware answers.
\<close>

theorem uacpi_heap_correct:
  assumes "pool_ok BS" "uacpi_reachable BS s H" "legal H op"
    and "heap_call (kernel_malloc BS) kernel_free kernel_poke s op = (s', r)"
  shows "uacpi_kernel_alloc BS s sz \<noteq> None \<and> (p = 0 \<or> H p \<noteq> None \<longrightarrow> uacpi_kernel_free s p \<noteq> None)
    \<and> agrees (kernel_memory s) H
    \<and> (\<exists>H'. ideal_step H op r H' \<and> uacpi_reachable BS s' H' \<and> agrees (kernel_memory s') H')"
proof -
  note h = uacpi_reachable_holds [OF assms(1,2)]
  note ref = uacpi.call_refines [OF h assms(3,4)]
  have "uacpi_reachable BS s' (observe (kernel_memory s') (kernel_capacity s' r) op r H)"
    by (rule heap_reachable.step [OF assms(2-4)])
  moreover have "p = 0 \<or> H p \<noteq> None \<Longrightarrow> uacpi_kernel_free s p \<noteq> None"
    by (rule kernel_free_defined [OF h(1)]) auto
  ultimately show ?thesis using ref h(2) kernel_alloc_defined [OF h(1)] by blast
qed

text \<open>Firmware that grants every pool at 0x80000000, and firmware that has no memory.\<close>

definition example_services :: boot_services where
  "example_services = \<lparr>AllocatePool = (\<lambda>sz. if sz = 0x4000000 then (0, 0x80000000) else (9, 0)), FreePool = (\<lambda>_. 0)\<rparr>"

definition poor_services :: boot_services where
  "poor_services = \<lparr>AllocatePool = (\<lambda>_. (9, 0)), FreePool = (\<lambda>_. 0)\<rparr>"

definition example_kernel :: uacpi_kernel where
  "example_kernel = \<lparr>arena = 0, uacpi_kernel_tlsf = None, unmanaged = (\<lambda>_. 0)\<rparr>"

lemma example_services_ok: "pool_ok example_services"
  by (simp add: pool_ok_def example_services_def EFI_SUCCESS_def)

lemma example_kernel_start: "uacpi_reachable BS example_kernel Map.empty"
  by (rule heap_reachable.start) (simp add: example_kernel_def)

theorem uacpi_heap_correct_witness:
  "\<exists>s' r H'. kernel_malloc example_services example_kernel 64 = (s', r) \<and> ideal_step Map.empty (Malloc 64) r H'
    \<and> agrees (kernel_memory s') H'"
proof -
  obtain s' r where run: "kernel_malloc example_services example_kernel 64 = (s', r)" by fastforce
  have "legal Map.empty (Malloc 64)"
    "heap_call (kernel_malloc example_services) kernel_free kernel_poke example_kernel (Malloc 64) = (s', r)"
    using run by simp_all
  from uacpi_heap_correct [OF example_services_ok example_kernel_start this] run show ?thesis by blast
qed

text \<open>
  C36. The first allocation creates the arena: when the firmware grants 64 MiB, every request of 1 to 65,000,000 bytes
  is served, and \<open>uacpi_kernel_initialize\<close> reports success; when it refuses, the result is the null pointer and
  "out of memory", no allocator is left behind and the next call tries again.
\<close>

theorem uacpi_first_alloc:
  assumes "pool_ok BS" "uacpi_kernel_tlsf s = None" "0 < unat sz" "unat sz \<le> 65000000"
  shows "if fst (AllocatePool BS UACPI_KERNEL_ARENA_SIZE) = EFI_SUCCESS
    then (\<exists>s' p k. uacpi_kernel_alloc BS s sz = Some (s', p) \<and> p \<noteq> 0 \<and> unat sz \<le> k \<and> kernel_holds BS s' [p \<mapsto> k])
      \<and> map_option snd (uacpi_kernel_initialize BS s) = Some UACPI_STATUS_OK
    else (\<exists>s'. uacpi_kernel_alloc BS s sz = Some (s', 0) \<and> uacpi_kernel_tlsf s' = None \<and> kernel_memory s' = kernel_memory s
      \<and> uacpi_kernel_initialize BS s = Some (s', UACPI_STATUS_OUT_OF_MEMORY))"
proof -
  have h: "kernel_holds BS s Map.empty" using assms(1,2) by (simp add: kernel_holds_def)
  then show ?thesis
  proof (cases rule: init_arena_cases)
    case (ready control)
    then show ?thesis using assms(2) by simp
  next
    case (refused ret a)
    then show ?thesis
      using assms(2) by (simp add: uacpi_kernel_alloc_def uacpi_kernel_initialize_def kernel_memory_def)
  next
    case (created a control)
    have cells: "arena_cells UACPI_KERNEL_ARENA_SIZE = 8387789"
      by (simp add: arena_cells_def UACPI_KERNEL_ARENA_SIZE_def)
    obtain c p where m: "tlsf_malloc control sz = (c, p)" by fastforce
    have sz: "unat sz + 7 < 2 ^ 64" using assms(4) by simp
    have "p \<noteq> 0" using arena_idle [OF created(5) assms(3)] assms(4) m by (simp add: cells)
    then obtain k where k: "unat sz \<le> k" "tlsf_state a (arena_pool a UACPI_KERNEL_ARENA_SIZE) c [p \<mapsto> k]"
      by (rule tlsf_malloc_fresh [OF created(5) sz m]) blast
    define s' where "s' = s\<lparr>arena := a, uacpi_kernel_tlsf := Some c\<rparr>"
    have "uacpi_kernel_alloc BS s sz = Some (s', p)"
      using kernel_alloc_run [OF created(2) _ m] by (simp add: s'_def)
    moreover have "kernel_holds BS s' [p \<mapsto> k]" using k(2) assms(1) by (simp add: kernel_holds_def s'_def)
    ultimately show ?thesis
      using created(1,2) \<open>p \<noteq> 0\<close> k(1) by (auto simp: uacpi_kernel_initialize_def)
  qed
qed

theorem uacpi_first_alloc_witness:
  "\<exists>s' p k. uacpi_kernel_alloc example_services example_kernel 1000 = Some (s', p) \<and> p \<noteq> 0
    \<and> kernel_holds example_services s' [p \<mapsto> k]"
proof -
  have "uacpi_kernel_tlsf example_kernel = None" by (simp add: example_kernel_def)
  from uacpi_first_alloc [OF example_services_ok this, of 1000] show ?thesis
    by (simp add: example_services_def UACPI_KERNEL_ARENA_SIZE_def EFI_SUCCESS_def) blast
qed

text \<open>
  Register accesses: a value written at a handle and an offset is read back at every width, and a read of
  a register that shares no byte with the written one gives its old value.
\<close>

theorem uacpi_io_roundtrip:
  "snd (uacpi_kernel_io_read8 (fst (uacpi_kernel_io_write8 m h off8 v8)) h off8) = v8
    \<and> snd (uacpi_kernel_io_read16 (fst (uacpi_kernel_io_write16 m h off16 v16)) h off16) = v16
    \<and> snd (uacpi_kernel_io_read32 (fst (uacpi_kernel_io_write32 m h off32 v32)) h off32) = v32
    \<and> (let old = uacpi_kernel_io_read32 m h other; new = uacpi_kernel_io_read32 (fst (uacpi_kernel_io_write32 m h off32 v32)) h other
       in if 4 \<le> unat (other - off32) \<and> 4 \<le> unat (off32 - other) then new = old else True)"
proof -
  have "disjoint_cells (h + off32) 4 (h + other) 4" if far: "4 \<le> unat (other - off32)" "4 \<le> unat (off32 - other)"
    unfolding disjoint_cells_def
  proof (intro allI impI notI)
    fix i j :: nat
    assume ij: "i < 4" "j < 4" "h + off32 + of_nat i = h + other + of_nat j"
    then have eq: "off32 + of_nat i = other + of_nat j" by (simp add: add.assoc)
    show False
    proof (cases "i \<le> j")
      case True
      then have "off32 - other = of_nat (j - i)" using eq by (simp add: of_nat_diff algebra_simps)
      then show False using far(2) ij(2) by simp
    next
      case False
      then have "other - off32 = of_nat (i - j)" using eq by (simp add: of_nat_diff algebra_simps)
      then show False using far(1) ij(1) by simp
    qed
  qed
  then show ?thesis
    by (simp add: Let_def uacpi_kernel_io_read8_def uacpi_kernel_io_write8_def uacpi_kernel_io_read16_def
        uacpi_kernel_io_write16_def uacpi_kernel_io_read32_def uacpi_kernel_io_write32_def
        c8.ld_st_same c16.ld_st_same c32.ld_st_same c32.ld_st_other)
qed

text \<open>
  C37. The clock is exact, and so monotonic, as long as the counter is below 18,446,744,074 ticks (three minutes at a
  counter of 100 MHz); at that count the product wraps around and the time falls back to less than a third of a
  second. A counter frequency of 0 is a division by zero.
\<close>

theorem uacpi_clock_exact:
  assumes "unat ticks < 18446744074"
  shows "uacpi_kernel_get_nanoseconds_since_boot 0 0 ticks = None
    \<and> (freq \<noteq> 0 \<longrightarrow>
        (\<exists>ns. uacpi_kernel_get_nanoseconds_since_boot 0 freq ticks = Some (freq, ns)
          \<and> uacpi_kernel_get_nanoseconds_since_boot freq other ticks = Some (freq, ns)
          \<and> unat ns = unat ticks * 10 ^ 9 div unat freq)
        \<and> uacpi_kernel_get_nanoseconds_since_boot freq other 18446744074 = Some (freq, 290448384 div freq))"
proof -
  have exact: "unat (ticks * 1000000000) = unat ticks * 10 ^ 9"
    using assms by (simp add: unat_mult_lem [THEN iffD1])
  have wraps: "(18446744074 :: u64) * 1000000000 = 290448384" by code_simp
  have "uacpi_kernel_get_nanoseconds_since_boot freq other 18446744074 = Some (freq, 290448384 div freq)" if "freq \<noteq> 0"
    using that unfolding uacpi_kernel_get_nanoseconds_since_boot_def Let_def wraps by (simp only: if_False)
  then show ?thesis
    using exact by (auto simp: uacpi_kernel_get_nanoseconds_since_boot_def unat_div)
qed

theorem uacpi_clock_exact_witness:
  "\<exists>ns. uacpi_kernel_get_nanoseconds_since_boot 0 100000000 12345678 = Some (100000000, ns) \<and> unat ns = 123456780"
proof -
  have "unat (12345678 :: u64) < 18446744074" "(100000000 :: u64) \<noteq> 0" by simp_all
  from uacpi_clock_exact [OF this(1), of 100000000 0] this(2) show ?thesis by auto
qed

end
