(* ===== verification/ReadNor.thy ===== *)
theory ReadNor imports Memory begin

text \<open>
  The program of \<open>readnor.c\<close>: it dumps 16 MiB of SPI flash to a file in blocks of 4096 bytes. The flash
  protocol and the file system are parameters.
\<close>

section \<open>The program\<close>

text \<open>
  The status of \<open>LocateProtocol\<close>, whether \<open>fopen\<close> gives a file, the status and the buffer after \<open>Read\<close> at an offset
  into a buffer of a length, and the number of bytes that the file system still takes.
\<close>

record readnor_env =
  locate_status :: u64
  fopen_ok :: "string \<Rightarrow> bool"
  nor_Read :: "u32 \<Rightarrow> bytes \<Rightarrow> u32 \<Rightarrow> u64 \<times> bytes"
  file_room :: nat

definition norGuid :: efi_guid where
  "norGuid = \<lparr>Data1 = 0x339132DC, Data2 = 0xCED7, Data3 = 0x4f84, Data4 = [0xAA, 0xE7, 0x2E, 0xC4, 0xF9, 0x14, 0x38, 0x2F]\<rparr>"

text \<open>The protocol is the four pointers \<open>Erase\<close>, \<open>Write\<close>, \<open>Read\<close> and \<open>EraseWrite\<close>; the program calls the third.\<close>

definition HISI_SPI_FLASH_PROTOCOL_members :: "(nat \<times> nat) list" where
  "HISI_SPI_FLASH_PROTOCOL_members = replicate 4 (8, 8)"

lemma nor_Read_offset: "c_offsetof HISI_SPI_FLASH_PROTOCOL_members 2 = 16"
  by code_simp

text \<open>\<open>ret\<close> is an \<open>int\<close>: a status is cut to its low 32 bits before the comparison.\<close>

definition efi_failed :: "u64 \<Rightarrow> bool" where
  "efi_failed st \<longleftrightarrow> (ucast st :: u32) \<noteq> 0"

text \<open>\<open>fwrite\<close> appends what the file system takes; the program ignores the count.\<close>

definition fwrite :: "readnor_env \<Rightarrow> bytes \<Rightarrow> bytes \<Rightarrow> bytes" where
  "fwrite env out buf = out @ take (file_room env - length out) buf"

lemma offset_step: "(offset :: u32) < 16777216 \<Longrightarrow> unat (offset + 4096) = unat offset + 4096"
  by (simp add: word_less_nat_alt unat_word_ariths)

text \<open>The loop, with the buffer that lives across the iterations: the exit code and the file.\<close>

function readnor_loop :: "readnor_env \<Rightarrow> u32 \<Rightarrow> bytes \<Rightarrow> bytes \<Rightarrow> int \<times> bytes" where
  "readnor_loop env offset buf out =
     (if offset < 16 * 1024 * 1024 then
        let (ret, buf) = nor_Read env offset buf 4096
        in if efi_failed ret then (1, out)
           else readnor_loop env (offset + 4096) buf (fwrite env out buf)
      else (0, out))"
  by pat_completeness auto

termination
  by (relation "measure (\<lambda>(env, offset, buf, out). 2 ^ 25 - unat offset)")
    (simp_all add: offset_step word_less_nat_alt)

text \<open>The exit code and the file that was created, with its name; \<open>buf\<close> is the uninitialised buffer.\<close>

definition readnor_main :: "readnor_env \<Rightarrow> string list \<Rightarrow> bytes \<Rightarrow> int \<times> (string \<times> bytes) option" where
  "readnor_main env argv buf =
     (let dst = (if length argv > 1 then argv ! 1 else ''dump.bin'')
      in if efi_failed (locate_status env) then (1, None)
         else if \<not> fopen_ok env dst then (1, None)
         else let (ret, out) = readnor_loop env 0 buf [] in (ret, Some (dst, out)))"

section \<open>The dump\<close>

declare readnor_loop.simps [simp del]

text \<open>A flash with contents \<open>flash\<close>: every read succeeds and fills the buffer from the offset.\<close>

definition reads_flash :: "readnor_env \<Rightarrow> bytes \<Rightarrow> bool" where
  "reads_flash env flash \<longleftrightarrow> length flash = 16777216
     \<and> (\<forall>offset buf. unat offset < 16777216 \<longrightarrow> unat offset mod 4096 = 0 \<longrightarrow>
          (\<exists>st. nor_Read env offset buf 4096 = (st, slice (unat offset) 4096 flash) \<and> \<not> efi_failed st))"

lemma take_slice: "take n xs @ take (r - n) (slice n k xs) = take (min r (n + k)) xs" if "n \<le> r"
proof -
  have "take (r - n) (slice n k xs) = take (min (r - n) k) (drop n xs)" by (simp add: slice_def)
  moreover have "min r (n + k) = n + min (r - n) k" using that by linarith
  ultimately show ?thesis by (simp add: take_add)
qed

lemma fwrite_flash:
  assumes "n + 4096 \<le> length flash"
  shows "fwrite env (take (min (file_room env) n) flash) (slice n 4096 flash) = take (min (file_room env) (n + 4096)) flash"
proof (cases "n \<le> file_room env")
  case True
  then have "length (take (min (file_room env) n) flash) = n" using assms by simp
  then show ?thesis unfolding fwrite_def using take_slice [OF True, of flash 4096] True by (simp add: min_absorb2)
next
  case False
  then show ?thesis using assms by (simp add: fwrite_def min_def)
qed

lemma readnor_loop_flash:
  assumes "reads_flash env flash" "unat offset \<le> 16777216" "unat offset mod 4096 = 0"
  shows "readnor_loop env offset buf (take (min (file_room env) (unat offset)) flash) = (0, take (file_room env) flash)"
  using assms(2,3)
proof (induction "16777216 - unat offset" arbitrary: offset buf rule: less_induct)
  case less
  have len: "length flash = 16777216" using assms(1) by (simp add: reads_flash_def)
  show ?case
  proof (cases "offset < 16777216")
    case False
    then have "unat offset = 16777216" using less.prems(1) by (simp add: word_less_nat_alt)
    then have "take (min (file_room env) (unat offset)) flash = take (file_room env) flash"
      using len by (simp add: min_def)
    then show ?thesis using False by (simp add: readnor_loop.simps)
  next
    case True
    then have lt: "unat offset < 16777216" by (simp add: word_less_nat_alt)
    obtain st where rd: "nor_Read env offset buf 4096 = (st, slice (unat offset) 4096 flash)" "\<not> efi_failed st"
      using assms(1) [unfolded reads_flash_def, THEN conjunct2, rule_format, OF lt less.prems(2), of buf] by blast
    have "unat offset + 4096 \<le> 16777216"
    proof -
      obtain q where "unat offset = 4096 * q" using less.prems(2) by (auto simp: mod_eq_0_iff_dvd)
      then show ?thesis using lt by simp
    qed
    then have fw: "fwrite env (take (min (file_room env) (unat offset)) flash) (slice (unat offset) 4096 flash)
        = take (min (file_room env) (unat (offset + 4096))) flash"
      using fwrite_flash [of "unat offset" flash env] len by (simp add: offset_step [OF True])
    have "readnor_loop env (offset + 4096) (slice (unat offset) 4096 flash)
        (take (min (file_room env) (unat (offset + 4096))) flash) = (0, take (file_room env) flash)"
      using \<open>unat offset + 4096 \<le> 16777216\<close> less.prems(2) lt
      by (intro less.hyps) (simp_all add: offset_step [OF True])
    then show ?thesis using True rd fw by (subst readnor_loop.simps) simp
  qed
qed

section \<open>Properties\<close>

text \<open>
  C38. The flash dump: when the protocol is found, the file can be created and every read succeeds, the program
  ends with 0 and the file holds the 16 MiB of flash in order, as far as the file system took them: a full disk
  is not noticed, the exit code is 0 all the same.
\<close>

theorem readnor_dumps:
  assumes "reads_flash env flash" "\<not> efi_failed (locate_status env)"
    and "fopen_ok env (if length argv > 1 then argv ! 1 else ''dump.bin'')"
  shows "readnor_main env argv buf =
    (0, Some (if length argv > 1 then argv ! 1 else ''dump.bin'', take (file_room env) flash))"
  using assms(2,3) readnor_loop_flash [OF assms(1), of 0 buf] by (simp add: readnor_main_def Let_def)

definition example_env :: "nat \<Rightarrow> readnor_env" where
  "example_env room = \<lparr>locate_status = 0, fopen_ok = (\<lambda>_. True),
     nor_Read = (\<lambda>offset buf n. (0, replicate (unat n) 0xA5)), file_room = room\<rparr>"

lemma example_reads: "reads_flash (example_env room) (replicate 16777216 0xA5)"
proof -
  have "slice n 4096 (replicate 16777216 (0xA5 :: u8)) = replicate 4096 0xA5"
    if n: "n < 16777216" "n mod 4096 = 0" for n
  proof -
    obtain q where q: "n = 4096 * q" using n(2) by (auto simp: mod_eq_0_iff_dvd)
    then have "4096 \<le> 16777216 - n" using n(1) by simp
    then show ?thesis by (simp add: slice_def min_def)
  qed
  then show ?thesis
    by (simp add: reads_flash_def example_env_def efi_failed_def)
qed

theorem readnor_dumps_witness:
  "readnor_main (example_env 10) [''readnor'', ''nor.bin''] [] = (0, Some (''nor.bin'', take 10 (replicate 16777216 0xA5)))"
  using readnor_dumps [OF example_reads, of 10 "[''readnor'', ''nor.bin'']" "[]"]
  by (simp add: example_env_def efi_failed_def)

end
