(* ===== verification/Spec2Isabelle.thy ===== *)
theory Spec2Isabelle imports TablesFix AmlTest PatchBl TlsfScans TlsfAsserts TlsfOversize UacpiKernel ReadNor begin

text \<open>
  Verification of the firmware tools for the HiSilicon Kunpeng 920 S10 boards.

  The program. \<open>tablesfix.efi\<close> runs before the Windows boot manager. Its \<open>main\<close> (\<open>tablesfix.c\<close>) sets a video
  mode, counts the processors in SMBIOS, looks in the XSDT for the tables that already exist, removes a PCCT on
  single-processor boards, installs DBG2 and SPCR, lets \<open>fix_dsdt\<close> (\<open>dsdt_fix.c\<close>) build and install an SSDT that
  repairs the ACPI namespace, and starts the boot manager. \<open>fix_dsdt\<close> asks the HOB scan (\<open>hob.c\<close>) for the memory
  controllers in use, walks the namespace that uACPI loads, and writes its SSDT with the AML serializer (\<open>aml.c\<close>).
  uACPI gets its services from \<open>uacpi_kernel.c\<close>, whose heap is the TLSF allocator of \<open>tlsf.c\<close> on a 64 MiB arena.
  \<open>readnor.efi\<close> (\<open>readnor.c\<close>) dumps the flash, and \<open>patch_bl\<close> (\<open>patch_bl.c\<close>) patches the EL3 firmware in such
  a dump.

  Theories, in the order of their imports, and what their lemmas show.

  \<^item> \<open>Prelude\<close>: machine words, byte layouts, checked buffer writes; the interface \<open>fixed_codec\<close> of fixed-width
    fields, interpreted for 8 to 64 bits. \<open>Memory\<close>: the byte memory that pointers reach, loads and stores, C
    structure layout; the interface \<open>cell_memory\<close>, interpreted for 1 to 8 bytes.
  \<^item> \<open>Aml\<close> (\<open>aml.c\<close>, \<open>aml.h\<close>): the size pass and the serialization pass agree with a reference encoding; package
    lengths round-trip; unsupported opcodes are reported. \<open>AmlTyping\<close>: the grammar of the trees as an inductive
    relation; well-typed trees are serialized to bytes that read back as the tree. \<open>AmlTest\<close> (\<open>aml_test.c\<close>): the
    table that the test program writes.
  \<^item> \<open>Hob\<close> (\<open>hob.c\<close>, \<open>hob.h\<close>): the result on every well-formed list, and exactly when the walk never ends.
  \<^item> \<open>AcpiTable\<close>, \<open>AcpiPatch\<close> (\<open>definitions.h\<close>, the table steps of \<open>tablesfix.c\<close>): the DBG2 and SPCR images and
    their layout, the search for PCCT. \<open>EfiProtocols\<close> (\<open>definitions.h\<close>): the GUIDs and the calls of the protocols.
  \<^item> \<open>SsdtTree\<close>, \<open>DsdtFix\<close> (\<open>dsdt_fix.c\<close>): the construction of the SSDT, allocation by allocation, and a reader of it;
    which devices are recorded, and that the installed SSDT parses back to them. \<open>AmlTyping\<close> shows that the
    tree is well typed exactly when no allocation of its construction fails, none of which the code checks.
  \<^item> \<open>Gop\<close>, \<open>Smbios\<close>, \<open>TablesFix\<close> (\<open>tablesfix.c\<close>): the mode choice, the string and processor lookups, and exactly
    when each table is installed or removed and what is started, in which order.
  \<^item> \<open>PatchBl\<close> (\<open>patch_bl.c\<close>): termination and effect of the patch loop, short regions, and the
    written file when \<open>read\<close>, \<open>write\<close> and \<open>sendfile\<close> move as many bytes as the system likes (\<open>transfer\<close>).
  \<^item> \<open>TlsfBits\<close>, \<open>TlsfScans\<close>, \<open>TlsfBlocks\<close>, \<open>TlsfHeap\<close>, \<open>TlsfLists\<close>, \<open>TlsfMalloc\<close>, \<open>TlsfPool\<close>, \<open>TlsfState\<close>,
    \<open>TlsfArena\<close>, \<open>TlsfRealloc\<close>, \<open>TlsfMemalign\<close>, \<open>TlsfClient\<close>, \<open>TlsfCheck\<close>, \<open>TlsfPools\<close>,
    \<open>TlsfManyPools\<close>, \<open>TlsfAsserts\<close>, \<open>TlsfOversize\<close> (\<open>tlsf.c\<close>): see below.
  \<^item> \<open>Allocator\<close>: the ideal heap and the interfaces \<open>allocator\<close> (allocate and free) and \<open>full_allocator\<close>, which
    extends it by reallocation and aligned allocation; \<open>UacpiKernel\<close> (\<open>uacpi_kernel.c\<close>): the lazily created
    heap, the search for the RSDP, the log, register access, the clock, and the services without effect.
  \<^item> \<open>ReadNor\<close> (\<open>readnor.c\<close>): the dump is the flash as far as the file system takes it.

  \<^item> This theory: the run of \<open>main\<close> from the memory map in the HOB list to the AML that the operating system reads
    (\<open>tablesfix_repairs_namespace\<close>), from the lemmas of the HOB scan, the namespace walk, the SSDT and the main program.

  The allocator. \<open>TlsfBits\<close> has the bit routines, request sizes and size classes;
  \<open>TlsfBlocks\<close> the header operations over the byte memory. The proofs see the memory as 64-bit cells
  numbered by address divided by 8. There, \<open>TlsfHeap\<close> abstracts the headers to a map from the cell of a
  block to its size and status (\<open>segments\<close>: the blocks tile each pool of a set of pools;
  \<open>headers_ok\<close>: the headers describe the map), and every header operation becomes an update of the map.
  \<open>TlsfLists\<close> abstracts the free lists and bitmaps of \<open>control_t\<close> to the sets of blocks of
  each size class (\<open>lists_ok\<close>). \<open>TlsfMalloc\<close> joins the two in the invariant
  \<open>tlsf_inv\<close> (no two free neighbours, the lists hold exactly the free blocks) and proves
  \<open>tlsf_malloc\<close> and \<open>tlsf_free\<close>; \<open>TlsfPool\<close> establishes it for
  \<open>tlsf_create\<close>, which has no pool yet, and keeps it over \<open>tlsf_add_pool\<close>.
  \<open>TlsfState\<close> hides it behind \<open>tlsf_state\<close>, a relation to the map of the live allocations,
  and interprets the interface \<open>allocator\<close>, inside which every call is shown to refine the ideal heap.
  \<open>TlsfArena\<close> has the arena that \<open>tlsf_create_with_pool\<close> sets up and what an empty one
  serves; \<open>TlsfRealloc\<close> and \<open>TlsfMemalign\<close> prove the other two calls, and
  \<open>TlsfClient\<close> interprets \<open>full_allocator\<close> with all four. A client writes to its allocations
  as well: the sequences of calls in \<open>heap_reachable\<close> contain its writes, so the invariant is stable
  under them. \<open>TlsfCheck\<close> runs the allocator's own checks after such sequences. \<open>TlsfPools\<close>
  proves the contracts of adding and removing a pool while the other pools are in use, and
  \<open>TlsfManyPools\<close> the properties of runs (\<open>pools_run\<close>) in which calls, additions and
  removals of pools and the writes of others to the rest of the memory alternate; the arena of
  \<open>tlsf_create_with_pool\<close> is the case of one pool (\<open>arena_pools_reachable\<close>).
  \<open>TlsfAsserts\<close> states the checks \<open>tlsf_assert\<close> of every function in the states in which
  the function makes them (\<open>tlsf_free_asserts\<close> for \<open>tlsf_free\<close>, and so on), and proves that
  none fails in such runs. \<open>TlsfOversize\<close> follows a call of \<open>tlsf_realloc\<close> whose size is too large through the
  trimming of the caller's block to size 0. The bit
  routines of other compilers agree with the fallback that the model uses (\<open>TlsfScans\<close>).
  \<open>UacpiKernel\<close> interprets \<open>allocator\<close> on its own operations, using the facts of the first
  interpretation.

  Representation. A record of C is a record here, or, where the code takes addresses of its members, its members at
  their offsets in memory. \<open>control_t\<close> is a record whose block headers live in \<open>mem\<close>; the bytes of its own tables are
  not part of that memory, and the pool that the code manages lies behind them. Pointers are \<open>64 word\<close>, NULL is 0.
  The integers keep the width and the wrap-around of the code. Output parameters are results.

  Bounds and loops. A loop without a bound in the code (the HOB walk, \<open>strlen\<close>, the processor count, the
  patch loop, the walks over blocks and free lists in \<open>tlsf_walk_pool\<close> and \<open>tlsf_check\<close>) is
  a \<open>partial_function\<close> whose value is \<open>None\<close> when it does not end; its theorems state that
  it ends. No fuel is used. A cell number is below \<open>cell_limit\<close> = 2^61, the number of 8-byte cells of the
  address space. A pool has 3 to 2^29 - 1 cells besides its two headers; the theorems on arenas are about 6576 bytes
  (the control structure and one block) to 4 GiB, the largest that its lists can hold;
  \<open>tlsf_add_pool_limit\<close> shows what happens at 4 GiB exactly. Requests in legal calls are below 2^64 - 7:
  \<open>tlsf_request_size\<close> shows the wrap-around beyond. The theorem on \<open>tlsf_realloc\<close> stops at 4
  GiB, and \<open>tlsf_realloc_too_large\<close> shows why.

  Parameters. The firmware's services (protocols, \<open>AllocatePool\<close>, configuration table, SMBIOS, flash), the file
  system and uACPI are arguments: records of functions that give what the calls answer. The only law assumed of them
  is stated where it is used, for example \<open>pool_ok\<close>: \<open>AllocatePool\<close> that succeeds returns an aligned region that
  does not wrap around the address space. The witnesses instantiate each with a concrete environment.

  Not modelled. Console output outside of \<open>uacpi_kernel_log\<close> and the SMBIOS strings; the reports of the
  default walker of \<open>tlsf.c\<close> are a list. The effect of a failing \<open>tlsf_assert\<close>: there is
  none, since \<open>tlsf.c\<close> defines \<open>assert\<close> as \<open>((void)0)\<close>. The members of the
  protocols of \<open>definitions.h\<close> and \<open>readnor.c\<close> that nothing calls, but for their places, and
  the constants that nothing uses; the typedefs of \<open>uacpi_types.h\<close>, which are the integer types of the
  definitions. The submodules posix-uefi and uACPI (their directories are empty), the build files.
\<close>

section \<open>The program as a whole\<close>

text \<open>The address is the base of a channel that has an enabled DIMM in the memory map.\<close>

definition ddrc_in_use :: "memory \<Rightarrow> u64 \<Rightarrow> u64 \<Rightarrow> bool" where
  "ddrc_in_use m gbl base \<longleftrightarrow>
     list_ex (\<lambda>(s, c). channel_online m gbl s c \<and> base = ddrc_base s c) (List.product [0..<MAX_SOCKET] [0..<MAX_CHANNEL])"

text \<open>
  The devices whose \<open>_CRS\<close> the walk asks for: those that are not disabled and have the identification of a DDR
  controller. The resources of the others are never looked at.
\<close>

definition ddrc_asked :: "'n uacpi_env \<Rightarrow> 'n \<Rightarrow> bool" where
  "ddrc_asked uacpi node \<longleftrightarrow> in_depth uacpi node \<and> ns_sta uacpi node \<noteq> Some 0 \<and>
     (case ns_info uacpi node of Some info \<Rightarrow> info_has_hid info \<and> info_hid info = ''HISI0233'' | None \<Rightarrow> False)"

text \<open>
  A controller of the namespace that the memory map does not show in use: it is asked for its resources, and its
  address is not the base of a channel with an enabled DIMM.
\<close>

definition unused_ddrc :: "memory \<Rightarrow> u64 \<Rightarrow> 'n uacpi_env \<Rightarrow> 'n \<Rightarrow> bool" where
  "unused_ddrc m gbl uacpi node \<longleftrightarrow> in_depth uacpi node \<and> ns_sta uacpi node \<noteq> Some 0 \<and>
     (case (ns_info uacpi node, Option.bind (ns_crs uacpi node) first_address64) of
        (Some info, Some base) \<Rightarrow> info_has_hid info \<and> info_hid info = ''HISI0233'' \<and> \<not> ddrc_in_use m gbl base
      | _ \<Rightarrow> False)"

lemma names_install [simp]:
  "missing_names (env\<lparr>install_ok := f\<rparr>) = missing_names env" "offline_names (env\<lparr>install_ok := f\<rparr>) = offline_names env"
  by (simp_all add: missing_names_def offline_names_def fun_eq_iff)

lemma ddrc_in_use_iff:
  "ddrc_in_use m gbl x \<longleftrightarrow> (\<exists>s < MAX_SOCKET. \<exists>c < MAX_CHANNEL. channel_online m gbl s c \<and> x = ddrc_base s c)"
  by (auto simp: ddrc_in_use_def list_ex_iff Bex_def; blast)

lemma online_is_in_use:
  assumes "hob_chain m (find_hob_list config) hs" "find_hob_list config \<noteq> 0"
    and "find (is_memory_map_hob m) hs = Some h" "\<forall>h \<in> set hs. h + 24 \<noteq> 0"
    and "hob_get_online_ddrcs m config (replicate (MAX_SOCKET * MAX_CHANNEL) 0) = Some (ret, out)"
  shows "x \<in> set out - {0} \<longleftrightarrow> ddrc_in_use m (h + 24) x"
proof (cases "x = 0")
  case True
  then show ?thesis using ddrc_base_inj(2) by (auto simp: ddrc_in_use_iff)
next
  case False
  then have "x \<in> set out \<longleftrightarrow>
      (\<exists>s < MAX_SOCKET. \<exists>c < MAX_CHANNEL. channel_online m (h + 24) s c \<and> x = ddrc_base s c)"
    using online_ddrcs_exact [OF refl _ False assms(4,5)] assms(1-3) by auto
  then show ?thesis using False by (simp add: ddrc_in_use_iff)
qed

lemma offline_is_unused:
  assumes "\<And>x. x \<in> set online - {0} \<longleftrightarrow> ddrc_in_use m gbl x"
    and "ddrc_asked uacpi node \<longrightarrow> (\<forall>rs. ns_crs uacpi node = Some rs \<longrightarrow> first_address64 rs \<noteq> None)"
  shows "is_offline uacpi online node \<longleftrightarrow> unused_ddrc m gbl uacpi node"
  using assms(2) unfolding is_offline_def unused_ddrc_def ddrc_asked_def assms(1) by (auto split: option.splits)

text \<open>
  C1. The whole repair of the namespace, from the memory map in the HOB list to the table: on the Hi1620, with a
  well-formed HOB list that holds the memory map, the ACPI protocol, uACPI running, enough memory, fewer than 65535
  devices whose information can be had, and a 64-bit address in the resources of every DDR controller that is asked
  for them (those of other devices are not looked at), a run installs no SSDT when every device is identified and
  every controller is in use, and else exactly one: its header gives its real length, and its AML gives the devices
  without identification the identifiers DIXY0001, DIXY0002, ... in the order of the namespace, and disables exactly
  the DDR controllers whose channel has no enabled DIMM.
\<close>

theorem tablesfix_repairs_namespace:
  fixes env :: "'n main_env" and h :: u64
  defines "fx \<equiv> main_fix env"
  defines "unused \<equiv> map (device_name (fix_uacpi fx)) (filter (unused_ddrc (fix_memory fx) (h + 24) (fix_uacpi fx)) (fix_devices fx))"
  assumes "tablesfix_main env = Some (results, events)" "acpi_table env \<noteq> 0" "is_hi1620 env"
    and "hob_chain (fix_memory fx) (find_hob_list (fix_config fx)) hs" "find_hob_list (fix_config fx) \<noteq> 0"
    and "find (is_memory_map_hob (fix_memory fx)) hs = Some h" "\<forall>h \<in> set hs. h + 24 \<noteq> 0"
    and "init_ok fx" "load_ok fx" "\<forall>k. fix_alloc_ok fx k" "\<forall>n. length (fix_fresh fx n) = n"
    and "\<forall>node \<in> set (fix_devices fx). ns_info (fix_uacpi fx) node \<noteq> None \<and>
      (ddrc_asked (fix_uacpi fx) node \<longrightarrow>
        (\<forall>rs. ns_crs (fix_uacpi fx) node = Some rs \<longrightarrow> first_address64 rs \<noteq> None))"
    and "\<forall>n. length (ns_name (fix_uacpi fx) n) = 4" "length (fix_devices fx) < 65535"
  shows "if missing_names fx = [] \<and> unused = [] then tables_of 0x54445353 events = []
    else \<exists>t. tables_of 0x54445353 events = [t] \<and> unat (table_length t) = length t \<and>
      ssdt_parse (drop 36 t) = Some (missing_names fx @ unused, hid_items (missing_names fx) @ map Set_STA0 unused)"
proof -
  let ?fx = "fx\<lparr>install_ok := main_install_ok env\<rparr>"
  obtain w cpus where smbios: "smbios_step env = Some (w, cpus)" using smbios_returned [OF assms(3)] by blast
  obtain flags r ev where step: "dsdt_step env = Some (r, ev)" and
    events: "events = resolution_step env @ snd (pcct_step env flags cpus) @ snd (dbg2_step env flags w)
      @ snd (spcr_step env flags w) @ ev @ chainload_step env"
    using run_steps [OF assms(3) smbios] by blast
  then obtain ret tables where ssdt: "fix_dsdt ?fx = Some (ret, tables)" "ev = map InstallTable tables"
    using assms(4) by (auto simp: dsdt_step_def fx_def)
  have tables: "tables_of 0x54445353 events = filter (\<lambda>t. table_signature t = 0x54445353) tables"
    by (simp add: events step_tables ssdt(2))
  obtain online where online: "online_ddrcs fx = Some online"
    using ssdt(1) by (auto simp: fix_dsdt_def split: option.splits)
  then obtain ret' where hob: "hob_get_online_ddrcs (fix_memory fx) (fix_config fx)
      (replicate (MAX_SOCKET * MAX_CHANNEL) 0) = Some (ret', online)"
    using assms(5) by (auto simp: online_ddrcs_def is_hi1620_def fx_def)
  have "is_offline (fix_uacpi fx) online node \<longleftrightarrow> unused_ddrc (fix_memory fx) (h + 24) (fix_uacpi fx) node"
    if "node \<in> set (fix_devices fx)" for node
  proof (rule offline_is_unused)
    show "x \<in> set online - {0} \<longleftrightarrow> ddrc_in_use (fix_memory fx) (h + 24) x" for x
      by (rule online_is_in_use [OF assms(6-9) hob])
    show "ddrc_asked (fix_uacpi fx) node \<longrightarrow>
        (\<forall>rs. ns_crs (fix_uacpi fx) node = Some rs \<longrightarrow> first_address64 rs \<noteq> None)"
      using assms(14) that by blast
  qed
  then have names: "offline_names fx online = unused"
    by (simp add: offline_names_def unused_def cong: filter_cong)
  have "if missing_names fx = [] \<and> unused = [] then fix_dsdt ?fx = Some (0, [])
    else \<exists>t. fix_dsdt ?fx = Some (if main_install_ok env t then 0 else 1, [t]) \<and>
      table_signature t = 0x54445353 \<and> unat (table_length t) = length t \<and> table_oem_id t = str ''DIXYES'' \<and>
      ssdt_parse (drop 36 t) = Some (missing_names fx @ unused, hid_items (missing_names fx) @ map Set_STA0 unused)"
    using fix_dsdt_run [of ?fx online] assms(10-16) online unfolding names_install names by (simp cong: if_cong)
  with ssdt(1) tables show ?thesis by (auto split: if_splits)
qed

text \<open>
  The memory map of \<open>hob_example\<close>, with the controller \<open>DDR1\<close> on the channel 7 of socket 1, which it shows in use,
  and \<open>DDR0\<close> on no channel. The other devices have resources without an address.
\<close>

definition repair_uacpi :: "nat uacpi_env" where
  "repair_uacpi = test_uacpi\<lparr>ns_crs := (\<lambda>n. Some (if n = 4 then [RES_OTHER, RES_ADDRESS64 0x9cd90000]
     else if n = 3 then [RES_ADDRESS64 0x94000000] else [RES_OTHER, RES_OTHER]))\<rparr>"

definition repair_fix :: "nat fix_env" where
  "repair_fix = test_fix\<lparr>fix_midr := 0x481fd010, fix_memory := hob_example, fix_config := hob_example_config,
     fix_uacpi := repair_uacpi\<rparr>"

definition repair_main :: "nat main_env" where
  "repair_main = test_main\<lparr>main_fix := repair_fix\<rparr>"

lemma ddr_in_use: "ddrc_in_use hob_example 0x1028 0x9cd90000" "\<not> ddrc_in_use hob_example 0x1028 0x94000000"
proof -
  have "0x9cd90000 = ddrc_base 1 7" by (simp add: ddrc_base_def socket_base_def)
  then show "ddrc_in_use hob_example 0x1028 0x9cd90000"
    unfolding ddrc_in_use_iff MAX_SOCKET_def MAX_CHANNEL_def
    using hob_example_online(2) by (intro exI [of _ 1] conjI exI [of _ 7]) simp_all
  have "\<not> list_ex (\<lambda>(s, c). 0x94000000 = ddrc_base s c) (List.product [0..<MAX_SOCKET] [0..<MAX_CHANNEL])" by code_simp
  then show "\<not> ddrc_in_use hob_example 0x1028 0x94000000"
    by (auto simp: ddrc_in_use_def list_ex_iff)
qed

lemma repair_names:
  "missing_names repair_fix = [path2 ''_SB_COM1'']"
  "map (device_name repair_uacpi) (filter (unused_ddrc hob_example 0x1028 repair_uacpi) (fix_devices repair_fix)) =
     [path2 ''_SB_DDR0'']"
proof -
  show "missing_names repair_fix = [path2 ''_SB_COM1'']" by code_simp
  have nodes: "filter (unused_ddrc hob_example 0x1028 repair_uacpi) (fix_devices repair_fix) = [3]"
    by (simp add: repair_fix_def test_fix_def unused_ddrc_def repair_uacpi_def test_uacpi_def in_depth_def ddr_in_use)
  show "map (device_name repair_uacpi) (filter (unused_ddrc hob_example 0x1028 repair_uacpi) (fix_devices repair_fix)) =
     [path2 ''_SB_DDR0'']"
    unfolding nodes by code_simp
qed

lemma repair_fix_facts:
  "fix_memory repair_fix = hob_example" "fix_config repair_fix = hob_example_config" "fix_uacpi repair_fix = repair_uacpi"
  "init_ok repair_fix" "load_ok repair_fix" "\<forall>k. fix_alloc_ok repair_fix k" "\<forall>n. length (fix_fresh repair_fix n) = n"
  "\<forall>node \<in> set (fix_devices repair_fix). ns_info repair_uacpi node \<noteq> None \<and>
    (ddrc_asked repair_uacpi node \<longrightarrow> (\<forall>rs. ns_crs repair_uacpi node = Some rs \<longrightarrow> first_address64 rs \<noteq> None))"
  "\<forall>n. length (ns_name repair_uacpi n) = 4" "length (fix_devices repair_fix) < 65535"
  by (auto simp: repair_fix_def test_fix_def repair_uacpi_def test_uacpi_def ddrc_asked_def)

lemma repair_run: "tablesfix_main repair_main \<noteq> None"
proof -
  obtain ret online where "hob_get_online_ddrcs hob_example hob_example_config
      (replicate (MAX_SOCKET * MAX_CHANNEL) 0) = Some (ret, online)"
    using online_ddrcs_exact_witness by blast
  then have "online_ddrcs repair_fix = Some online"
    by (simp add: online_ddrcs_def repair_fix_def Let_def)
  then have "fix_dsdt (repair_fix\<lparr>install_ok := main_install_ok repair_main\<rparr>) \<noteq> None"
    using fix_dsdt_run [of "repair_fix\<lparr>install_ok := main_install_ok repair_main\<rparr>" online] repair_fix_facts
    by (simp split: if_splits) blast+
  moreover have "smbios_step repair_main = Some (False, 0)"
    by (simp add: repair_main_def smbios_step_def test_main_simps)
  ultimately show ?thesis
    by (auto simp: tablesfix_main_def dsdt_step_def Let_def repair_main_def split: prod.splits)
qed

theorem tablesfix_repairs_namespace_witness:
  "\<exists>results events t. tablesfix_main repair_main = Some (results, events) \<and> tables_of 0x54445353 events = [t] \<and>
     ssdt_parse (drop 36 t) = Some ([path2 ''_SB_COM1'', path2 ''_SB_DDR0''],
       [Set_HID (path2 ''_SB_COM1'') (str ''DIXY0001''), Set_STA0 (path2 ''_SB_DDR0'')])"
proof -
  obtain results events where run: "tablesfix_main repair_main = Some (results, events)"
    using repair_run by auto
  have env: "acpi_table repair_main \<noteq> 0" "is_hi1620 repair_main" "main_fix repair_main = repair_fix"
    by (simp_all add: repair_main_def repair_fix_def test_main_simps is_hi1620_def)
  have "hid_items [path2 ''_SB_COM1''] = [Set_HID (path2 ''_SB_COM1'') (str ''DIXY0001'')]" by code_simp
  with run show ?thesis
    using tablesfix_repairs_namespace [OF run env(1,2), unfolded env(3) repair_fix_facts(1-3) hob_example_config,
        OF hob_example_chain _ hob_example_find] repair_fix_facts
    by (auto simp: repair_names)
qed

end
